(* ===== verification/Sharddb_Prelude.thy ===== *)
theory Sharddb_Prelude
  imports Main "HOL-Library.Word" "HOL-Library.List_Lexorder" "HOL-Library.Sublist"
begin

text \<open>
  Shared vocabulary of the development: the machine types of the Go sources, Go byte
  slices and strings, slices that may be \<open>nil\<close>, the iteration scheme of a callback that
  can stop a traversal, enumerations of a Go map, and the generic lemmas on lists and on
  the lexicographic order of byte strings that the components use.
\<close>

section \<open>Types\<close>

type_synonym byte = "8 word"
type_synonym u32 = "32 word"
type_synonym u64 = "64 word"

text \<open>
  A Go string is an immutable byte sequence, so a string and the content of a
  \<^verbatim>\<open>[]byte\<close> are both lists of bytes and the conversions \<^verbatim>\<open>string(b)\<close> and
  \<^verbatim>\<open>[]byte(s)\<close> are the identity.  Where the code tells a \<open>nil\<close> slice from an empty
  one, the type is \<open>slice\<close>, with \<open>None\<close> for \<open>nil\<close>.
\<close>

type_synonym bytes = "byte list"
type_synonym slice = "bytes option"

text \<open>The bytes of a string literal of the source.\<close>

definition lit :: "string \<Rightarrow> bytes" where
  "lit s = map of_char s"

text \<open>The bytes of a slice: \<open>nil\<close> has none.\<close>

definition slice_bytes :: "slice \<Rightarrow> bytes" where
  "slice_bytes s = (case s of None \<Rightarrow> [] | Some b \<Rightarrow> b)"

text \<open>
  Facts that unfold the named state transformers and views of the components, and facts
  that say an operation keeps an invariant.
\<close>

named_theorems view_simps
named_theorems inv_intros

section \<open>Traversals and maps\<close>

text \<open>
  A traversal offers the items of a list one after the other to a callback, which updates
  the state it closes over and says whether to go on.
\<close>

fun iterate :: "('i \<Rightarrow> 's \<Rightarrow> bool \<times> 's) \<Rightarrow> 'i list \<Rightarrow> 's \<Rightarrow> 's" where
  "iterate f [] s = s"
| "iterate f (x # xs) s = (case f x s of (go, s') \<Rightarrow> if go then iterate f xs s' else s')"

text \<open>
  The order of \<^verbatim>\<open>range\<close> over a Go map is not specified.  A list enumerates a map when it
  lists every binding exactly once.
\<close>

definition enumerates :: "('k \<times> 'v) list \<Rightarrow> ('k \<rightharpoonup> 'v) \<Rightarrow> bool" where
  "enumerates xs m \<longleftrightarrow> distinct (map fst xs) \<and> map_of xs = m"

lemma enumerates_empty [simp]: "enumerates xs Map.empty \<longleftrightarrow> xs = []"
  by (auto simp: enumerates_def)

lemma enumerates_set: "enumerates xs m \<Longrightarrow> (k, v) \<in> set xs \<longleftrightarrow> m k = Some v"
  by (auto simp: enumerates_def map_of_eq_Some_iff)

lemma iterate_all:
  "(\<And>x s. fst (f x s)) \<Longrightarrow> iterate f xs s = fold (\<lambda>x s. snd (f x s)) xs s"
  by (induction xs arbitrary: s) (auto split: prod.splits, metis fst_conv)

lemma iterate_append_go:
  "(\<And>x s. x \<in> set xs \<Longrightarrow> fst (f x s)) \<Longrightarrow>
   iterate f (xs @ ys) s = iterate f ys (fold (\<lambda>x s. snd (f x s)) xs s)"
  by (induction xs arbitrary: s) (auto split: prod.splits, metis fst_conv)

section \<open>Lists\<close>

lemma filter_cong_empty: "(\<And>x. x \<in> set xs \<Longrightarrow> \<not> P x) \<Longrightarrow> filter P xs = []"
  by (induction xs) auto

lemma find_filter: "find P xs = (case filter P xs of [] \<Rightarrow> None | x # _ \<Rightarrow> Some x)"
  by (induction xs) auto

lemma find_append:
  "find P (xs @ ys) = (case find P xs of None \<Rightarrow> find P ys | Some x \<Rightarrow> Some x)"
  by (induction xs) auto

lemma fold_fun_upd_map_of:
  "fold (\<lambda>(k, v) m. m(k \<mapsto> v)) xs m = m ++ map_of (rev xs)"
  by (induction xs arbitrary: m) (auto simp: map_add_def fun_eq_iff split: option.splits)

lemma map_of_rev_distinct: "distinct (map fst xs) \<Longrightarrow> map_of (rev xs) = map_of xs"
  by (rule map_of_eqI) (auto simp: map_of_eq_Some_iff rev_map [symmetric])

lemma takeWhile_eq_filter_mono:
  fixes f :: "'a \<Rightarrow> 'b::linorder"
  assumes "sorted_wrt (\<lambda>x y. f x \<le> f y) xs"
  shows "takeWhile (\<lambda>x. f x < e) xs = filter (\<lambda>x. f x < e) xs"
  using assms
proof (induction xs)
  case Nil
  then show ?case by simp
next
  case (Cons x xs)
  have "filter (\<lambda>y. f y < e) xs = []" if "\<not> f x < e"
    using that Cons.prems by (intro filter_cong_empty) (auto dest: order.trans)
  with Cons show ?case by auto
qed

section \<open>The lexicographic order\<close>

lemma append_less_append_iff [simp]:
  fixes p :: "'a::order list"
  shows "p @ xs < p @ ys \<longleftrightarrow> xs < ys"
  by (induction p) auto

lemma append_le_append_iff [simp]:
  fixes p :: "'a::order list"
  shows "p @ xs \<le> p @ ys \<longleftrightarrow> xs \<le> ys"
  by (induction p) auto

lemma le_append [simp]:
  fixes p :: "'a::order list"
  shows "p \<le> p @ xs"
  by (induction p) auto

lemma less_append_iff [simp]:
  fixes p :: "'a::order list"
  shows "p < p @ xs \<longleftrightarrow> xs \<noteq> []"
  by (induction p) (auto simp: list_less_def neq_Nil_conv)

lemma not_append_less [simp]:
  fixes p :: "'a::order list"
  shows "\<not> p @ xs < p"
  by (induction p) auto

text \<open>Every string between two extensions of \<open>p\<close> is an extension of \<open>p\<close>.\<close>

lemma between_extensions_prefix:
  fixes p :: "'a::linorder list"
  assumes "p @ a \<le> r" and "r \<le> p @ b"
  shows "prefix p r"
  using assms
proof (induction p arbitrary: r)
  case Nil
  then show ?case by simp
next
  case (Cons x p)
  then obtain y r' where r: "r = y # r'" by (cases r) auto
  with Cons.prems have "y = x" by auto
  with Cons r show ?case by auto
qed

text \<open>Two strings of which neither extends the other keep their order under any suffixes.\<close>

lemma less_append_mono:
  fixes xs :: "'a::linorder list"
  assumes "xs < ys" and "\<not> prefix xs ys"
  shows "xs @ a < ys @ b"
  using assms
proof (induction xs arbitrary: ys)
  case Nil
  then show ?case by simp
next
  case (Cons x xs)
  then obtain y ys' where "ys = y # ys'" by (cases ys) auto
  with Cons show ?case by auto
qed

lemma less_length_eq_append:
  fixes xs :: "'a::linorder list"
  assumes "length xs = length ys" and "xs < ys"
  shows "xs @ a < ys @ b"
proof (rule less_append_mono)
  show "\<not> prefix xs ys"
    using assms by (auto simp: prefix_def)
qed (rule assms)

lemma replicate_0_le:
  fixes xs :: "bytes"
  shows "n \<le> length xs \<Longrightarrow> replicate n 0 \<le> xs"
proof (induction n arbitrary: xs)
  case 0
  then show ?case by simp
next
  case (Suc n)
  then obtain y ys where "xs = y # ys" and "n \<le> length ys" by (cases xs) auto
  with Suc.IH [of ys] show ?case
    by (auto simp: word_neq_0_conv [symmetric])
qed

lemma sorted_wrt_find_first:
  assumes "sorted_wrt R xs" and "find P xs = Some x" and "y \<in> set xs" and "P y" and "y \<noteq> x"
  shows "R x y"
  using assms by (induction xs) (auto split: if_splits)

end
