(* ===== verification/Go_Lib.thy ===== *)
theory Go_Lib
  imports Sharddb_Prelude
begin

text \<open>
  The parts of Go's standard library that the sources use and that are pure functions:
  \<^verbatim>\<open>bytes.Compare\<close>, \<^verbatim>\<open>binary.BigEndian\<close>, \<^verbatim>\<open>sort.Search\<close>.
\<close>

unbundle bit_operations_syntax

section \<open>bytes.Compare\<close>

definition bytes_Compare :: "bytes \<Rightarrow> bytes \<Rightarrow> int" where
  "bytes_Compare a b = (if a = b then 0 else if a < b then -1 else 1)"

lemma bytes_Compare_simps [simp]:
  "bytes_Compare a b < 0 \<longleftrightarrow> a < b"
  "bytes_Compare a b > 0 \<longleftrightarrow> b < a"
  "bytes_Compare a b \<le> 0 \<longleftrightarrow> a \<le> b"
  "bytes_Compare a b \<ge> 0 \<longleftrightarrow> b \<le> a"
  by (auto simp: bytes_Compare_def)

section \<open>binary.BigEndian\<close>

text \<open>
  \<^verbatim>\<open>PutUint64\<close> and \<^verbatim>\<open>PutUint32\<close> write the most significant byte first; \<^verbatim>\<open>Uint64\<close> and
  \<^verbatim>\<open>Uint32\<close> join the bytes by shifts and bitwise or.
\<close>

primrec put_be :: "nat \<Rightarrow> 'a::len word \<Rightarrow> bytes" where
  "put_be 0 v = []"
| "put_be (Suc n) v = ucast (drop_bit (8 * n) v) # put_be n v"

definition get_be :: "bytes \<Rightarrow> 'a::len word" where
  "get_be bs = fold (\<lambda>b acc. push_bit 8 acc OR ucast b) bs 0"

definition PutUint64 :: "u64 \<Rightarrow> bytes" where
  "PutUint64 v = put_be 8 v"

definition Uint64 :: "bytes \<Rightarrow> u64" where
  "Uint64 bs = get_be (take 8 bs)"

definition PutUint32 :: "u32 \<Rightarrow> bytes" where
  "PutUint32 v = put_be 4 v"

definition Uint32 :: "bytes \<Rightarrow> u32" where
  "Uint32 bs = get_be (take 4 bs)"

text \<open>The number a byte string denotes in base 256.\<close>

definition be_nat :: "bytes \<Rightarrow> nat" where
  "be_nat bs = fold (\<lambda>b acc. acc * 256 + unat b) bs 0"

lemma length_put_be [simp]: "length (put_be n v) = n"
  by (induction n) auto

lemma length_PutUint64 [simp]: "length (PutUint64 v) = 8"
  by (simp add: PutUint64_def)

lemma length_PutUint32 [simp]: "length (PutUint32 v) = 4"
  by (simp add: PutUint32_def)

lemma fold_be_nat: "fold (\<lambda>b acc. acc * 256 + unat b) bs a = a * 256 ^ length bs + be_nat bs"
proof (induction bs arbitrary: a)
  case Nil
  then show ?case by (simp add: be_nat_def)
next
  case (Cons b bs)
  show ?case
    using Cons [of "a * 256 + unat b"] Cons [of "unat b"]
    by (simp add: be_nat_def algebra_simps)
qed

lemma be_nat_Nil [simp]: "be_nat [] = 0"
  by (simp add: be_nat_def)

lemma be_nat_Cons: "be_nat (b # bs) = unat b * 256 ^ length bs + be_nat bs"
  using fold_be_nat [of bs "unat b"] by (simp add: be_nat_def)

lemma unat_byte_less: "unat (b :: byte) < 256"
  using unsigned_less [of b] by simp

lemma be_nat_less: "be_nat bs < 256 ^ length bs"
proof (induction bs)
  case Nil
  then show ?case by simp
next
  case (Cons b bs)
  have "unat b * 256 ^ length bs + be_nat bs < (unat b + 1) * 256 ^ length bs"
    using Cons by simp
  also have "\<dots> \<le> 256 * 256 ^ length bs"
    using unat_byte_less [of b] by (intro mult_right_mono) auto
  finally show ?case by (simp add: be_nat_Cons)
qed

text \<open>On strings of one length the lexicographic order is the numerical order.\<close>

lemma be_nat_less_iff:
  "length xs = length ys \<Longrightarrow> be_nat xs < be_nat ys \<longleftrightarrow> xs < ys"
proof (induction xs ys rule: list_induct2)
  case Nil
  then show ?case by simp
next
  case (Cons x xs y ys)
  let ?w = "256 ^ length ys :: nat"
  have bx: "be_nat xs < ?w" and "by": "be_nat ys < ?w"
    using be_nat_less [of xs] be_nat_less [of ys] Cons.hyps by simp_all
  have lt: "unat a * ?w + p < unat b * ?w + q"
    if "unat a < unat b" "p < ?w" for a b :: byte and p q :: nat
  proof -
    have "unat a * ?w + p < (unat a + 1) * ?w" using that by simp
    also have "\<dots> \<le> unat b * ?w" using that by (intro mult_right_mono) auto
    finally show ?thesis by simp
  qed
  consider "unat x < unat y" | "unat x = unat y" | "unat y < unat x" by linarith
  then show ?case
  proof cases
    case 1
    then show ?thesis using lt [OF 1 bx] Cons.hyps
      by (auto simp: be_nat_Cons word_less_nat_alt)
  next
    case 2
    then have "x = y" by (simp add: word_unat_eq_iff)
    then show ?thesis using Cons by (simp add: be_nat_Cons)
  next
    case 3
    then show ?thesis using lt [OF 3 "by", of "be_nat xs"] Cons.hyps
      by (auto simp: be_nat_Cons word_less_nat_alt)
  qed
qed

lemma be_nat_inject: "length xs = length ys \<Longrightarrow> be_nat xs = be_nat ys \<Longrightarrow> xs = ys"
  by (metis be_nat_less_iff less_irrefl linorder_neqE)

lemma be_nat_put_be: "be_nat (put_be n v) = unat v mod 256 ^ n"
proof (induction n)
  case 0
  then show ?case by simp
next
  case (Suc n)
  have "unat (drop_bit (8 * n) v) = unat v div 256 ^ n"
    by (simp only: unat_drop_bit_eq) (simp add: drop_bit_eq_div power_mult)
  then have "unat (ucast (drop_bit (8 * n) v) :: byte) = unat v div 256 ^ n mod 256"
    by (simp only: unsigned_ucast_eq) (simp add: take_bit_eq_mod)
  moreover have "unat v mod 256 ^ Suc n = 256 ^ n * (unat v div 256 ^ n mod 256) + unat v mod 256 ^ n"
    using mod_mult2_eq [of "unat v" "256 ^ n" 256] by (simp add: mult.commute)
  ultimately show ?case
    using Suc by (simp add: be_nat_Cons)
qed

lemma get_be_of_nat: "(get_be bs :: 'a::len word) = of_nat (be_nat bs)"
proof -
  have step: "push_bit 8 acc OR ucast b = acc * 256 + (ucast b :: 'a word)"
    for acc :: "'a word" and b :: byte
  proof -
    have "push_bit 8 acc AND (ucast b :: 'a word) = 0"
      by (rule bit_eqI) (auto simp: bit_simps dest: bit_imp_le_length)
    then have "push_bit 8 acc OR ucast b = push_bit 8 acc + (ucast b :: 'a word)"
      by (simp add: disjunctive_add_eq_or)
    then show ?thesis by (simp add: push_bit_eq_mult)
  qed
  have "fold (\<lambda>b acc. push_bit 8 acc OR ucast b) bs (of_nat a :: 'a word)
      = of_nat (fold (\<lambda>b acc. acc * 256 + unat b) bs a)" for a
  proof (induction bs arbitrary: a)
    case Nil
    then show ?case by simp
  next
    case (Cons b bs)
    show ?case
      using Cons [of "a * 256 + unat b"] by (simp add: step)
  qed
  from this [of 0] show ?thesis by (simp add: get_be_def be_nat_def)
qed

lemma be_nat_PutUint64 [simp]: "be_nat (PutUint64 v) = unat v"
  using unsigned_less [of v, where 'a = nat] by (simp add: PutUint64_def be_nat_put_be)

lemma be_nat_PutUint32 [simp]: "be_nat (PutUint32 v) = unat v"
  using unsigned_less [of v, where 'a = nat] by (simp add: PutUint32_def be_nat_put_be)

lemma Uint64_PutUint64 [simp]: "Uint64 (PutUint64 v @ xs) = v"
  by (simp add: Uint64_def get_be_of_nat)

lemma Uint32_PutUint32 [simp]: "Uint32 (PutUint32 v @ xs) = v"
  by (simp add: Uint32_def get_be_of_nat)

lemma PutUint64_Uint64: "length bs = 8 \<Longrightarrow> PutUint64 (Uint64 bs) = bs"
  using be_nat_less [of bs]
  by (intro be_nat_inject) (auto simp: Uint64_def get_be_of_nat unat_of_nat)

lemma PutUint64_less_iff [simp]: "PutUint64 a < PutUint64 b \<longleftrightarrow> a < b"
  by (simp add: be_nat_less_iff [symmetric] word_less_nat_alt)

lemma PutUint64_inject [simp]: "PutUint64 a = PutUint64 b \<longleftrightarrow> a = b"
  by (metis Uint64_PutUint64)

lemma PutUint64_le_iff [simp]: "PutUint64 a \<le> PutUint64 b \<longleftrightarrow> a \<le> b"
  by (simp add: list_le_def le_less)

section \<open>sort.Search\<close>

text \<open>
  The binary search of the standard library: the loop keeps \<open>i \<le> j\<close> and halves the
  distance; it returns the boundary between \<open>False\<close> and \<open>True\<close> of a monotone predicate.
\<close>

function sort_Search_loop :: "(nat \<Rightarrow> bool) \<Rightarrow> nat \<Rightarrow> nat \<Rightarrow> nat" where
  "sort_Search_loop f i j =
     (if i < j
      then let h = (i + j) div 2
           in if \<not> f h then sort_Search_loop f (h + 1) j else sort_Search_loop f i h
      else i)"
  by pat_completeness auto
termination
  by (relation "measure (\<lambda>(f, i, j). j - i)") auto

declare sort_Search_loop.simps [simp del]

definition sort_Search :: "nat \<Rightarrow> (nat \<Rightarrow> bool) \<Rightarrow> nat" where
  "sort_Search n f = sort_Search_loop f 0 n"

lemma sort_Search_loop_boundary:
  assumes "i \<le> b" and "b \<le> j" and "\<And>k. k < j \<Longrightarrow> f k \<longleftrightarrow> b \<le> k"
  shows "sort_Search_loop f i j = b"
  using assms
proof (induction f i j rule: sort_Search_loop.induct)
  case (1 f i j)
  let ?h = "(i + j) div 2"
  show ?case
  proof (cases "i < j")
    case False
    with "1.prems" show ?thesis by (simp add: sort_Search_loop.simps [of f i j])
  next
    case True
    then have h: "i \<le> ?h" "?h < j" by auto
    show ?thesis
    proof (cases "f ?h")
      case False
      with h "1.prems"(3) have "Suc ?h \<le> b" by auto
      with False True h "1.prems" "1.IH"(1) [OF True refl]
      show ?thesis by (simp add: sort_Search_loop.simps [of f i j] Let_def)
    next
      case True': True
      with h "1.prems"(3) have "b \<le> ?h" by auto
      with True True' h "1.prems" "1.IH"(2) [OF True refl]
      show ?thesis by (simp add: sort_Search_loop.simps [of f i j] Let_def)
    qed
  qed
qed

lemma sort_Search_eqI:
  assumes "b \<le> n" and "\<And>k. k < n \<Longrightarrow> f k \<longleftrightarrow> b \<le> k"
  shows "sort_Search n f = b"
  unfolding sort_Search_def by (rule sort_Search_loop_boundary) (use assms in auto)

text \<open>On a list where the predicate stays true once it is true, the boundary is where it turns true.\<close>

lemma sort_Search_takeWhile:
  assumes "sorted_wrt (\<lambda>x y. P x \<longrightarrow> P y) xs"
  shows "sort_Search (length xs) (\<lambda>i. P (xs ! i)) = length (takeWhile (\<lambda>x. \<not> P x) xs)"
proof (rule sort_Search_eqI)
  let ?b = "length (takeWhile (\<lambda>x. \<not> P x) xs)"
  show "?b \<le> length xs" by (rule length_takeWhile_le)
  fix k
  assume k: "k < length xs"
  show "P (xs ! k) \<longleftrightarrow> ?b \<le> k"
  proof
    assume "P (xs ! k)"
    then show "?b \<le> k"
      by (metis (no_types, lifting) not_le nth_mem set_takeWhileD takeWhile_nth)
  next
    assume b: "?b \<le> k"
    with k have "P (xs ! ?b)" using nth_length_takeWhile [of "\<lambda>x. \<not> P x" xs] by simp
    with b k assms show "P (xs ! k)"
      unfolding sorted_wrt_iff_nth_less by (metis le_neq_implies_less)
  qed
qed

end
