(* ===== verification/Mvcc.thy ===== *)
theory Mvcc
  imports Go_Lib
begin

text \<open>
  The versioned keys of \<^verbatim>\<open>internal/storage/mvcc.go\<close>: \<open>EncodeKey\<close>, \<open>DecodeKey\<close>, their round
  trips and the order they induce on the raw keys of the tree.  \<open>MVCCGet\<close> reads through
  an engine's \<open>Scan\<close> and is in theory \<open>Memory_Read\<close>.
\<close>

section \<open>Definitions\<close>

text \<open>\<^verbatim>\<open>math.MaxUint64\<close>, the largest \<open>uint64\<close>.\<close>

abbreviation MaxUint64 :: u64 where
  "MaxUint64 \<equiv> - 1"

definition EncodeKey :: "bytes \<Rightarrow> u64 \<Rightarrow> bytes" where
  "EncodeKey key ts =
     (let invTs = MaxUint64 - ts
      in key @ PutUint64 invTs)"

definition DecodeKey :: "bytes \<Rightarrow> bytes \<times> u64" where
  "DecodeKey joined =
     (if length joined < 8 then (joined, 0)
      else let keyLen = length joined - 8;
               key = take keyLen joined;
               invTs = Uint64 (drop keyLen joined);
               ts = MaxUint64 - invTs
           in (key, ts))"

text \<open>A raw key is well formed when it carries a timestamp.\<close>

definition versioned :: "bytes \<Rightarrow> bool" where
  "versioned raw \<longleftrightarrow> 8 \<le> length raw"

section \<open>Round trips\<close>

lemma MaxUint64_minus_less_iff [simp]: "MaxUint64 - a < MaxUint64 - b \<longleftrightarrow> b < a"
proof -
  have "unat x \<le> unat MaxUint64" for x :: u64
    by (simp add: word_le_nat_alt [symmetric])
  from this [of a] this [of b] show ?thesis
    by (auto simp: word_less_nat_alt unat_sub)
qed

lemma MaxUint64_minus_le_iff [simp]: "MaxUint64 - a \<le> MaxUint64 - b \<longleftrightarrow> b \<le> a"
  by (simp add: not_less [symmetric])

lemma length_EncodeKey [simp]: "length (EncodeKey key ts) = length key + 8"
  by (simp add: EncodeKey_def)

lemma versioned_EncodeKey [simp]: "versioned (EncodeKey key ts)"
  by (simp add: versioned_def)

lemma DecodeKey_EncodeKey [simp]: "DecodeKey (EncodeKey key ts) = (key, ts)"
  using Uint64_PutUint64 [of "MaxUint64 - ts" "[]"]
  by (simp add: DecodeKey_def EncodeKey_def Let_def)

lemma EncodeKey_DecodeKey:
  assumes "versioned raw"
  shows "EncodeKey (fst (DecodeKey raw)) (snd (DecodeKey raw)) = raw"
proof -
  have "length (drop (length raw - 8) raw) = 8"
    using assms by (simp add: versioned_def)
  then show ?thesis
    using assms by (simp add: DecodeKey_def EncodeKey_def Let_def versioned_def PutUint64_Uint64)
qed

lemma DecodeKey_eq_iff: "versioned raw \<Longrightarrow> DecodeKey raw = (key, ts) \<longleftrightarrow> raw = EncodeKey key ts"
  using EncodeKey_DecodeKey [of raw] by auto

lemma EncodeKey_inject [simp]: "EncodeKey k t = EncodeKey k' t' \<longleftrightarrow> k = k' \<and> t = t'"
  by (metis DecodeKey_EncodeKey prod.inject)

section \<open>The order on raw keys\<close>

text \<open>For one user key the raw keys order the versions from the newest to the oldest.\<close>

lemma EncodeKey_less_same [simp]: "EncodeKey key t < EncodeKey key t' \<longleftrightarrow> t' < t"
  by (simp add: EncodeKey_def Let_def)

lemma EncodeKey_le_same [simp]: "EncodeKey key t \<le> EncodeKey key t' \<longleftrightarrow> t' \<le> t"
  by (simp add: EncodeKey_def Let_def)

text \<open>Between two versions of one key lie only raw keys that begin with that key.\<close>

lemma between_EncodeKey_prefix:
  "EncodeKey key t \<le> raw \<Longrightarrow> raw \<le> EncodeKey key t' \<Longrightarrow> prefix key raw"
  unfolding EncodeKey_def Let_def by (rule between_extensions_prefix)

text \<open>User keys of one length, or neither of which extends the other, keep their order.\<close>

lemma EncodeKey_less_mono:
  "k < k' \<Longrightarrow> \<not> prefix k k' \<Longrightarrow> EncodeKey k t < EncodeKey k' t'"
  unfolding EncodeKey_def Let_def by (rule less_append_mono)

lemma EncodeKey_Max: "EncodeKey key MaxUint64 = key @ replicate 8 0"
  by (simp add: EncodeKey_def Let_def PutUint64_def numeral_eq_Suc)

text \<open>The seek key of a scan lies at or below every raw key of a user key that extends it.\<close>

lemma EncodeKey_Max_le_prefix:
  assumes "prefix p k"
  shows "EncodeKey p MaxUint64 \<le> EncodeKey k t"
proof -
  from assms obtain q where k: "k = p @ q" by (auto simp: prefix_def)
  have "replicate 8 0 \<le> q @ PutUint64 (MaxUint64 - t)"
    by (rule replicate_0_le) simp
  then show ?thesis
    by (simp add: EncodeKey_Max k) (simp add: EncodeKey_def Let_def)
qed

lemma EncodeKey_Max_le:
  assumes "p \<le> k"
  shows "EncodeKey p MaxUint64 \<le> EncodeKey k t"
proof (cases "prefix p k")
  case True
  then show ?thesis by (rule EncodeKey_Max_le_prefix)
next
  case False
  with assms have "p < k" by (auto simp: le_less)
  then show ?thesis using False by (intro less_imp_le EncodeKey_less_mono)
qed

text \<open>The inverted form of a timestamp below \<open>2 ^ 56\<close> begins with the byte \<open>0xFF\<close>.\<close>

lemma PutUint64_small_ts:
  assumes "ts < 2 ^ 56"
  shows "\<exists>rest. PutUint64 (MaxUint64 - ts) = 255 # rest"
proof -
  have ts: "unat ts < 2 ^ 56"
    using assms by (simp add: word_less_nat_alt)
  have "unat (MaxUint64 - ts) = 2 ^ 64 - 1 - unat ts"
    by (simp add: unat_sub unsigned_minus_1_eq_mask mask_eq_exp_minus_1)
  then have "unat (drop_bit 56 (MaxUint64 - ts)) = 255"
    using ts by (simp only: unat_drop_bit_eq) (simp add: drop_bit_eq_div)
  then have "drop_bit 56 (MaxUint64 - ts) = 255"
    by (simp add: word_unat_eq_iff)
  moreover have "PutUint64 v = ucast (drop_bit 56 v) # put_be 7 v" for v
    using put_be.simps(2) [of 7 v] by (simp add: PutUint64_def del: put_be.simps)
  ultimately show ?thesis by (simp del: put_be.simps)
qed

lemma extended_key_sorts_first:
  assumes "ts < 2 ^ 56" and "b \<noteq> 255"
  shows "EncodeKey (k @ b # q) ts' < EncodeKey k ts"
proof -
  obtain rest where r: "PutUint64 (MaxUint64 - ts) = 255 # rest"
    using PutUint64_small_ts [OF assms(1)] by auto
  have "b \<le> 255" using unat_byte_less [of b] by (simp add: word_le_nat_alt)
  with assms(2) have "b < 255" by simp
  then show ?thesis by (simp add: EncodeKey_def Let_def r)
qed

section \<open>Properties\<close>

text \<open>
  (C36) Versioned keys: decoding inverts encoding for every key and timestamp, encoding inverts
  decoding for every raw key of at least eight bytes, and for one user key a newer version
  has a smaller raw key.
\<close>

theorem versioned_key_codec:
  "DecodeKey (EncodeKey key ts) = (key, ts) \<and>
   (8 \<le> length raw \<longrightarrow> (case DecodeKey raw of (k, t) \<Rightarrow> EncodeKey k t) = raw) \<and>
   (bytes_Compare (EncodeKey key ts) (EncodeKey key ts') < 0 \<longleftrightarrow> ts' < ts)"
  using EncodeKey_DecodeKey [of raw] by (simp add: versioned_def case_prod_beta)

theorem versioned_key_codec_witness:
  "8 \<le> length (replicate 9 (7 :: byte)) \<and>
   (case DecodeKey (replicate 9 7) of (k, t) \<Rightarrow> EncodeKey k t) = replicate 9 7"
  using versioned_key_codec [of "[]" 0 "replicate 9 7" 0] by simp

end
