(* ===== verification/Btree.thy ===== *)
theory Btree
  imports Mvcc "HOL-Library.RBT_Impl"
begin

text \<open>
  The interface of the ordered tree that \<^verbatim>\<open>internal/storage/memory.go\<close> takes from
  \<^verbatim>\<open>github.com/google/btree\<close>.  The package is not part of the repository, so its operations
  are a parameter of the store: the record \<open>btree_ops\<close>.  What the store relies on, the
  documented behaviour of the package, is the locale \<open>btree_api\<close>: traversals visit the
  items in strictly ascending order, \<open>ReplaceOrInsert\<close> replaces the item with an equal
  key, \<open>Delete\<close> removes it, \<open>Clear\<close> removes all.  Two instances discharge the laws: a
  sorted list, which evaluates quickly, and the red-black trees of the library.
\<close>

section \<open>Items\<close>

record item =
  item_key :: bytes
  item_value :: slice

definition item_Less :: "item \<Rightarrow> item \<Rightarrow> bool" where
  "item_Less i than \<longleftrightarrow> bytes_Compare (item_key i) (item_key than) < 0"

definition mk_item :: "bytes \<Rightarrow> slice \<Rightarrow> item" where
  "mk_item k v = \<lparr>item_key = k, item_value = v\<rparr>"

lemma item_Less_iff [simp]: "item_Less i j \<longleftrightarrow> item_key i < item_key j"
  by (simp add: item_Less_def)

lemma sorted_wrt_item_Less: "sorted_wrt item_Less xs \<longleftrightarrow> sorted_wrt (<) (map item_key xs)"
  by (simp add: sorted_wrt_map item_Less_iff [abs_def])

lemma mk_item_sel [simp]:
  "item_key (mk_item k v) = k" "item_value (mk_item k v) = v"
  by (simp_all add: mk_item_def)

lemma mk_item_collapse [simp]: "mk_item (item_key i) (item_value i) = i"
  by (simp add: mk_item_def)

lemma item_eqI: "item_key i = item_key j \<Longrightarrow> item_value i = item_value j \<Longrightarrow> i = (j :: item)"
  by simp

section \<open>The interface\<close>

text \<open>
  \<open>bt_Ascend t\<close> is the sequence of items that \<open>Ascend\<close> offers to a callback that never
  stops, and \<open>bt_AscendGreaterOrEqual t p\<close> that of \<open>AscendGreaterOrEqual\<close> from the pivot
  \<open>p\<close>; the callback itself is run by \<open>iterate\<close>.
\<close>

record 't btree_ops =
  bt_New :: 't
  bt_ReplaceOrInsert :: "'t \<Rightarrow> item \<Rightarrow> 't"
  bt_Delete :: "'t \<Rightarrow> item \<Rightarrow> 't"
  bt_Clear :: "'t \<Rightarrow> 't"
  bt_Ascend :: "'t \<Rightarrow> item list"
  bt_AscendGreaterOrEqual :: "'t \<Rightarrow> item \<Rightarrow> item list"

text \<open>The binding of raw keys to values that a tree holds.\<close>

definition entry :: "item \<Rightarrow> bytes \<times> slice" where
  "entry i = (item_key i, item_value i)"

lemma entry_image: "(k, v) \<in> entry ` S \<longleftrightarrow> mk_item k v \<in> S"
  by (auto simp: entry_def image_iff) (metis mk_item_collapse mk_item_sel)

definition tree_map :: "'t btree_ops \<Rightarrow> 't \<Rightarrow> bytes \<rightharpoonup> slice" where
  "tree_map B t = map_of (map entry (bt_Ascend B t))"

lemma dom_tree_map: "dom (tree_map B t) = item_key ` set (bt_Ascend B t)"
  by (simp add: tree_map_def dom_map_of_conv_image_fst image_image entry_def)

locale btree_api =
  fixes B :: "'t btree_ops" and tinv :: "'t \<Rightarrow> bool"
  assumes inv_New: "tinv (bt_New B)"
    and inv_ReplaceOrInsert: "tinv t \<Longrightarrow> tinv (bt_ReplaceOrInsert B t i)"
    and inv_Delete: "tinv t \<Longrightarrow> tinv (bt_Delete B t i)"
    and inv_Clear: "tinv t \<Longrightarrow> tinv (bt_Clear B t)"
    and Ascend_sorted: "tinv t \<Longrightarrow> sorted_wrt item_Less (bt_Ascend B t)"
    and Ascend_New: "bt_Ascend B (bt_New B) = []"
    and Ascend_ReplaceOrInsert: "tinv t \<Longrightarrow>
      set (bt_Ascend B (bt_ReplaceOrInsert B t i)) =
        insert i {j \<in> set (bt_Ascend B t). item_Less i j \<or> item_Less j i}"
    and Ascend_Delete: "tinv t \<Longrightarrow>
      set (bt_Ascend B (bt_Delete B t i)) =
        {j \<in> set (bt_Ascend B t). item_Less i j \<or> item_Less j i}"
    and Ascend_Clear: "tinv t \<Longrightarrow> bt_Ascend B (bt_Clear B t) = []"
    and AscendGreaterOrEqual_filter: "tinv t \<Longrightarrow>
      bt_AscendGreaterOrEqual B t p = filter (\<lambda>j. \<not> item_Less j p) (bt_Ascend B t)"
begin

lemma distinct_item_keys: "tinv t \<Longrightarrow> distinct (map item_key (bt_Ascend B t))"
  using Ascend_sorted [of t] by (simp add: sorted_wrt_item_Less strict_sorted_iff)

lemma tree_map_Some:
  assumes "tinv t"
  shows "tree_map B t k = Some v \<longleftrightarrow> mk_item k v \<in> set (bt_Ascend B t)"
proof -
  have "distinct (map fst (map entry (bt_Ascend B t)))"
    using distinct_item_keys [OF assms] by (simp add: entry_def comp_def)
  then have "tree_map B t k = Some v \<longleftrightarrow> (k, v) \<in> entry ` set (bt_Ascend B t)"
    unfolding tree_map_def by (simp add: map_of_eq_Some_iff del: set_map flip: set_map)
  also have "\<dots> \<longleftrightarrow> mk_item k v \<in> set (bt_Ascend B t)"
    by (simp add: entry_image)
  finally show ?thesis .
qed

lemma Ascend_member:
  "tinv t \<Longrightarrow> i \<in> set (bt_Ascend B t) \<longleftrightarrow> tree_map B t (item_key i) = Some (item_value i)"
  by (simp add: tree_map_Some)

lemma tree_map_eqI:
  assumes "\<And>k v. f k = Some v \<longleftrightarrow> g k = Some v"
  shows "f = (g :: bytes \<rightharpoonup> slice)"
  using assms by (metis option.exhaust ext)

lemma tree_map_New [simp]: "tree_map B (bt_New B) = Map.empty"
  by (simp add: tree_map_def Ascend_New)

lemma tree_map_Clear: "tinv t \<Longrightarrow> tree_map B (bt_Clear B t) = Map.empty"
  by (simp add: tree_map_def Ascend_Clear)

lemma tree_map_ReplaceOrInsert:
  assumes "tinv t"
  shows "tree_map B (bt_ReplaceOrInsert B t i) = (tree_map B t)(item_key i \<mapsto> item_value i)"
proof (rule tree_map_eqI)
  fix k v
  show "tree_map B (bt_ReplaceOrInsert B t i) k = Some v \<longleftrightarrow>
      ((tree_map B t)(item_key i \<mapsto> item_value i)) k = Some v"
    using assms
    by (cases i) (auto simp: tree_map_Some inv_ReplaceOrInsert Ascend_ReplaceOrInsert mk_item_def neq_iff)
qed

lemma tree_map_Delete:
  assumes "tinv t"
  shows "tree_map B (bt_Delete B t i) = (tree_map B t)(item_key i := None)"
proof (rule tree_map_eqI)
  fix k v
  show "tree_map B (bt_Delete B t i) k = Some v \<longleftrightarrow>
      ((tree_map B t)(item_key i := None)) k = Some v"
    using assms by (auto simp: tree_map_Some inv_Delete Ascend_Delete mk_item_def neq_iff)
qed

text \<open>The bindings determine the traversal.\<close>

lemma Ascend_unique:
  assumes "tinv t" and "tinv t'" and "tree_map B t = tree_map B t'"
  shows "bt_Ascend B t = bt_Ascend B t'"
proof -
  let ?a = "bt_Ascend B t" and ?b = "bt_Ascend B t'"
  have s: "set ?a = set ?b"
    using assms by (auto simp: Ascend_member)
  have sorted: "sorted_wrt (<) (map item_key ?a)" "sorted_wrt (<) (map item_key ?b)"
    using Ascend_sorted assms by (auto simp: sorted_wrt_item_Less)
  then have "map item_key ?a = map item_key ?b"
    by (intro strict_sorted_equal) (auto simp: s)
  moreover have "inj_on item_key (set ?a \<union> set ?b)"
    using distinct_item_keys [OF assms(1)] by (simp add: s distinct_map)
  ultimately show ?thesis
    by (rule map_inj_on)
qed

end

section \<open>Instances\<close>

subsection \<open>Sorted lists\<close>

fun sl_insert :: "item list \<Rightarrow> item \<Rightarrow> item list" where
  "sl_insert [] i = [i]"
| "sl_insert (j # js) i =
     (if item_key i < item_key j then i # j # js
      else if item_key i = item_key j then i # js
      else j # sl_insert js i)"

definition sl_delete :: "item list \<Rightarrow> item \<Rightarrow> item list" where
  "sl_delete js i = filter (\<lambda>j. item_key j \<noteq> item_key i) js"

definition sl_btree :: "item list btree_ops" where
  "sl_btree = \<lparr>
     bt_New = [],
     bt_ReplaceOrInsert = sl_insert,
     bt_Delete = sl_delete,
     bt_Clear = (\<lambda>_. []),
     bt_Ascend = (\<lambda>t. t),
     bt_AscendGreaterOrEqual = (\<lambda>t p. filter (\<lambda>j. \<not> item_Less j p) t)\<rparr>"

definition sl_inv :: "item list \<Rightarrow> bool" where
  "sl_inv t = sorted_wrt item_Less t"

lemma sl_btree_simps [simp]:
  "bt_New sl_btree = []"
  "bt_ReplaceOrInsert sl_btree = sl_insert"
  "bt_Delete sl_btree = sl_delete"
  "bt_Clear sl_btree t = []"
  "bt_Ascend sl_btree t = t"
  "bt_AscendGreaterOrEqual sl_btree t p = filter (\<lambda>j. \<not> item_Less j p) t"
  by (simp_all add: sl_btree_def)

lemma set_sl_insert:
  "sorted_wrt item_Less t \<Longrightarrow> set (sl_insert t i) = insert i {j \<in> set t. item_key j \<noteq> item_key i}"
  by (induction t) auto

lemma sorted_sl_insert: "sorted_wrt item_Less t \<Longrightarrow> sorted_wrt item_Less (sl_insert t i)"
  by (induction t) (auto simp: set_sl_insert)

interpretation sl: btree_api sl_btree sl_inv
  by unfold_locales
     (auto simp: sl_inv_def sl_delete_def set_sl_insert sorted_sl_insert neq_iff
       intro: sorted_wrt_filter)

subsection \<open>Red-black trees\<close>

definition rb_btree :: "(bytes, slice) rbt btree_ops" where
  "rb_btree = \<lparr>
     bt_New = rbt.Empty,
     bt_ReplaceOrInsert = (\<lambda>t i. rbt_insert (item_key i) (item_value i) t),
     bt_Delete = (\<lambda>t i. rbt_delete (item_key i) t),
     bt_Clear = (\<lambda>_. rbt.Empty),
     bt_Ascend = (\<lambda>t. map (\<lambda>(k, v). mk_item k v) (RBT_Impl.entries t)),
     bt_AscendGreaterOrEqual = (\<lambda>t p.
       filter (\<lambda>j. \<not> item_Less j p) (map (\<lambda>(k, v). mk_item k v) (RBT_Impl.entries t)))\<rparr>"

lemma rb_btree_simps [simp]:
  "bt_New rb_btree = rbt.Empty"
  "bt_ReplaceOrInsert rb_btree t i = rbt_insert (item_key i) (item_value i) t"
  "bt_Delete rb_btree t i = rbt_delete (item_key i) t"
  "bt_Clear rb_btree t = rbt.Empty"
  "bt_Ascend rb_btree t = map (\<lambda>(k, v). mk_item k v) (RBT_Impl.entries t)"
  "bt_AscendGreaterOrEqual rb_btree t p =
     filter (\<lambda>j. \<not> item_Less j p) (map (\<lambda>(k, v). mk_item k v) (RBT_Impl.entries t))"
  by (simp_all add: rb_btree_def)

lemma rb_member:
  assumes "is_rbt (t :: (bytes, slice) rbt)"
  shows "(k, v) \<in> set (RBT_Impl.entries t) \<longleftrightarrow> rbt_lookup t k = Some v"
  using assms by (simp add: rbt_lookup_in_tree)

lemma rb_set:
  assumes "is_rbt (t :: (bytes, slice) rbt)"
  shows "j \<in> (\<lambda>(k, v). mk_item k v) ` set (RBT_Impl.entries t) \<longleftrightarrow>
    rbt_lookup t (item_key j) = Some (item_value j)"
  unfolding rb_member [OF assms, symmetric]
  by (auto simp: image_iff) (metis case_prod_conv mk_item_collapse)

lemma rb_sorted:
  assumes "is_rbt (t :: (bytes, slice) rbt)"
  shows "sorted_wrt item_Less (map (\<lambda>(k, v). mk_item k v) (RBT_Impl.entries t))"
proof -
  have "map item_key (map (\<lambda>(k, v). mk_item k v) (RBT_Impl.entries t)) = map fst (RBT_Impl.entries t)"
    by auto
  moreover have "rbt_sorted t"
    using assms by (rule is_rbt_rbt_sorted)
  ultimately show ?thesis
    unfolding sorted_wrt_item_Less strict_sorted_iff
    using rbt_sorted_entries [of t] distinct_entries [of t] by (simp only: simp_thms)
qed

interpretation rb: btree_api rb_btree is_rbt
proof unfold_locales
  fix t :: "(bytes, slice) rbt" and i
  assume t: "is_rbt t"
  show "set (bt_Ascend rb_btree (bt_ReplaceOrInsert rb_btree t i)) =
      insert i {j \<in> set (bt_Ascend rb_btree t). item_Less i j \<or> item_Less j i}"
    using t by (intro set_eqI) (auto simp: rb_set rbt_lookup_rbt_insert neq_iff intro: item_eqI)
  show "set (bt_Ascend rb_btree (bt_Delete rb_btree t i)) =
      {j \<in> set (bt_Ascend rb_btree t). item_Less i j \<or> item_Less j i}"
    using t by (intro set_eqI) (auto simp: rb_set rbt_lookup_rbt_delete restrict_map_def neq_iff split: if_splits)
qed (auto simp: rb_sorted)

end
