(* ===== verification/Memory_Store.thy ===== *)
theory Memory_Store
  imports Btree
begin

text \<open>
  The storage engine of \<^verbatim>\<open>internal/storage/memory.go\<close>: the store's state, its operations
  in the order of the source, and the invariant they keep.  The tree operations are the
  parameter \<open>B\<close>.  The mutex serialises the operations, so each one is a function from the
  state before to the state after and its results.
\<close>

section \<open>State\<close>

record Lock =
  lock_TxnID :: bytes
  lock_Value :: slice

record 't MemoryStore =
  ms_tree :: 't
  ms_locks :: "bytes \<rightharpoonup> Lock"

text \<open>The errors the store returns, with the arguments of their messages.\<close>

datatype store_error =
    LockedBy bytes bytes              \<comment> \<open>key \%s locked by \%s\<close>
  | NoLockOn bytes                    \<comment> \<open>no lock on key \%s\<close>
  | CannotCommit bytes bytes bytes    \<comment> \<open>key \%s locked by \%s, cannot commit \%s\<close>
  | CannotAbort bytes bytes bytes     \<comment> \<open>key \%s locked by \%s, cannot abort \%s\<close>

definition NewMemoryStore :: "'t btree_ops \<Rightarrow> 't MemoryStore" where
  "NewMemoryStore B = \<lparr>ms_tree = bt_New B, ms_locks = Map.empty\<rparr>"

section \<open>Intents: Prepare, Commit, Abort, OnePhaseCommit\<close>

definition Prepare ::
  "'t MemoryStore \<Rightarrow> bytes \<Rightarrow> slice \<Rightarrow> bytes \<Rightarrow> 't MemoryStore \<times> store_error option" where
  "Prepare s key value txnID =
     (let acquired = s\<lparr>ms_locks := (ms_locks s)(key \<mapsto> \<lparr>lock_TxnID = txnID, lock_Value = value\<rparr>)\<rparr>
      in case ms_locks s key of
           Some lock \<Rightarrow>
             if lock_TxnID lock \<noteq> txnID then (s, Some (LockedBy key (lock_TxnID lock)))
             else (acquired, None)
         | None \<Rightarrow> (acquired, None))"

definition Commit ::
  "'t btree_ops \<Rightarrow> 't MemoryStore \<Rightarrow> bytes \<Rightarrow> bytes \<Rightarrow> u64 \<Rightarrow> 't MemoryStore \<times> store_error option" where
  "Commit B s key txnID commitTs =
     (case ms_locks s key of
        None \<Rightarrow> (s, Some (NoLockOn key))
      | Some lock \<Rightarrow>
          if lock_TxnID lock \<noteq> txnID
          then (s, Some (CannotCommit key (lock_TxnID lock) txnID))
          else let encodedKey = EncodeKey key commitTs
               in (s\<lparr>ms_tree := bt_ReplaceOrInsert B (ms_tree s) (mk_item encodedKey (lock_Value lock)),
                     ms_locks := (ms_locks s)(key := None)\<rparr>, None))"

definition Abort ::
  "'t MemoryStore \<Rightarrow> bytes \<Rightarrow> bytes \<Rightarrow> 't MemoryStore \<times> store_error option" where
  "Abort s key txnID =
     (case ms_locks s key of
        None \<Rightarrow> (s, None)
      | Some lock \<Rightarrow>
          if lock_TxnID lock \<noteq> txnID
          then (s, Some (CannotAbort key (lock_TxnID lock) txnID))
          else (s\<lparr>ms_locks := (ms_locks s)(key := None)\<rparr>, None))"

record BatchOp =
  op_Key :: bytes
  op_Value :: slice

text \<open>The two loops of \<open>OnePhaseCommit\<close>: every lock is checked before anything is written.\<close>

fun opc_validate :: "'t MemoryStore \<Rightarrow> BatchOp list \<Rightarrow> bytes \<Rightarrow> store_error option" where
  "opc_validate s [] txnID = None"
| "opc_validate s (bop # ops) txnID =
     (case ms_locks s (op_Key bop) of
        Some lock \<Rightarrow>
          if lock_TxnID lock \<noteq> txnID then Some (LockedBy (op_Key bop) (lock_TxnID lock))
          else opc_validate s ops txnID
      | None \<Rightarrow> opc_validate s ops txnID)"

fun opc_write :: "'t btree_ops \<Rightarrow> 't MemoryStore \<Rightarrow> BatchOp list \<Rightarrow> u64 \<Rightarrow> 't MemoryStore" where
  "opc_write B s [] commitTs = s"
| "opc_write B s (bop # ops) commitTs =
     (let encodedKey = EncodeKey (op_Key bop) commitTs
      in opc_write B
           (s\<lparr>ms_tree := bt_ReplaceOrInsert B (ms_tree s) (mk_item encodedKey (op_Value bop)),
              ms_locks := (ms_locks s)(op_Key bop := None)\<rparr>)
           ops commitTs)"

definition OnePhaseCommit ::
  "'t btree_ops \<Rightarrow> 't MemoryStore \<Rightarrow> BatchOp list \<Rightarrow> bytes \<Rightarrow> u64 \<Rightarrow>
   't MemoryStore \<times> store_error option" where
  "OnePhaseCommit B s ops txnID commitTs =
     (case opc_validate s ops txnID of
        Some err \<Rightarrow> (s, Some err)
      | None \<Rightarrow> (opc_write B s ops commitTs, None))"

section \<open>Reads\<close>

text \<open>The callback of \<open>mvccGetLocked\<close> closes over \<open>foundVal\<close> and \<open>found\<close>.\<close>

definition mvccGetLocked_visit :: "bytes \<Rightarrow> item \<Rightarrow> slice \<times> bool \<Rightarrow> bool \<times> (slice \<times> bool)" where
  "mvccGetLocked_visit key it st =
     (case DecodeKey (item_key it) of (decodedKey, _) \<Rightarrow>
        if decodedKey \<noteq> key then (False, st)
        else (False, (item_value it, True)))"

definition mvccGetLocked :: "'t btree_ops \<Rightarrow> 't MemoryStore \<Rightarrow> bytes \<Rightarrow> u64 \<Rightarrow> slice \<times> bool" where
  "mvccGetLocked B s key readTs =
     (let seekKey = EncodeKey key readTs
      in iterate (mvccGetLocked_visit key)
           (bt_AscendGreaterOrEqual B (ms_tree s) (mk_item seekKey None)) (None, False))"

definition GetTxn :: "'t btree_ops \<Rightarrow> 't MemoryStore \<Rightarrow> bytes \<Rightarrow> u64 \<Rightarrow> store_error + slice" where
  "GetTxn B s key readTs =
     (case ms_locks s key of
        Some lock \<Rightarrow> Inl (LockedBy key (lock_TxnID lock))
      | None \<Rightarrow>
          (case mvccGetLocked B s key readTs of (val, exists) \<Rightarrow>
             if \<not> exists then Inr None else Inr val))"

section \<open>Legacy wrappers\<close>

definition Put ::
  "'t btree_ops \<Rightarrow> 't MemoryStore \<Rightarrow> bytes \<Rightarrow> slice \<Rightarrow> 't MemoryStore \<times> store_error option" where
  "Put B s key value =
     (let txn = lit ''legacy''
      in case Prepare s key value txn of
           (s', Some err) \<Rightarrow> (s', Some err)
         | (s', None) \<Rightarrow> Commit B s' key txn 1)"

definition Get :: "'t btree_ops \<Rightarrow> 't MemoryStore \<Rightarrow> bytes \<Rightarrow> store_error + slice" where
  "Get B s key = GetTxn B s key MaxUint64"

definition Close :: "'t MemoryStore \<Rightarrow> 't MemoryStore \<times> store_error option" where
  "Close s = (s, None)"

section \<open>Garbage collection\<close>

text \<open>
  The traversal state of \<open>RunGC\<close>: the user key of the current group (initially \<open>nil\<close>,
  which \<^verbatim>\<open>bytes.Equal\<close> does not tell from the empty key), whether the group's snapshot
  version was met, and the items collected for deletion.
\<close>

record traversalState =
  currentUserKey :: bytes
  foundSnapshot :: bool
  keysToDelete :: "item list"

definition gc_visit :: "u64 \<Rightarrow> item \<Rightarrow> traversalState \<Rightarrow> bool \<times> traversalState" where
  "gc_visit safeTs it st =
     (case DecodeKey (item_key it) of (userKey, ts) \<Rightarrow>
        let st1 = (if userKey \<noteq> currentUserKey st
                   then st\<lparr>currentUserKey := userKey, foundSnapshot := False\<rparr> else st);
            st2 = (if ts \<le> safeTs
                   then if \<not> foundSnapshot st1 then st1\<lparr>foundSnapshot := True\<rparr>
                        else st1\<lparr>keysToDelete := keysToDelete st1 @ [it]\<rparr>
                   else st1)
        in (True, st2))"

definition RunGC :: "'t btree_ops \<Rightarrow> 't MemoryStore \<Rightarrow> u64 \<Rightarrow> 't MemoryStore \<times> nat" where
  "RunGC B s safeTs =
     (let st = iterate (gc_visit safeTs) (bt_Ascend B (ms_tree s))
                 \<lparr>currentUserKey = [], foundSnapshot = False, keysToDelete = []\<rparr>;
          (t', deletedCount) =
            fold (\<lambda>k (t, n). (bt_Delete B t k, n + 1)) (keysToDelete st) (ms_tree s, 0)
      in (s\<lparr>ms_tree := t'\<rparr>, deletedCount))"

section \<open>Scans and bulk transfer\<close>

text \<open>
  \<open>Scan\<close> calls \<open>iter\<close> with the raw key and the value of every item from the seek key on,
  until an item's user key reaches \<open>end\<close> (\<open>None\<close> is \<open>nil\<close>, no end) or \<open>iter\<close> says stop;
  \<open>x\<close> is the state \<open>iter\<close> closes over.
\<close>

definition scan_visit ::
  "slice \<Rightarrow> (bytes \<Rightarrow> slice \<Rightarrow> 'x \<Rightarrow> bool \<times> 'x) \<Rightarrow> item \<Rightarrow> 'x \<Rightarrow> bool \<times> 'x" where
  "scan_visit end iter it x =
     (case DecodeKey (item_key it) of (k, _) \<Rightarrow>
        (case end of
           Some e \<Rightarrow> if bytes_Compare k e \<ge> 0 then (False, x) else iter (item_key it) (item_value it) x
         | None \<Rightarrow> iter (item_key it) (item_value it) x))"

definition Scan ::
  "'t btree_ops \<Rightarrow> 't MemoryStore \<Rightarrow> bytes \<Rightarrow> slice \<Rightarrow> (bytes \<Rightarrow> slice \<Rightarrow> 'x \<Rightarrow> bool \<times> 'x) \<Rightarrow> 'x \<Rightarrow>
   'x \<times> store_error option" where
  "Scan B s start end iter x =
     (iterate (scan_visit end iter)
        (bt_AscendGreaterOrEqual B (ms_tree s) (mk_item (EncodeKey start MaxUint64) None)) x, None)"

definition ScanRange ::
  "'t btree_ops \<Rightarrow> 't MemoryStore \<Rightarrow> bytes \<Rightarrow> slice \<Rightarrow> (bytes \<rightharpoonup> slice) \<times> store_error option" where
  "ScanRange B s start end = Scan B s start end (\<lambda>k v data. (True, data(k \<mapsto> v))) Map.empty"

text \<open>\<open>Ingest\<close> ranges over a Go map; the list is the order in which the bindings come.\<close>

definition Ingest ::
  "'t btree_ops \<Rightarrow> 't MemoryStore \<Rightarrow> (bytes \<times> slice) list \<Rightarrow> 't MemoryStore \<times> store_error option" where
  "Ingest B s data =
     (s\<lparr>ms_tree := fold (\<lambda>(k, v) t. bt_ReplaceOrInsert B t (mk_item k v)) data (ms_tree s)\<rparr>, None)"

section \<open>A sample store\<close>

text \<open>
  One key with versions at 10 and 20, written through \<open>Prepare\<close> and \<open>Commit\<close>, over the
  sorted-list tree.  Witnesses evaluate on it.
\<close>

definition write_version ::
  "'t btree_ops \<Rightarrow> bytes \<Rightarrow> bytes \<Rightarrow> u64 \<Rightarrow> 't MemoryStore \<Rightarrow> 't MemoryStore" where
  "write_version B key v ts s =
     (let (s1, _) = Prepare s key (Some v) (lit ''txn''); (s2, _) = Commit B s1 key (lit ''txn'') ts in s2)"

definition sample_store :: "item list MemoryStore" where
  "sample_store =
     write_version sl_btree (lit ''k'') (lit ''v20'') 20
       (write_version sl_btree (lit ''k'') (lit ''v10'') 10 (NewMemoryStore sl_btree))"

end
