(* ===== verification/Store_Spec.thy ===== *)
theory Store_Spec
  imports Memory_Store
begin

text \<open>
  What the storage engine promises.  The abstract state \<open>mvcc_state\<close> maps every user key
  to its versions by commit timestamp and holds the write intents; \<open>newest\<close> is the read
  rule of multi-version concurrency control.  \<open>view\<close> is the abstraction function.  The
  lemmas show the invariant of the store, that every operation keeps it, and that every
  operation refines its abstract counterpart.
\<close>

section \<open>The abstract store\<close>

record mvcc_state =
  versions :: "bytes \<Rightarrow> u64 \<rightharpoonup> slice"
  intents :: "bytes \<rightharpoonup> Lock"

text \<open>The newest version not after \<open>readTs\<close>.\<close>

definition newest :: "(u64 \<rightharpoonup> slice) \<Rightarrow> u64 \<rightharpoonup> slice" where
  "newest vs readTs =
     (let T = {ts \<in> dom vs. ts \<le> readTs} in if T = {} then None else vs (Max T))"

definition spec_add_version :: "bytes \<Rightarrow> u64 \<Rightarrow> slice \<Rightarrow> mvcc_state \<Rightarrow> mvcc_state" where
  "spec_add_version key ts v m = m\<lparr>versions := (versions m)(key := (versions m key)(ts \<mapsto> v))\<rparr>"

definition spec_release :: "bytes \<Rightarrow> mvcc_state \<Rightarrow> mvcc_state" where
  "spec_release key m = m\<lparr>intents := (intents m)(key := None)\<rparr>"

text \<open>A transaction may touch a key that is free or that it holds itself.\<close>

definition available :: "mvcc_state \<Rightarrow> bytes \<Rightarrow> bytes \<Rightarrow> bool" where
  "available m key txn \<longleftrightarrow> (\<forall>l. intents m key = Some l \<longrightarrow> lock_TxnID l = txn)"

definition holds_intent :: "mvcc_state \<Rightarrow> bytes \<Rightarrow> bytes \<Rightarrow> bool" where
  "holds_intent m key txn \<longleftrightarrow> (\<exists>l. intents m key = Some l \<and> lock_TxnID l = txn)"

definition view :: "'t btree_ops \<Rightarrow> 't MemoryStore \<Rightarrow> mvcc_state" where
  "view B s = \<lparr>versions = (\<lambda>key ts. tree_map B (ms_tree s) (EncodeKey key ts)), intents = ms_locks s\<rparr>"

text \<open>
  The invariant: the tree is one of the package's trees and every raw key carries a
  timestamp.
\<close>

definition store_inv :: "'t btree_ops \<Rightarrow> ('t \<Rightarrow> bool) \<Rightarrow> 't MemoryStore \<Rightarrow> bool" where
  "store_inv B tinv s \<longleftrightarrow>
     tinv (ms_tree s) \<and> (\<forall>raw \<in> dom (tree_map B (ms_tree s)). versioned raw)"

lemma store_inv_code [code]:
  "store_inv B tinv s \<longleftrightarrow>
     tinv (ms_tree s) \<and> list_all (\<lambda>i. versioned (item_key i)) (bt_Ascend B (ms_tree s))"
  by (simp add: store_inv_def dom_tree_map list_all_iff)

section \<open>The read rule\<close>

lemma newest_eq_Some_iff:
  "newest vs r = Some v \<longleftrightarrow>
     (\<exists>ts \<le> r. vs ts = Some v \<and> (\<forall>ts'. ts < ts' \<longrightarrow> ts' \<le> r \<longrightarrow> vs ts' = None))"
proof -
  let ?T = "{ts \<in> dom vs. ts \<le> r}"
  show ?thesis
  proof
    assume a: "newest vs r = Some v"
    then have ne: "?T \<noteq> {}" and v: "vs (Max ?T) = Some v"
      by (auto simp: newest_def Let_def split: if_splits)
    have "Max ?T \<in> ?T" by (rule Max_in) (use ne in auto)
    moreover have "vs ts' = None" if "Max ?T < ts'" "ts' \<le> r" for ts'
    proof (rule ccontr)
      assume "vs ts' \<noteq> None"
      then have "ts' \<le> Max ?T" using that by (intro Max_ge) auto
      with that show False by simp
    qed
    ultimately show "\<exists>ts \<le> r. vs ts = Some v \<and> (\<forall>ts'. ts < ts' \<longrightarrow> ts' \<le> r \<longrightarrow> vs ts' = None)"
      using v by blast
  next
    assume "\<exists>ts \<le> r. vs ts = Some v \<and> (\<forall>ts'. ts < ts' \<longrightarrow> ts' \<le> r \<longrightarrow> vs ts' = None)"
    then obtain ts where ts: "ts \<le> r" "vs ts = Some v"
      and above: "\<And>ts'. ts < ts' \<Longrightarrow> ts' \<le> r \<Longrightarrow> vs ts' = None" by blast
    have "Max ?T = ts"
      by (rule Max_eqI) (use ts above not_le in \<open>fastforce+\<close>)
    with ts show "newest vs r = Some v"
      by (auto simp: newest_def Let_def)
  qed
qed

lemma newest_eq_None_iff: "newest vs r = None \<longleftrightarrow> (\<forall>ts \<le> r. vs ts = None)"
proof -
  have "Max {ts \<in> dom vs. ts \<le> r} \<in> {ts \<in> dom vs. ts \<le> r}" if "{ts \<in> dom vs. ts \<le> r} \<noteq> {}"
    by (rule Max_in) (use that in auto)
  then show ?thesis
    by (auto simp: newest_def Let_def)
qed

lemma newest_cong:
  assumes "\<And>t. t \<le> r \<Longrightarrow> vs t = vs' t"
  shows "newest vs r = newest vs' r"
proof (cases "newest vs r")
  case None
  then have "newest vs' r = None" using assms unfolding newest_eq_None_iff by metis
  with None show ?thesis by simp
next
  case (Some v)
  then have "newest vs' r = Some v" using assms unfolding newest_eq_Some_iff by metis
  with Some show ?thesis by simp
qed

lemma newest_add:
  "newest (vs(ts \<mapsto> v)) r =
     (if ts \<le> r \<and> (\<forall>ts'. ts < ts' \<longrightarrow> ts' \<le> r \<longrightarrow> vs ts' = None) then Some v else newest vs r)"
proof (cases "ts \<le> r \<and> (\<forall>ts'. ts < ts' \<longrightarrow> ts' \<le> r \<longrightarrow> vs ts' = None)")
  case True
  then have "newest (vs(ts \<mapsto> v)) r = Some v"
    unfolding newest_eq_Some_iff by (intro exI [of _ ts]) auto
  with True show ?thesis by simp
next
  case False
  have "newest (vs(ts \<mapsto> v)) r = newest vs r"
  proof (cases "ts \<le> r")
    case True
    with False obtain n where "ts < n" "n \<le> r" "vs n \<noteq> None" by auto
    then have "newest vs r \<noteq> None" by (auto simp: newest_eq_None_iff)
    then obtain w where w: "newest vs r = Some w" by auto
    then obtain t where t: "t \<le> r" "vs t = Some w" "\<And>t'. t < t' \<Longrightarrow> t' \<le> r \<Longrightarrow> vs t' = None"
      unfolding newest_eq_Some_iff by blast
    have "ts < t" using t(3) [of n] \<open>ts < n\<close> \<open>n \<le> r\<close> \<open>vs n \<noteq> None\<close> by force
    then have "newest (vs(ts \<mapsto> v)) r = Some w"
      unfolding newest_eq_Some_iff using t by (intro exI [of _ t]) auto
    with w show ?thesis by simp
  next
    case False
    then show ?thesis by (intro newest_cong) auto
  qed
  with False show ?thesis by (simp only: if_False)
qed

section \<open>The invariant and the refinement\<close>

lemma view_sel [simp]:
  "versions (view B s) key ts = tree_map B (ms_tree s) (EncodeKey key ts)"
  "intents (view B s) = ms_locks s"
  by (simp_all add: view_def)

lemma view_cong: "ms_tree s = ms_tree s' \<Longrightarrow> ms_locks s = ms_locks s' \<Longrightarrow> view B s = view B s'"
  by (simp add: view_def)

text \<open>Every case of the error paths of the intent operations.\<close>

lemma Prepare_refines:
  "view B (fst (Prepare s key v txn)) =
     (if available (view B s) key txn
      then (view B s)\<lparr>intents := (intents (view B s))(key \<mapsto> \<lparr>lock_TxnID = txn, lock_Value = v\<rparr>)\<rparr>
      else view B s)"
  "snd (Prepare s key v txn) = None \<longleftrightarrow> available (view B s) key txn"
  by (auto simp: Prepare_def Let_def available_def view_def split: option.splits)

lemma Prepare_tree [simp]: "ms_tree (fst (Prepare s key v txn)) = ms_tree s"
  by (auto simp: Prepare_def Let_def split: option.splits)

lemma Abort_refines:
  "view B (fst (Abort s key txn)) =
     (if holds_intent (view B s) key txn then spec_release key (view B s) else view B s)"
  "snd (Abort s key txn) = None \<longleftrightarrow> available (view B s) key txn"
  by (auto simp: Abort_def available_def holds_intent_def spec_release_def view_def split: option.splits)

lemma Abort_tree [simp]: "ms_tree (fst (Abort s key txn)) = ms_tree s"
  by (auto simp: Abort_def split: option.splits)

lemma opc_validate_None_iff:
  "opc_validate s ops txn = None \<longleftrightarrow> (\<forall>bop \<in> set ops. available (view B s) (op_Key bop) txn)"
  by (induction ops) (auto simp: available_def split: option.splits)

text \<open>The abstract effect of a batch: one version and one released intent per operation.\<close>

definition spec_write_batch :: "BatchOp list \<Rightarrow> u64 \<Rightarrow> mvcc_state \<Rightarrow> mvcc_state" where
  "spec_write_batch ops ts m =
     fold (\<lambda>bop m. spec_release (op_Key bop) (spec_add_version (op_Key bop) ts (op_Value bop) m)) ops m"

lemma spec_write_batch_versions_other:
  "ts' \<noteq> ts \<or> key \<notin> op_Key ` set ops \<Longrightarrow>
   versions (spec_write_batch ops ts m) key ts' = versions m key ts'"
  by (induction ops arbitrary: m)
     (auto simp: spec_write_batch_def spec_release_def spec_add_version_def)

lemma spec_write_batch_intents:
  "intents (spec_write_batch ops ts m) key =
     (if key \<in> op_Key ` set ops then None else intents m key)"
  by (induction ops arbitrary: m)
     (auto simp: spec_write_batch_def spec_release_def spec_add_version_def)

lemma spec_write_batch_append:
  "spec_write_batch (xs @ ys) ts m = spec_write_batch ys ts (spec_write_batch xs ts m)"
  by (simp add: spec_write_batch_def)

text \<open>Of several operations on one key the last one wins.\<close>

lemma spec_write_batch_versions:
  "versions (spec_write_batch ops ts m) key ts =
     (case map_of (rev (map (\<lambda>bop. (op_Key bop, op_Value bop)) ops)) key of
        Some v \<Rightarrow> Some v | None \<Rightarrow> versions m key ts)"
proof (induction ops rule: rev_induct)
  case Nil
  then show ?case by (simp add: spec_write_batch_def)
next
  case (snoc bop ops)
  then show ?case
    by (simp add: spec_write_batch_append)
       (simp add: spec_write_batch_def spec_release_def spec_add_version_def)
qed

text \<open>The items that a run of the collector deletes.\<close>

definition gc_garbage :: "'t btree_ops \<Rightarrow> 't MemoryStore \<Rightarrow> u64 \<Rightarrow> item list" where
  "gc_garbage B s safeTs =
     keysToDelete (iterate (gc_visit safeTs) (bt_Ascend B (ms_tree s))
       \<lparr>currentUserKey = [], foundSnapshot = False, keysToDelete = []\<rparr>)"

context btree_api
begin

lemma store_invD:
  "store_inv B tinv s \<Longrightarrow> tinv (ms_tree s)"
  "store_inv B tinv s \<Longrightarrow> raw \<in> dom (tree_map B (ms_tree s)) \<Longrightarrow> versioned raw"
  by (auto simp: store_inv_def)

lemma stored_rawE:
  assumes "store_inv B tinv s" and "tree_map B (ms_tree s) raw = Some v"
  obtains key ts where "raw = EncodeKey key ts"
  using EncodeKey_DecodeKey [of raw] store_invD(2) [OF assms(1), of raw] assms(2) by (metis domI)

lemma store_inv_New [inv_intros]: "store_inv B tinv (NewMemoryStore B)"
  by (simp add: store_inv_def NewMemoryStore_def inv_New)

lemma view_New [view_simps]:
  "view B (NewMemoryStore B) = \<lparr>versions = (\<lambda>_. Map.empty), intents = Map.empty\<rparr>"
  by (simp add: view_def NewMemoryStore_def fun_eq_iff)

lemma store_inv_insert:
  "store_inv B tinv s \<Longrightarrow> versioned (item_key i) \<Longrightarrow>
   store_inv B tinv (s\<lparr>ms_tree := bt_ReplaceOrInsert B (ms_tree s) i, ms_locks := L\<rparr>)"
  by (auto simp: store_inv_def inv_ReplaceOrInsert tree_map_ReplaceOrInsert)

lemma store_inv_Prepare [inv_intros]:
  "store_inv B tinv s \<Longrightarrow> store_inv B tinv (fst (Prepare s key v txn))"
  by (simp add: store_inv_def)

lemma store_inv_Abort [inv_intros]:
  "store_inv B tinv s \<Longrightarrow> store_inv B tinv (fst (Abort s key txn))"
  by (simp add: store_inv_def)

lemma store_inv_Commit [inv_intros]:
  "store_inv B tinv s \<Longrightarrow> store_inv B tinv (fst (Commit B s key txn ts))"
  by (auto simp: Commit_def Let_def store_inv_insert split: option.splits)

lemma store_inv_opc_write:
  "store_inv B tinv s \<Longrightarrow> store_inv B tinv (opc_write B s ops ts)"
  by (induction ops arbitrary: s) (auto simp: Let_def store_inv_insert)

lemma store_inv_OnePhaseCommit [inv_intros]:
  "store_inv B tinv s \<Longrightarrow> store_inv B tinv (fst (OnePhaseCommit B s ops txn ts))"
  by (auto simp: OnePhaseCommit_def store_inv_opc_write split: option.splits)

lemma store_inv_Put [inv_intros]:
  "store_inv B tinv s \<Longrightarrow> store_inv B tinv (fst (Put B s key v))"
  using store_inv_Prepare [of s key v "lit ''legacy''"]
  by (auto simp: Put_def Let_def intro: store_inv_Commit split: prod.splits option.splits)

lemma fold_insert_inv:
  "tinv t \<Longrightarrow> tinv (fold (\<lambda>(k, v) t. bt_ReplaceOrInsert B t (mk_item k v)) xs t)"
  by (induction xs arbitrary: t) (auto simp: inv_ReplaceOrInsert)

lemma fold_insert_tree_map:
  "tinv t \<Longrightarrow>
   tree_map B (fold (\<lambda>(k, v) t. bt_ReplaceOrInsert B t (mk_item k v)) xs t) = tree_map B t ++ map_of (rev xs)"
  by (induction xs arbitrary: t)
     (auto simp: inv_ReplaceOrInsert tree_map_ReplaceOrInsert fun_eq_iff map_add_def split: option.splits)

lemma store_inv_Ingest [inv_intros]:
  "store_inv B tinv s \<Longrightarrow> (\<forall>raw \<in> fst ` set data. versioned raw) \<Longrightarrow>
   store_inv B tinv (fst (Ingest B s data))"
  by (auto simp: store_inv_def Ingest_def fold_insert_inv fold_insert_tree_map
      dest!: map_of_SomeD) force

lemma fold_delete:
  assumes "tinv t"
  shows "tinv (fst (fold (\<lambda>k (t, n). (bt_Delete B t k, n + 1)) ks (t, n :: nat)))"
    and "tree_map B (fst (fold (\<lambda>k (t, n). (bt_Delete B t k, n + 1)) ks (t, n))) =
         tree_map B t |` (- item_key ` set ks)"
    and "snd (fold (\<lambda>k (t, n). (bt_Delete B t k, n + 1)) ks (t, n)) = n + length ks"
  using assms
  by (induction ks arbitrary: t n)
     (auto simp: inv_Delete tree_map_Delete fun_eq_iff restrict_map_def)

lemma RunGC_tree:
  assumes "tinv (ms_tree s)"
  shows "tinv (ms_tree (fst (RunGC B s safeTs)))"
    and "tree_map B (ms_tree (fst (RunGC B s safeTs))) =
         tree_map B (ms_tree s) |` (- item_key ` set (gc_garbage B s safeTs))"
    and "snd (RunGC B s safeTs) = length (gc_garbage B s safeTs)"
    and "ms_locks (fst (RunGC B s safeTs)) = ms_locks s"
  using fold_delete [OF assms, of "gc_garbage B s safeTs" 0]
  by (simp_all add: RunGC_def gc_garbage_def Let_def case_prod_beta)

lemma store_inv_RunGC [inv_intros]:
  "store_inv B tinv s \<Longrightarrow> store_inv B tinv (fst (RunGC B s safeTs))"
  by (auto simp: store_inv_def RunGC_tree restrict_map_def split: if_splits)

lemma versions_insert:
  "tinv (ms_tree s) \<Longrightarrow>
   view B (s\<lparr>ms_tree := bt_ReplaceOrInsert B (ms_tree s) (mk_item (EncodeKey key ts) v),
             ms_locks := (ms_locks s)(key := None)\<rparr>) =
   spec_release key (spec_add_version key ts v (view B s))"
  by (auto simp: view_def spec_release_def spec_add_version_def tree_map_ReplaceOrInsert fun_eq_iff)

lemma Commit_refines:
  assumes "store_inv B tinv s"
  shows "view B (fst (Commit B s key txn ts)) =
     (case intents (view B s) key of
        Some l \<Rightarrow> if lock_TxnID l = txn
                  then spec_release key (spec_add_version key ts (lock_Value l) (view B s)) else view B s
      | None \<Rightarrow> view B s)"
    and "snd (Commit B s key txn ts) = None \<longleftrightarrow> holds_intent (view B s) key txn"
  using store_invD(1) [OF assms]
  by (auto simp: Commit_def Let_def versions_insert holds_intent_def split: option.splits)

lemma opc_write_refines:
  "tinv (ms_tree s) \<Longrightarrow> view B (opc_write B s ops ts) = spec_write_batch ops ts (view B s)"
proof (induction ops arbitrary: s)
  case Nil
  then show ?case by (simp add: spec_write_batch_def)
next
  case (Cons bop ops)
  then show ?case
    by (simp add: Let_def inv_ReplaceOrInsert versions_insert) (simp add: spec_write_batch_def)
qed

lemma OnePhaseCommit_refines:
  assumes "store_inv B tinv s"
  shows "view B (fst (OnePhaseCommit B s ops txn ts)) =
     (if \<forall>bop \<in> set ops. available (view B s) (op_Key bop) txn
      then spec_write_batch ops ts (view B s) else view B s)"
    and "snd (OnePhaseCommit B s ops txn ts) = None \<longleftrightarrow>
      (\<forall>bop \<in> set ops. available (view B s) (op_Key bop) txn)"
  using store_invD(1) [OF assms]
  by (auto simp: OnePhaseCommit_def opc_write_refines opc_validate_None_iff [of s ops txn B, symmetric]
      split: option.splits)

end

end
