(* ===== verification/Memory_Read.thy ===== *)
theory Memory_Read
  imports Store_Spec
begin

text \<open>
  Reads of the storage engine: \<open>GetTxn\<close> (with \<open>mvccGetLocked\<close>), \<open>MVCCGet\<close> of
  \<^verbatim>\<open>internal/storage/mvcc.go\<close>, which reads through an engine's \<open>Scan\<close>, and \<open>ScanRange\<close>
  with \<open>Ingest\<close>, the pair behind shard migration.
\<close>

section \<open>MVCCGet\<close>

text \<open>
  \<open>MVCCGet\<close> works on the \<open>Engine\<close> interface, of which it uses \<open>Scan\<close> only: the parameter
  \<open>scan\<close>.  The slice \<open>end\<close> that the source builds is not passed on.
\<close>

definition MVCCGet_visit :: "bytes \<Rightarrow> bytes \<Rightarrow> slice \<Rightarrow> slice \<times> bool \<Rightarrow> bool \<times> (slice \<times> bool)" where
  "MVCCGet_visit key k v st =
     (case DecodeKey k of (decodedKey, decTs) \<Rightarrow>
        if decodedKey \<noteq> key then (False, st) else (False, (v, True)))"

definition MVCCGet ::
  "(bytes \<Rightarrow> slice \<Rightarrow> (bytes \<Rightarrow> slice \<Rightarrow> slice \<times> bool \<Rightarrow> bool \<times> (slice \<times> bool)) \<Rightarrow>
    slice \<times> bool \<Rightarrow> (slice \<times> bool) \<times> store_error option) \<Rightarrow>
   bytes \<Rightarrow> u64 \<Rightarrow> store_error + slice" where
  "MVCCGet scan key readTs =
     (let start = EncodeKey key readTs
      in case scan start None (MVCCGet_visit key) (None, False) of
           (_, Some err) \<Rightarrow> Inl err
         | ((val, found), None) \<Rightarrow> if \<not> found then Inr None else Inr val)"

section \<open>Point reads\<close>

text \<open>
  A user key is unshadowed in a store when no raw key of another user key begins with it.
  Between two versions of such a key the tree holds only its own versions.
\<close>

definition unshadowed :: "'t btree_ops \<Rightarrow> 't MemoryStore \<Rightarrow> bytes \<Rightarrow> bool" where
  "unshadowed B s key \<longleftrightarrow>
     (\<forall>raw \<in> dom (tree_map B (ms_tree s)). prefix key raw \<longrightarrow> fst (DecodeKey raw) = key)"

lemma unshadowed_code [code]:
  "unshadowed B s key \<longleftrightarrow>
     list_all (\<lambda>i. prefix key (item_key i) \<longrightarrow> fst (DecodeKey (item_key i)) = key) (bt_Ascend B (ms_tree s))"
  by (simp add: unshadowed_def dom_tree_map list_all_iff)

lemma iterate_mvccGetLocked_visit:
  "iterate (mvccGetLocked_visit key) xs st =
     (case xs of
        [] \<Rightarrow> st
      | x # _ \<Rightarrow> if fst (DecodeKey (item_key x)) = key then (item_value x, True) else st)"
  by (cases xs) (auto simp: mvccGetLocked_visit_def split: prod.splits)

lemma iterate_MVCCGet_visit:
  "iterate (scan_visit None (MVCCGet_visit key)) xs st =
     (case xs of
        [] \<Rightarrow> st
      | x # _ \<Rightarrow> if fst (DecodeKey (item_key x)) = key then (item_value x, True) else st)"
  by (cases xs) (auto simp: scan_visit_def MVCCGet_visit_def split: prod.splits)

text \<open>Both reads look at the first item at or after a seek key.\<close>

definition first_from :: "'t btree_ops \<Rightarrow> 't MemoryStore \<Rightarrow> bytes \<Rightarrow> item option" where
  "first_from B s seek =
     (case bt_AscendGreaterOrEqual B (ms_tree s) (mk_item seek None) of [] \<Rightarrow> None | x # _ \<Rightarrow> Some x)"

definition accept_own :: "bytes \<Rightarrow> item option \<Rightarrow> slice \<times> bool" where
  "accept_own key x =
     (case x of
        Some i \<Rightarrow> if fst (DecodeKey (item_key i)) = key then (item_value i, True) else (None, False)
      | None \<Rightarrow> (None, False))"

lemma mvccGetLocked_first:
  "mvccGetLocked B s key readTs = accept_own key (first_from B s (EncodeKey key readTs))"
  by (simp add: mvccGetLocked_def Let_def iterate_mvccGetLocked_visit first_from_def accept_own_def
      split: list.split)

lemma MVCCGet_first:
  "MVCCGet (Scan B s) key readTs =
     Inr (fst (accept_own key (first_from B s (EncodeKey (EncodeKey key readTs) MaxUint64))))"
  by (auto simp: MVCCGet_def Let_def Scan_def iterate_MVCCGet_visit first_from_def accept_own_def
      split: list.split)

lemma GetTxn_unlocked:
  "ms_locks s key = None \<Longrightarrow>
   GetTxn B s key readTs = Inr (fst (accept_own key (first_from B s (EncodeKey key readTs))))"
  by (auto simp: GetTxn_def mvccGetLocked_first accept_own_def split: option.split)

lemma newest_restrict_atMost: "newest (vs |` {..r}) MaxUint64 = newest vs r"
proof -
  have "{ts \<in> dom (vs |` {..r}). ts \<le> MaxUint64} = {ts \<in> dom vs. ts \<le> r}"
    by (auto simp: restrict_map_def split: if_splits)
  moreover have "Max {ts \<in> dom vs. ts \<le> r} \<le> r" if "{ts \<in> dom vs. ts \<le> r} \<noteq> {}"
    using Max_in [OF _ that] by auto
  ultimately show ?thesis by (auto simp: newest_def Let_def)
qed

text \<open>The seek key of a scan from a raw key lies just above that raw key.\<close>

lemma EncodeKey_reencoded_le:
  "EncodeKey (EncodeKey key r) MaxUint64 \<le> EncodeKey key ts \<longleftrightarrow> ts < r"
proof -
  have "a @ replicate 8 0 \<le> b \<longleftrightarrow> a < b" if "length a = length b" for a b :: bytes
    using that by (induction a b rule: list_induct2) (auto simp: numeral_eq_Suc)
  then show ?thesis
    by (simp only: EncodeKey_Max) (simp add: EncodeKey_def Let_def)
qed

context btree_api
begin

lemma first_from_filter:
  "tinv (ms_tree s) \<Longrightarrow> first_from B s seek = find (\<lambda>j. seek \<le> item_key j) (bt_Ascend B (ms_tree s))"
  by (simp add: first_from_def AscendGreaterOrEqual_filter not_less find_filter)

lemma first_from_Some:
  assumes "tinv (ms_tree s)"
  shows "first_from B s seek = Some i \<longleftrightarrow>
    tree_map B (ms_tree s) (item_key i) = Some (item_value i) \<and> seek \<le> item_key i \<and>
    (\<forall>raw \<in> dom (tree_map B (ms_tree s)). seek \<le> raw \<longrightarrow> item_key i \<le> raw)"
proof -
  have "find (\<lambda>j. seek \<le> item_key j) xs = Some i \<longleftrightarrow>
      i \<in> set xs \<and> seek \<le> item_key i \<and> (\<forall>j \<in> set xs. seek \<le> item_key j \<longrightarrow> item_key i \<le> item_key j)"
    if "sorted_wrt item_Less xs" for xs
    using that by (induction xs) (auto simp: less_imp_le dest: leD)
  from this [OF Ascend_sorted [OF assms]] show ?thesis
    by (simp add: first_from_filter [OF assms] dom_tree_map Ascend_member [OF assms])
qed

lemma first_from_None:
  assumes "tinv (ms_tree s)"
  shows "first_from B s seek = None \<longleftrightarrow> (\<forall>raw \<in> dom (tree_map B (ms_tree s)). raw < seek)"
  by (auto simp: first_from_filter [OF assms] dom_tree_map find_None_iff not_le)

text \<open>
  A seek key admits the versions of \<open>key\<close> whose timestamps are in \<open>T\<close>.  Whatever a read
  from it accepts is the newest of these.
\<close>

lemma seek_sound:
  assumes inv: "store_inv B tinv s"
    and seek: "\<And>ts. seek \<le> EncodeKey key ts \<longleftrightarrow> ts \<in> T"
    and r: "accept_own key (first_from B s seek) = (v, True)"
  shows "newest (versions (view B s) key |` T) MaxUint64 = Some v"
proof -
  from r obtain i where i: "first_from B s seek = Some i"
    and k: "fst (DecodeKey (item_key i)) = key" and v: "item_value i = v"
    by (auto simp: accept_own_def split: option.splits if_splits)
  note I = i [unfolded first_from_Some [OF store_invD(1) [OF inv]]]
  from I obtain k' ts where "item_key i = EncodeKey k' ts"
    using stored_rawE [OF inv, of "item_key i"] by metis
  with k have raw: "item_key i = EncodeKey key ts" by simp
  with I seek have "ts \<in> T" by simp
  moreover have "tree_map B (ms_tree s) (EncodeKey key ts') = None" if "ts < ts'" "ts' \<in> T" for ts'
  proof (rule ccontr)
    assume "tree_map B (ms_tree s) (EncodeKey key ts') \<noteq> None"
    then have "EncodeKey key ts' \<in> dom (tree_map B (ms_tree s))" by blast
    moreover have "seek \<le> EncodeKey key ts'" using that seek by simp
    ultimately have "item_key i \<le> EncodeKey key ts'" using I by blast
    with that show False by (simp add: raw)
  qed
  ultimately show ?thesis
    unfolding newest_eq_Some_iff using I v raw
    by (intro exI [of _ ts]) (auto simp: restrict_map_def)
qed

text \<open>From a seek key that begins with an unshadowed key, a read finds the newest of these.\<close>

lemma seek_complete:
  assumes inv: "store_inv B tinv s" and un: "unshadowed B s key"
    and seek: "\<And>ts. seek \<le> EncodeKey key ts \<longleftrightarrow> ts \<in> T" and pre: "seek = key @ q"
    and n: "newest (versions (view B s) key |` T) MaxUint64 = Some v"
  shows "accept_own key (first_from B s seek) = (v, True)"
proof -
  from n obtain ts where ts: "ts \<in> T" "tree_map B (ms_tree s) (EncodeKey key ts) = Some v"
    and above: "\<And>ts'. ts < ts' \<Longrightarrow> ts' \<in> T \<Longrightarrow> tree_map B (ms_tree s) (EncodeKey key ts') = None"
    by (auto simp: newest_eq_Some_iff restrict_map_def split: if_splits)
  have "first_from B s seek = Some (mk_item (EncodeKey key ts) v)"
    unfolding first_from_Some [OF store_invD(1) [OF inv]]
  proof (intro conjI ballI impI)
    fix raw
    assume raw: "raw \<in> dom (tree_map B (ms_tree s))" and le: "seek \<le> raw"
    show "item_key (mk_item (EncodeKey key ts) v) \<le> raw"
    proof (rule ccontr)
      assume "\<not> item_key (mk_item (EncodeKey key ts) v) \<le> raw"
      then have lt: "raw < EncodeKey key ts" by simp
      then have "prefix key raw"
        using le unfolding pre EncodeKey_def Let_def
        by (intro between_extensions_prefix [of key q raw "PutUint64 (MaxUint64 - ts)"]) auto
      with un raw have "fst (DecodeKey raw) = key" by (auto simp: unshadowed_def)
      moreover obtain k' ts' where "raw = EncodeKey k' ts'"
        using raw stored_rawE [OF inv, of raw] by auto
      ultimately have eq: "raw = EncodeKey key ts'" by simp
      with lt le seek have "ts < ts'" "ts' \<in> T" by simp_all
      with above raw eq show False by auto
    qed
  qed (use ts seek in auto)
  then show ?thesis by (simp add: accept_own_def)
qed

lemma seek_unshadowed:
  assumes "store_inv B tinv s" and "unshadowed B s key"
    and "\<And>ts. seek \<le> EncodeKey key ts \<longleftrightarrow> ts \<in> T" and "seek = key @ q"
  shows "accept_own key (first_from B s seek) =
    (case newest (versions (view B s) key |` T) MaxUint64 of
       Some v \<Rightarrow> (v, True) | None \<Rightarrow> (None, False))"
proof (cases "newest (versions (view B s) key |` T) MaxUint64")
  case None
  then have "\<not> snd (accept_own key (first_from B s seek))"
    using seek_sound [OF assms(1,3)] by (metis (full_types) option.distinct(1) prod.collapse)
  then show ?thesis
    using None by (auto simp: accept_own_def split: option.splits if_splits)
next
  case (Some v)
  then show ?thesis using seek_complete [OF assms Some] by simp
qed

lemma mvccGetLocked_sound:
  assumes "store_inv B tinv s" and "mvccGetLocked B s key readTs = (v, True)"
  shows "newest (versions (view B s) key) readTs = Some v"
  using seek_sound [OF assms(1), of "EncodeKey key readTs" key "{..readTs}"] assms(2)
  by (simp add: mvccGetLocked_first newest_restrict_atMost)

lemma mvccGetLocked_unshadowed:
  assumes "store_inv B tinv s" and "unshadowed B s key"
  shows "mvccGetLocked B s key readTs =
    (case newest (versions (view B s) key) readTs of Some v \<Rightarrow> (v, True) | None \<Rightarrow> (None, False))"
  using seek_unshadowed [OF assms, of "EncodeKey key readTs" "{..readTs}"]
  by (simp add: mvccGetLocked_first newest_restrict_atMost) (simp add: EncodeKey_def Let_def)

lemma MVCCGet_unshadowed:
  assumes "store_inv B tinv s" and "unshadowed B s key"
  shows "MVCCGet (Scan B s) key readTs =
    Inr (case newest (versions (view B s) key |` {..<readTs}) MaxUint64 of Some v \<Rightarrow> v | None \<Rightarrow> None)"
proof -
  have "accept_own key (first_from B s (EncodeKey (EncodeKey key readTs) MaxUint64)) =
    (case newest (versions (view B s) key |` {..<readTs}) MaxUint64 of
       Some v \<Rightarrow> (v, True) | None \<Rightarrow> (None, False))"
    by (rule seek_unshadowed [OF assms, where q = "PutUint64 (MaxUint64 - readTs) @ replicate 8 0"])
       (simp_all add: EncodeKey_reencoded_le, simp only: EncodeKey_Max, simp add: EncodeKey_def Let_def)
  then show ?thesis
    by (simp add: MVCCGet_first split: option.splits)
qed

text \<open>Keys of one length are unshadowed.\<close>

lemma unshadowed_fixed_length:
  assumes inv: "store_inv B tinv s"
    and len: "\<And>raw. raw \<in> dom (tree_map B (ms_tree s)) \<Longrightarrow> length (fst (DecodeKey raw)) = length key"
  shows "unshadowed B s key"
  unfolding unshadowed_def
proof (intro ballI impI)
  fix raw
  assume raw: "raw \<in> dom (tree_map B (ms_tree s))" and p: "prefix key raw"
  obtain k' ts where eq: "raw = EncodeKey k' ts"
    using raw stored_rawE [OF inv, of raw] by auto
  with len [OF raw] have "length k' = length key" by simp
  with p eq have "k' = key"
    by (auto simp: prefix_def EncodeKey_def Let_def)
  with eq show "fst (DecodeKey raw) = key" by simp
qed

end

section \<open>Properties\<close>

text \<open>
  (C20) Snapshot reads: for a key without a write intent whose raw keys no other user key
  shadows, \<open>GetTxn\<close> returns the newest version committed at or before the read timestamp,
  and \<open>nil\<close> when there is none.
\<close>

theorem GetTxn_reads_newest:
  assumes "btree_api B tinv" and "store_inv B tinv s" and "unshadowed B s key"
    and "ms_locks s key = None"
  shows "GetTxn B s key readTs =
    Inr (case newest (versions (view B s) key) readTs of Some v \<Rightarrow> v | None \<Rightarrow> None)"
  using btree_api.mvccGetLocked_unshadowed [OF assms(1-3), of readTs] assms(4)
  by (simp add: GetTxn_def split: option.split)

theorem GetTxn_reads_newest_witness:
  "unshadowed sl_btree sample_store (lit ''k'') \<and>
   GetTxn sl_btree sample_store (lit ''k'') 15 =
     Inr (case newest (versions (view sl_btree sample_store) (lit ''k'')) 15 of Some v \<Rightarrow> v | None \<Rightarrow> None) \<and>
   GetTxn sl_btree sample_store (lit ''k'') 15 = Inr (Some (lit ''v10''))"
proof -
  have "store_inv sl_btree sl_inv sample_store" by code_simp
  moreover have "unshadowed sl_btree sample_store (lit ''k'')" by code_simp
  moreover have "ms_locks sample_store (lit ''k'') = None" by code_simp
  moreover have "GetTxn sl_btree sample_store (lit ''k'') 15 = Inr (Some (lit ''v10''))" by code_simp
  ultimately show ?thesis
    using GetTxn_reads_newest [OF sl.btree_api_axioms, of sample_store "lit ''k''" 15] by simp
qed

text \<open>
  No stale or foreign data: in every store, whatever value \<open>GetTxn\<close> returns is the
  newest version of that very key visible at the read timestamp, and the key carries no
  write intent.
\<close>

theorem GetTxn_never_stale:
  assumes "btree_api B tinv" and "store_inv B tinv s" and "GetTxn B s key readTs = Inr (Some v)"
  shows "newest (versions (view B s) key) readTs = Some (Some v) \<and> intents (view B s) key = None"
proof -
  have "ms_locks s key = None \<and> mvccGetLocked B s key readTs = (Some v, True)"
    using assms(3) by (auto simp: GetTxn_def split: option.splits prod.splits if_splits)
  then show ?thesis
    using btree_api.mvccGetLocked_sound [OF assms(1,2)] by simp
qed

theorem GetTxn_never_stale_witness:
  "GetTxn sl_btree sample_store (lit ''k'') 99 = Inr (Some (lit ''v20'')) \<and>
   newest (versions (view sl_btree sample_store) (lit ''k'')) 99 = Some (Some (lit ''v20''))"
proof -
  have inv: "store_inv sl_btree sl_inv sample_store" by code_simp
  have "GetTxn sl_btree sample_store (lit ''k'') 99 = Inr (Some (lit ''v20''))" by code_simp
  then show ?thesis using GetTxn_never_stale [OF sl.btree_api_axioms inv] by blast
qed

text \<open>
  Reads respect locks: a key with a write intent is not readable at any timestamp, by
  any reader, and the error names the transaction that holds it.
\<close>

theorem GetTxn_locked:
  "GetTxn B s key readTs = Inl e \<longleftrightarrow>
     (\<exists>l. intents (view B s) key = Some l \<and> e = LockedBy key (lock_TxnID l))"
  by (auto simp: GetTxn_def split: option.splits prod.splits if_splits)

text \<open>
  (C21) A key that another key extends can become unreadable: when the key is not locked, the
  store holds any version of a key \<open>k @ b # q\<close> with \<open>b\<close> other than \<open>0xFF\<close> and the versions of \<open>k\<close> have
  timestamps below \<open>2 ^ 56\<close> (the replicated SQL path commits at 100, \<open>Put\<close> at 1), \<open>Get\<close> of
  \<open>k\<close> returns \<open>nil\<close>, whatever versions of \<open>k\<close> are stored: the raw keys of the longer key
  sort between the seek key and the versions of \<open>k\<close>, and the traversal stops there.
\<close>

theorem Get_misses_extended_key:
  assumes "btree_api B tinv" and "store_inv B tinv s" and "ms_locks s k = None"
    and "\<forall>ts. versions (view B s) k ts \<noteq> None \<longrightarrow> ts < 2 ^ 56"
    and "versions (view B s) (k @ b # q) ts' \<noteq> None" and "b \<noteq> 255"
  shows "Get B s k = Inr None"
proof -
  note inv = btree_api.store_invD(1) [OF assms(1,2)]
  let ?seek = "EncodeKey k MaxUint64" and ?raw = "EncodeKey (k @ b # q) ts'"
  have "?seek \<le> ?raw" by (rule EncodeKey_Max_le_prefix) simp
  moreover have dom: "?raw \<in> dom (tree_map B (ms_tree s))" using assms(5) by auto
  ultimately have "first_from B s ?seek \<noteq> None"
    using btree_api.first_from_None [OF assms(1) inv] by (metis leD)
  then obtain i where i: "first_from B s ?seek = Some i" by auto
  note I = i [unfolded btree_api.first_from_Some [OF assms(1) inv]]
  obtain k' ts where raw: "item_key i = EncodeKey k' ts"
    using I btree_api.stored_rawE [OF assms(1,2), of "item_key i"] by metis
  have "k' \<noteq> k"
  proof
    assume "k' = k"
    with I raw have "ts < 2 ^ 56" using assms(4) by auto
    then have "?raw < item_key i"
      unfolding raw \<open>k' = k\<close> using assms(6) by (rule extended_key_sorts_first)
    moreover have "item_key i \<le> ?raw" using I dom \<open>?seek \<le> ?raw\<close> by blast
    ultimately show False by simp
  qed
  then show ?thesis
    by (simp add: Get_def GetTxn_unlocked [OF assms(3)] accept_own_def i raw)
qed

theorem Get_misses_extended_key_witness:
  "let s = fst (Put sl_btree (fst (Put sl_btree (NewMemoryStore sl_btree) (lit ''t:u1'') (Some (lit ''x''))))
             (lit ''t:u10'') (Some (lit ''y'')))
   in versions (view sl_btree s) (lit ''t:u1'') 1 = Some (Some (lit ''x'')) \<and>
      Get sl_btree s (lit ''t:u1'') = Inr None"
proof -
  define s where "s = fst (Put sl_btree (fst (Put sl_btree (NewMemoryStore sl_btree) (lit ''t:u1'') (Some (lit ''x''))))
             (lit ''t:u10'') (Some (lit ''y'')))"
  have inv: "store_inv sl_btree sl_inv s" unfolding s_def by code_simp
  have lk: "ms_locks s (lit ''t:u1'') = None" unfolding s_def by code_simp
  have t: "ms_tree s = [mk_item (EncodeKey (lit ''t:u10'') 1) (Some (lit ''y'')),
      mk_item (EncodeKey (lit ''t:u1'') 1) (Some (lit ''x''))]"
    unfolding s_def by code_simp
  have ne: "lit ''t:u1'' \<noteq> lit ''t:u10''" by code_simp
  have ext: "lit ''t:u10'' = lit ''t:u1'' @ 48 # []" by code_simp
  have vs: "versions (view sl_btree s) key ts =
      (if (key, ts) = (lit ''t:u10'', 1) then Some (Some (lit ''y''))
       else if (key, ts) = (lit ''t:u1'', 1) then Some (Some (lit ''x'')) else None)" for key ts
    by (auto simp: tree_map_def t entry_def)
  have "Get sl_btree s (lit ''t:u1'') = Inr None"
    by (rule Get_misses_extended_key [OF sl.btree_api_axioms inv lk, of 48 "[]" 1])
       (use ne in \<open>auto simp del: view_sel simp: vs ext [symmetric]\<close>)
  then show ?thesis
    using ne unfolding Let_def s_def [symmetric] by (simp del: view_sel add: vs)
qed

text \<open>
  \<open>MVCCGet\<close> is strict: over a memory store it returns the newest version committed
  strictly before the read timestamp, not the one committed at it, because \<open>Scan\<close> encodes
  the already encoded start key a second time.
\<close>

theorem MVCCGet_reads_strictly_before:
  assumes "btree_api B tinv" and "store_inv B tinv s" and "unshadowed B s key"
  shows "MVCCGet (Scan B s) key readTs =
    Inr (case newest (versions (view B s) key |` {..<readTs}) MaxUint64 of Some v \<Rightarrow> v | None \<Rightarrow> None)"
  by (rule btree_api.MVCCGet_unshadowed [OF assms])

theorem MVCCGet_reads_strictly_before_witness:
  "MVCCGet (Scan sl_btree sample_store) (lit ''k'') 10 =
     Inr (case newest (versions (view sl_btree sample_store) (lit ''k'') |` {..<10}) MaxUint64 of
            Some v \<Rightarrow> v | None \<Rightarrow> None) \<and>
   MVCCGet (Scan sl_btree sample_store) (lit ''k'') 10 = Inr None \<and>
   GetTxn sl_btree sample_store (lit ''k'') 10 = Inr (Some (lit ''v10''))"
proof -
  have "store_inv sl_btree sl_inv sample_store" by code_simp
  moreover have "unshadowed sl_btree sample_store (lit ''k'')" by code_simp
  moreover have "MVCCGet (Scan sl_btree sample_store) (lit ''k'') 10 = Inr None" by code_simp
  moreover have "GetTxn sl_btree sample_store (lit ''k'') 10 = Inr (Some (lit ''v10''))" by code_simp
  ultimately show ?thesis
    using MVCCGet_reads_strictly_before [OF sl.btree_api_axioms, of sample_store "lit ''k''" 10] by simp
qed

end
