(* ===== verification/Range_Scan.thy ===== *)
theory Range_Scan
  imports Memory_Read
begin

text \<open>
  Range scans of the storage engine and the transfer of a range to another store:
  \<open>Scan\<close>, \<open>ScanRange\<close> and \<open>Ingest\<close>.
\<close>

section \<open>Scans\<close>

definition before_end :: "slice \<Rightarrow> item \<Rightarrow> bool" where
  "before_end end i \<longleftrightarrow> (case end of Some e \<Rightarrow> fst (DecodeKey (item_key i)) < e | None \<Rightarrow> True)"

text \<open>The items a scan offers to its callback.\<close>

definition scan_items :: "'t btree_ops \<Rightarrow> 't MemoryStore \<Rightarrow> bytes \<Rightarrow> slice \<Rightarrow> item list" where
  "scan_items B s start end =
     takeWhile (before_end end)
       (bt_AscendGreaterOrEqual B (ms_tree s) (mk_item (EncodeKey start MaxUint64) None))"

text \<open>The user keys of which a store holds versions.\<close>

definition user_keys :: "'t btree_ops \<Rightarrow> 't MemoryStore \<Rightarrow> bytes set" where
  "user_keys B s = (\<lambda>raw. fst (DecodeKey raw)) ` dom (tree_map B (ms_tree s))"

text \<open>No key of the set extends another one.\<close>

definition prefix_free :: "bytes set \<Rightarrow> bool" where
  "prefix_free K \<longleftrightarrow> (\<forall>k \<in> K. \<forall>k' \<in> K. prefix k k' \<longrightarrow> k = k')"

lemma user_keys_code [code]:
  "user_keys B s = set (map (\<lambda>i. fst (DecodeKey (item_key i))) (bt_Ascend B (ms_tree s)))"
  by (simp add: user_keys_def dom_tree_map image_image)

lemma iterate_scan_visit:
  "iterate (scan_visit end iter) xs x =
     iterate (\<lambda>i. iter (item_key i) (item_value i)) (takeWhile (before_end end) xs) x"
  by (induction xs arbitrary: x)
     (auto simp: scan_visit_def before_end_def not_le split: prod.splits option.splits)

lemma Scan_items:
  "Scan B s start end iter x =
     (iterate (\<lambda>i. iter (item_key i) (item_value i)) (scan_items B s start end) x, None)"
  by (simp add: Scan_def scan_items_def iterate_scan_visit)

lemma fold_entries:
  "fold (\<lambda>i m. m(item_key i \<mapsto> item_value i)) is m = m ++ map_of (rev (map entry is))"
  by (induction "is" arbitrary: m)
     (auto simp: entry_def map_add_def fun_eq_iff split: option.splits)

lemma ScanRange_items:
  "ScanRange B s start end = (map_of (rev (map entry (scan_items B s start end))), None)"
  by (simp add: ScanRange_def Scan_items iterate_all fold_entries)

context btree_api
begin

lemma scan_items_set:
  assumes "tinv (ms_tree s)" and "i \<in> set (scan_items B s start end)"
  shows "tree_map B (ms_tree s) (item_key i) = Some (item_value i)"
    and "EncodeKey start MaxUint64 \<le> item_key i" and "before_end end i"
  using assms set_takeWhileD [OF assms(2) [unfolded scan_items_def]]
  by (auto simp: AscendGreaterOrEqual_filter Ascend_member not_less)

lemma scan_items_sorted:
  assumes "tinv (ms_tree s)"
  shows "sorted_wrt item_Less (scan_items B s start end)"
  unfolding scan_items_def AscendGreaterOrEqual_filter [OF assms]
  by (metis Ascend_sorted [OF assms] sorted_wrt_filter sorted_wrt_append takeWhile_dropWhile_id)

lemma ScanRange_map:
  assumes "tinv (ms_tree s)"
  shows "fst (ScanRange B s start end) =
    tree_map B (ms_tree s) |` (item_key ` set (scan_items B s start end))"
proof (rule tree_map_eqI)
  fix k v
  let ?is = "scan_items B s start end"
  have "distinct (map fst (map entry ?is))"
    using scan_items_sorted [OF assms, of start "end"]
    by (simp add: sorted_wrt_item_Less strict_sorted_iff entry_def comp_def)
  then have "fst (ScanRange B s start end) k = Some v \<longleftrightarrow> (k, v) \<in> set (map entry ?is)"
    by (simp only: ScanRange_items fst_conv map_of_rev_distinct map_of_eq_Some_iff)
  also have "\<dots> \<longleftrightarrow> mk_item k v \<in> set ?is"
    by (simp add: entry_image)
  also have "\<dots> \<longleftrightarrow> (tree_map B (ms_tree s) |` (item_key ` set ?is)) k = Some v"
    using scan_items_set(1) [OF assms, of _ start "end"]
    by (auto simp: restrict_map_def image_iff) (metis mk_item_collapse mk_item_sel option.inject)+
  finally show "fst (ScanRange B s start end) k = Some v \<longleftrightarrow>
    (tree_map B (ms_tree s) |` (item_key ` set ?is)) k = Some v" .
qed

text \<open>A scan without bounds offers every item.\<close>

lemma scan_items_all:
  assumes "store_inv B tinv s"
  shows "scan_items B s [] None = bt_Ascend B (ms_tree s)"
proof -
  note t = store_invD(1) [OF assms]
  have "EncodeKey [] MaxUint64 \<le> item_key i" if "i \<in> set (bt_Ascend B (ms_tree s))" for i
    using that stored_rawE [OF assms, of "item_key i"] EncodeKey_Max_le [of "[]"]
    by (metis Ascend_member [OF t] Nil_le_Cons)
  then show ?thesis
    by (simp add: scan_items_def AscendGreaterOrEqual_filter [OF t] before_end_def [abs_def] not_less)
qed

lemma ScanRange_all:
  assumes "store_inv B tinv s"
  shows "fst (ScanRange B s [] None) = tree_map B (ms_tree s)"
  by (simp add: ScanRange_map [OF store_invD(1) [OF assms]] scan_items_all [OF assms]
      dom_tree_map [symmetric] restrict_map_def fun_eq_iff domIff)

text \<open>Ingesting what a scan of everything returned.\<close>

lemma Ingest_ScanRange:
  assumes "store_inv B tinv src" and "store_inv B tinv dst" and "enumerates data (fst (ScanRange B src [] None))"
  shows "store_inv B tinv (fst (Ingest B dst data))"
    and "versions (view B (fst (Ingest B dst data))) key ts =
      (case versions (view B src) key ts of Some v \<Rightarrow> Some v | None \<Rightarrow> versions (view B dst) key ts)"
    and "intents (view B (fst (Ingest B dst data))) = intents (view B dst)"
proof -
  have data: "map_of (rev data) = tree_map B (ms_tree src)" "map_of data = tree_map B (ms_tree src)"
    using assms(3) ScanRange_all [OF assms(1)] by (auto simp: enumerates_def map_of_rev_distinct)
  have "versioned raw" if "raw \<in> fst ` set data" for raw
    using that store_invD(2) [OF assms(1)] data(2) by (metis dom_map_of_conv_image_fst)
  then show "store_inv B tinv (fst (Ingest B dst data))"
    by (intro store_inv_Ingest [OF assms(2)]) auto
  show "versions (view B (fst (Ingest B dst data))) key ts =
      (case versions (view B src) key ts of Some v \<Rightarrow> Some v | None \<Rightarrow> versions (view B dst) key ts)"
    using fold_insert_tree_map [OF store_invD(1) [OF assms(2)], of data]
    by (simp add: Ingest_def data map_add_def split: option.split)
  show "intents (view B (fst (Ingest B dst data))) = intents (view B dst)"
    by (simp add: Ingest_def)
qed

text \<open>
  Where no stored user key extends another one, the raw keys follow the user keys, and a
  scan from a start that no stored key is a proper prefix of offers exactly the versions of
  the user keys in the range.
\<close>

lemma user_key_mono:
  assumes inv: "store_inv B tinv s" and pf: "prefix_free (user_keys B s)"
    and i: "i \<in> set (bt_Ascend B (ms_tree s))" and j: "j \<in> set (bt_Ascend B (ms_tree s))"
    and lt: "item_key i < item_key j"
  shows "fst (DecodeKey (item_key i)) \<le> fst (DecodeKey (item_key j))"
proof (rule ccontr)
  note t = store_invD(1) [OF inv]
  assume "\<not> fst (DecodeKey (item_key i)) \<le> fst (DecodeKey (item_key j))"
  then have less: "fst (DecodeKey (item_key j)) < fst (DecodeKey (item_key i))" by simp
  obtain ki ti where ki: "item_key i = EncodeKey ki ti"
    using i stored_rawE [OF inv, of "item_key i"] by (auto simp: Ascend_member [OF t])
  obtain kj tj where kj: "item_key j = EncodeKey kj tj"
    using j stored_rawE [OF inv, of "item_key j"] by (auto simp: Ascend_member [OF t])
  have "ki \<in> user_keys B s" "kj \<in> user_keys B s"
    using i j ki kj by (auto simp: user_keys_def dom_tree_map image_iff) (metis DecodeKey_EncodeKey fst_conv)+
  with pf less have "\<not> prefix kj ki"
    by (auto simp: prefix_free_def ki kj)
  with less have "item_key j < item_key i"
    by (simp add: ki kj EncodeKey_less_mono)
  with lt show False by simp
qed

lemma scan_items_exact:
  assumes inv: "store_inv B tinv s" and pf: "prefix_free (user_keys B s)"
    and st: "\<forall>k \<in> user_keys B s. \<not> strict_prefix k start"
  shows "item_key ` set (scan_items B s start end) =
    {raw \<in> dom (tree_map B (ms_tree s)).
       start \<le> fst (DecodeKey raw) \<and> (\<forall>e. end = Some e \<longrightarrow> fst (DecodeKey raw) < e)}"
proof -
  note t = store_invD(1) [OF inv]
  let ?A = "bt_Ascend B (ms_tree s)"
  let ?u = "\<lambda>i. fst (DecodeKey (item_key i))"
  have seek: "EncodeKey start MaxUint64 \<le> item_key i \<longleftrightarrow> start \<le> ?u i" if i: "i \<in> set ?A" for i
  proof -
    obtain k ts where k: "item_key i = EncodeKey k ts"
      using i stored_rawE [OF inv, of "item_key i"] by (auto simp: Ascend_member [OF t])
    have "k \<in> user_keys B s"
      using i k by (auto simp: user_keys_def dom_tree_map image_iff) (metis DecodeKey_EncodeKey fst_conv)
    with st have "\<not> prefix k start \<or> k = start" by (auto simp: strict_prefix_def)
    then have "k < start \<Longrightarrow> EncodeKey k ts < EncodeKey start MaxUint64"
      by (auto intro: EncodeKey_less_mono)
    then show ?thesis
      using EncodeKey_Max_le [of start k ts] by (auto simp: k not_le [symmetric])
  qed
  let ?F = "filter (\<lambda>j. start \<le> ?u j) ?A"
  have "scan_items B s start end = takeWhile (before_end end) ?F"
    unfolding scan_items_def AscendGreaterOrEqual_filter [OF t]
    by (intro arg_cong [where f = "takeWhile _"] filter_cong) (auto simp: seek not_less)
  also have "\<dots> = filter (before_end end) ?F"
  proof (cases "end")
    case None
    then show ?thesis by (simp add: before_end_def [abs_def])
  next
    case (Some e)
    have "sorted_wrt (\<lambda>i j. ?u i \<le> ?u j) ?A"
      by (rule sorted_wrt_mono_rel [OF _ Ascend_sorted [OF t]])
         (auto intro: user_key_mono [OF inv pf])
    then have "sorted_wrt (\<lambda>i j. ?u i \<le> ?u j) ?F" by (rule sorted_wrt_filter)
    then show ?thesis
      using takeWhile_eq_filter_mono [of ?u ?F e] Some by (simp add: before_end_def [abs_def])
  qed
  finally show ?thesis
    by (auto simp: dom_tree_map before_end_def split: option.splits)
qed

end

section \<open>Properties\<close>



text \<open>
  Shard migration: exporting everything from one store and ingesting it into another
  leaves the target with every version of the source, and with its own version wherever
  the source has none; the order in which \<open>Ingest\<close> meets the bindings does not matter,
  and write intents do not move.
\<close>

theorem migration_copies_versions:
  assumes "btree_api B tinv" and "store_inv B tinv src" and "store_inv B tinv dst"
    and "enumerates data (fst (ScanRange B src [] None))"
  shows "store_inv B tinv (fst (Ingest B dst data)) \<and>
    versions (view B (fst (Ingest B dst data))) key ts =
      (case versions (view B src) key ts of Some v \<Rightarrow> Some v | None \<Rightarrow> versions (view B dst) key ts) \<and>
    intents (view B (fst (Ingest B dst data))) = intents (view B dst)"
  using btree_api.Ingest_ScanRange [OF assms] by blast

theorem migration_copies_versions_witness:
  "enumerates (map entry (ms_tree sample_store)) (fst (ScanRange sl_btree sample_store [] None)) \<and>
   versions (view sl_btree (fst (Ingest sl_btree (NewMemoryStore sl_btree)
       (map entry (ms_tree sample_store))))) (lit ''k'') 10 = Some (Some (lit ''v10''))"
proof -
  have inv: "store_inv sl_btree sl_inv sample_store" by code_simp
  have "distinct (map fst (map entry (ms_tree sample_store)))" by code_simp
  then have en: "enumerates (map entry (ms_tree sample_store)) (fst (ScanRange sl_btree sample_store [] None))"
    by (simp add: enumerates_def sl.ScanRange_all [OF inv] tree_map_def)
  have "versions (view sl_btree sample_store) (lit ''k'') 10 = Some (Some (lit ''v10''))"
    unfolding view_sel tree_map_def by code_simp
  then show ?thesis
    using en migration_copies_versions [OF sl.btree_api_axioms inv sl.store_inv_New en, of "lit ''k''" 10]
    by simp
qed

end
