(* ===== verification/Memory_GC.thy ===== *)
theory Memory_GC
  imports Range_Scan
begin

text \<open>
  Version garbage collection, \<open>RunGC\<close>: the newest visible version of a key at or after the
  safe timestamp stays, and with it every read of a key that no longer key shadows; where no
  user key extends another one exactly the superseded versions disappear.
\<close>

section \<open>The traversal\<close>

abbreviation user_key :: "item \<Rightarrow> bytes" where
  "user_key i \<equiv> fst (DecodeKey (item_key i))"

abbreviation commit_ts :: "item \<Rightarrow> u64" where
  "commit_ts i \<equiv> snd (DecodeKey (item_key i))"

definition gc_init :: traversalState where
  "gc_init = \<lparr>currentUserKey = [], foundSnapshot = False, keysToDelete = []\<rparr>"

definition gc_run :: "u64 \<Rightarrow> item list \<Rightarrow> traversalState" where
  "gc_run safeTs xs = fold (\<lambda>i st. snd (gc_visit safeTs i st)) xs gc_init"

lemma gc_garbage_run: "gc_garbage B s safeTs = keysToDelete (gc_run safeTs (bt_Ascend B (ms_tree s)))"
  unfolding gc_garbage_def gc_run_def gc_init_def [symmetric]
  by (subst iterate_all) (auto simp: gc_visit_def Let_def split: prod.splits)

lemma gc_run_Nil [simp]: "gc_run safeTs [] = gc_init"
  by (simp add: gc_run_def)

lemma gc_run_snoc:
  "gc_run safeTs (xs @ [i]) =
     (let st = gc_run safeTs xs;
          same = user_key i = currentUserKey st;
          found = same \<and> foundSnapshot st
      in \<lparr>currentUserKey = user_key i,
          foundSnapshot = (found \<or> commit_ts i \<le> safeTs),
          keysToDelete = keysToDelete st @ (if commit_ts i \<le> safeTs \<and> found then [i] else [])\<rparr>)"
  by (simp add: gc_run_def gc_visit_def Let_def case_prod_beta)

text \<open>An item is superseded in \<open>xs\<close> when an earlier item of its user key is within the safe range.\<close>

definition superseded :: "u64 \<Rightarrow> item list \<Rightarrow> item \<Rightarrow> bool" where
  "superseded safeTs xs g \<longleftrightarrow> commit_ts g \<le> safeTs \<and>
     (\<exists>i \<in> set xs. user_key i = user_key g \<and> commit_ts i \<le> safeTs \<and> item_key i < item_key g)"

text \<open>Every collected item is superseded.\<close>

lemma gc_run_sound:
  assumes "sorted_wrt item_Less xs"
  shows "(\<forall>g \<in> set (keysToDelete (gc_run safeTs xs)). g \<in> set xs \<and> superseded safeTs xs g) \<and>
    (foundSnapshot (gc_run safeTs xs) \<longrightarrow>
       (\<exists>i \<in> set xs. user_key i = currentUserKey (gc_run safeTs xs) \<and> commit_ts i \<le> safeTs))"
  using assms
proof (induction xs rule: rev_induct)
  case Nil
  then show ?case by (simp add: gc_init_def)
next
  case (snoc x xs)
  then show ?case
    by (auto simp: gc_run_snoc Let_def superseded_def sorted_wrt_append)
qed

lemma gc_run_distinct:
  "distinct xs \<Longrightarrow> distinct (keysToDelete (gc_run safeTs xs)) \<and> set (keysToDelete (gc_run safeTs xs)) \<subseteq> set xs"
  by (induction xs rule: rev_induct) (auto simp: gc_run_snoc Let_def gc_init_def)

text \<open>Where equal user keys are adjacent, every superseded item is collected.\<close>

lemma gc_run_exact:
  assumes "sorted_wrt item_Less xs" and "sorted_wrt (\<lambda>i j. user_key i \<le> user_key j) xs"
  shows "set (keysToDelete (gc_run safeTs xs)) = {g \<in> set xs. superseded safeTs xs g} \<and>
    (foundSnapshot (gc_run safeTs xs) \<longleftrightarrow>
       (\<exists>i \<in> set xs. user_key i = currentUserKey (gc_run safeTs xs) \<and> commit_ts i \<le> safeTs)) \<and>
    (xs \<noteq> [] \<longrightarrow> currentUserKey (gc_run safeTs xs) = user_key (last xs))"
  using assms
proof (induction xs rule: rev_induct)
  case Nil
  then show ?case by (simp add: gc_init_def)
next
  case (snoc x xs)
  let ?st = "gc_run safeTs xs"
  from snoc.prems have prems: "sorted_wrt item_Less xs" "sorted_wrt (\<lambda>i j. user_key i \<le> user_key j) xs"
    by (simp_all only: sorted_wrt_append)
  from snoc.prems have lt: "\<And>i. i \<in> set xs \<Longrightarrow> item_key i < item_key x"
    and mono: "\<And>i. i \<in> set xs \<Longrightarrow> user_key i \<le> user_key x"
    by (simp_all add: sorted_wrt_append)
  note IH = snoc.IH [OF prems]
  have adj: "user_key x = currentUserKey ?st" if i: "i \<in> set xs" "user_key i = user_key x" for i
  proof -
    from i have ne: "xs \<noteq> []" by auto
    have "user_key i \<le> user_key (last xs)"
      using i prems(2) ne
      by (cases xs rule: rev_cases) (auto simp: sorted_wrt_append)
    moreover have "user_key (last xs) \<le> user_key x" using ne by (intro mono) auto
    ultimately have "user_key x = user_key (last xs)" using i(2) by simp
    also have "\<dots> = currentUserKey ?st" using IH ne by simp
    finally show ?thesis .
  qed
  have found: "user_key x = currentUserKey ?st \<and> foundSnapshot ?st \<longleftrightarrow>
      (\<exists>i \<in> set xs. user_key i = user_key x \<and> commit_ts i \<le> safeTs)"
  proof -
    have "foundSnapshot ?st \<longleftrightarrow>
        (\<exists>i \<in> set xs. user_key i = currentUserKey ?st \<and> commit_ts i \<le> safeTs)"
      using IH by blast
    then show ?thesis using adj by auto
  qed
  have sup: "superseded safeTs (xs @ [x]) g \<longleftrightarrow>
      (if g = x then commit_ts x \<le> safeTs \<and> (\<exists>i \<in> set xs. user_key i = user_key x \<and> commit_ts i \<le> safeTs)
       else superseded safeTs xs g)" if "g \<in> set (xs @ [x])" for g
    using that lt by (auto simp: superseded_def dest: less_asym)
  have new: "x \<notin> set xs" using lt by blast
  have "{g \<in> set (xs @ [x]). superseded safeTs (xs @ [x]) g} =
      {g \<in> set xs. superseded safeTs xs g} \<union>
      (if commit_ts x \<le> safeTs \<and> (\<exists>i \<in> set xs. user_key i = user_key x \<and> commit_ts i \<le> safeTs)
       then {x} else {})" (is "?S = _")
    using new by (auto simp: sup split: if_splits)
  moreover have "set (keysToDelete (gc_run safeTs (xs @ [x]))) =
      set (keysToDelete ?st) \<union>
      (if commit_ts x \<le> safeTs \<and> user_key x = currentUserKey ?st \<and> foundSnapshot ?st then {x} else {})"
    by (auto simp: gc_run_snoc Let_def)
  ultimately have "set (keysToDelete (gc_run safeTs (xs @ [x]))) = ?S"
    unfolding found using conjunct1 [OF IH] by presburger
  moreover have "foundSnapshot (gc_run safeTs (xs @ [x])) \<longleftrightarrow>
      (\<exists>i \<in> set (xs @ [x]). user_key i = user_key x \<and> commit_ts i \<le> safeTs)"
    by (simp add: gc_run_snoc Let_def found) auto
  ultimately show ?case
    by (simp add: gc_run_snoc [of safeTs xs x] Let_def)
qed

section \<open>The collector\<close>

context btree_api
begin

lemma gc_garbage_superseded:
  assumes "store_inv B tinv s" and "g \<in> set (gc_garbage B s safeTs)"
  shows "g \<in> set (bt_Ascend B (ms_tree s))" and "superseded safeTs (bt_Ascend B (ms_tree s)) g"
  using gc_run_sound [OF Ascend_sorted [OF store_invD(1) [OF assms(1)]], of safeTs] assms(2)
  by (auto simp: gc_garbage_run)

text \<open>In terms of versions: an item is superseded when a newer version of its key is safe.\<close>

lemma superseded_version:
  assumes inv: "store_inv B tinv s" and g: "item_key g = EncodeKey key ts"
  shows "superseded safeTs (bt_Ascend B (ms_tree s)) g \<longleftrightarrow>
    ts \<le> safeTs \<and> (\<exists>ts'. ts < ts' \<and> ts' \<le> safeTs \<and> versions (view B s) key ts' \<noteq> None)"
proof -
  note t = store_invD(1) [OF inv]
  have "(\<exists>i \<in> set (bt_Ascend B (ms_tree s)).
      user_key i = key \<and> commit_ts i \<le> safeTs \<and> item_key i < EncodeKey key ts) \<longleftrightarrow>
    (\<exists>raw \<in> dom (tree_map B (ms_tree s)).
      fst (DecodeKey raw) = key \<and> snd (DecodeKey raw) \<le> safeTs \<and> raw < EncodeKey key ts)"
    by (simp add: dom_tree_map)
  also have "\<dots> \<longleftrightarrow> (\<exists>ts'. ts < ts' \<and> ts' \<le> safeTs \<and> EncodeKey key ts' \<in> dom (tree_map B (ms_tree s)))"
  proof (intro iffI)
    assume "\<exists>raw \<in> dom (tree_map B (ms_tree s)).
      fst (DecodeKey raw) = key \<and> snd (DecodeKey raw) \<le> safeTs \<and> raw < EncodeKey key ts"
    then obtain raw v where raw: "tree_map B (ms_tree s) raw = Some v" "fst (DecodeKey raw) = key"
      "snd (DecodeKey raw) \<le> safeTs" "raw < EncodeKey key ts" by blast
    moreover obtain k ts' where "raw = EncodeKey k ts'" using stored_rawE [OF inv raw(1)] .
    ultimately show "\<exists>ts'. ts < ts' \<and> ts' \<le> safeTs \<and> EncodeKey key ts' \<in> dom (tree_map B (ms_tree s))"
      by (intro exI [of _ ts']) auto
  next
    assume "\<exists>ts'. ts < ts' \<and> ts' \<le> safeTs \<and> EncodeKey key ts' \<in> dom (tree_map B (ms_tree s))"
    then show "\<exists>raw \<in> dom (tree_map B (ms_tree s)).
      fst (DecodeKey raw) = key \<and> snd (DecodeKey raw) \<le> safeTs \<and> raw < EncodeKey key ts"
      by force
  qed
  finally show ?thesis
    by (simp add: superseded_def g domIff)
qed

lemma RunGC_versions:
  assumes "store_inv B tinv s"
  shows "versions (view B (fst (RunGC B s safeTs))) key ts =
    (if EncodeKey key ts \<in> item_key ` set (gc_garbage B s safeTs) then None
     else versions (view B s) key ts)"
  by (simp add: RunGC_tree [OF store_invD(1) [OF assms]] restrict_map_def)

lemma RunGC_newest:
  assumes inv: "store_inv B tinv s" and safe: "safeTs \<le> readTs"
  shows "newest (versions (view B (fst (RunGC B s safeTs))) key) readTs =
    newest (versions (view B s) key) readTs"
proof (cases "newest (versions (view B s) key) readTs")
  case None
  then have "newest (versions (view B (fst (RunGC B s safeTs))) key) readTs = None"
    unfolding newest_eq_None_iff by (simp only: RunGC_versions [OF inv]) auto
  with None show ?thesis by simp
next
  case (Some v)
  then obtain ts where ts: "ts \<le> readTs" "versions (view B s) key ts = Some v"
    and above: "\<And>ts'. ts < ts' \<Longrightarrow> ts' \<le> readTs \<Longrightarrow> versions (view B s) key ts' = None"
    unfolding newest_eq_Some_iff by blast
  have "EncodeKey key ts \<notin> item_key ` set (gc_garbage B s safeTs)"
  proof
    assume "EncodeKey key ts \<in> item_key ` set (gc_garbage B s safeTs)"
    then obtain g where g: "g \<in> set (gc_garbage B s safeTs)" "item_key g = EncodeKey key ts" by auto
    from gc_garbage_superseded(2) [OF inv g(1)] obtain ts' where
      "ts < ts'" "ts' \<le> safeTs" "versions (view B s) key ts' \<noteq> None"
      unfolding superseded_version [OF inv g(2)] by blast
    with above [of ts'] safe show False by auto
  qed
  with ts above have "newest (versions (view B (fst (RunGC B s safeTs))) key) readTs = Some v"
    unfolding newest_eq_Some_iff by (intro exI [of _ ts]) (simp only: RunGC_versions [OF inv], auto)
  with Some show ?thesis by simp
qed

lemma RunGC_unshadowed:
  "store_inv B tinv s \<Longrightarrow> unshadowed B s key \<Longrightarrow> unshadowed B (fst (RunGC B s safeTs)) key"
  by (auto simp: unshadowed_def RunGC_tree [OF store_invD(1)] restrict_map_def split: if_splits)

text \<open>A read that nothing shadows is decided by the intent and the newest visible version, and both are kept.\<close>

lemma RunGC_reads:
  assumes inv: "store_inv B tinv s" and un: "unshadowed B s key" and safe: "safeTs \<le> readTs"
  shows "GetTxn B (fst (RunGC B s safeTs)) key readTs = GetTxn B s key readTs"
proof -
  let ?s' = "fst (RunGC B s safeTs)"
  have inv': "store_inv B tinv ?s'" and un': "unshadowed B ?s' key"
    by (rule store_inv_RunGC [OF inv], rule RunGC_unshadowed [OF inv un])
  have locks: "ms_locks ?s' = ms_locks s" using RunGC_tree(4) [OF store_invD(1) [OF inv]] by simp
  have "mvccGetLocked B ?s' key readTs = mvccGetLocked B s key readTs"
    unfolding mvccGetLocked_unshadowed [OF inv' un'] mvccGetLocked_unshadowed [OF inv un]
    by (simp only: RunGC_newest [OF inv safe])
  with locks show ?thesis by (simp add: GetTxn_def split: option.split)
qed

lemma gc_garbage_exact:
  assumes inv: "store_inv B tinv s" and pf: "prefix_free (user_keys B s)"
  shows "set (gc_garbage B s safeTs) =
    {g \<in> set (bt_Ascend B (ms_tree s)). superseded safeTs (bt_Ascend B (ms_tree s)) g}"
proof -
  note sorted = Ascend_sorted [OF store_invD(1) [OF inv]]
  have "sorted_wrt (\<lambda>i j. user_key i \<le> user_key j) (bt_Ascend B (ms_tree s))"
    by (rule sorted_wrt_mono_rel [OF _ sorted]) (auto intro: user_key_mono [OF inv pf])
  with gc_run_exact [OF sorted] show ?thesis by (simp add: gc_garbage_run)
qed

lemma RunGC_exact_versions:
  assumes inv: "store_inv B tinv s" and pf: "prefix_free (user_keys B s)"
  shows "versions (view B (fst (RunGC B s safeTs))) key ts =
    (if ts \<le> safeTs \<and> (\<exists>ts'. ts < ts' \<and> ts' \<le> safeTs \<and> versions (view B s) key ts' \<noteq> None)
     then None else versions (view B s) key ts)"
proof -
  have "EncodeKey key ts \<in> item_key ` set (gc_garbage B s safeTs) \<longleftrightarrow>
      EncodeKey key ts \<in> dom (tree_map B (ms_tree s)) \<and>
      ts \<le> safeTs \<and> (\<exists>ts'. ts < ts' \<and> ts' \<le> safeTs \<and> versions (view B s) key ts' \<noteq> None)"
  proof -
    have "EncodeKey key ts \<in> item_key ` set (gc_garbage B s safeTs) \<longleftrightarrow>
        (\<exists>g \<in> set (bt_Ascend B (ms_tree s)).
           item_key g = EncodeKey key ts \<and> superseded safeTs (bt_Ascend B (ms_tree s)) g)"
      unfolding gc_garbage_exact [OF assms] image_iff by force
    also have "\<dots> \<longleftrightarrow> (\<exists>g \<in> set (bt_Ascend B (ms_tree s)). item_key g = EncodeKey key ts) \<and>
        ts \<le> safeTs \<and> (\<exists>ts'. ts < ts' \<and> ts' \<le> safeTs \<and> versions (view B s) key ts' \<noteq> None)"
      using superseded_version [OF inv] by blast
    also have "(\<exists>g \<in> set (bt_Ascend B (ms_tree s)). item_key g = EncodeKey key ts) \<longleftrightarrow>
        EncodeKey key ts \<in> dom (tree_map B (ms_tree s))"
      unfolding dom_tree_map by force
    finally show ?thesis .
  qed
  then show ?thesis
    unfolding RunGC_versions [OF inv] by (auto simp: domIff)
qed

text \<open>The returned count is the number of versions that disappear.\<close>

lemma RunGC_count:
  assumes inv: "store_inv B tinv s"
  shows "snd (RunGC B s safeTs) =
    card (dom (tree_map B (ms_tree s)) - dom (tree_map B (ms_tree (fst (RunGC B s safeTs)))))"
proof -
  note t = store_invD(1) [OF inv]
  let ?g = "gc_garbage B s safeTs" and ?A = "bt_Ascend B (ms_tree s)"
  have dk: "distinct (map item_key ?A)" by (rule distinct_item_keys [OF t])
  have d: "distinct ?g" "set ?g \<subseteq> set ?A"
    using gc_run_distinct [of ?A safeTs] dk by (auto simp: gc_garbage_run distinct_map)
  have "dom (tree_map B (ms_tree s)) - dom (tree_map B (ms_tree (fst (RunGC B s safeTs)))) = item_key ` set ?g"
    using d(2) by (auto simp: RunGC_tree [OF t] dom_tree_map)
  moreover have "card (item_key ` set ?g) = length ?g"
    using d dk by (metis card_image distinct_card distinct_map inj_on_subset)
  ultimately show ?thesis by (simp add: RunGC_tree [OF t])
qed

end

section \<open>Properties\<close>



text \<open>
  Without that condition a read may change: a key that a longer key shadows reads as \<open>nil\<close>,
  and when the collector removes the longer key's shadowing version the same read at the safe
  timestamp returns the key's value.  It takes timestamps of \<open>2 ^ 56\<close> and more, which
  \<open>time.Now().UnixNano()\<close> gives.
\<close>

definition shadowed_store :: "item list MemoryStore" where
  "shadowed_store =
     opc_write sl_btree
       (opc_write sl_btree (NewMemoryStore sl_btree)
         [\<lparr>op_Key = lit ''a'', op_Value = Some (lit ''x'')\<rparr>, \<lparr>op_Key = lit ''a'' @ [245], op_Value = Some (lit ''y'')\<rparr>] 1)
       [\<lparr>op_Key = lit ''a'' @ [245], op_Value = Some (lit ''z'')\<rparr>] (10 * 2 ^ 56)"

theorem RunGC_changes_shadowed_read:
  "store_inv sl_btree sl_inv shadowed_store \<and>
   GetTxn sl_btree shadowed_store (lit ''a'') (10 * 2 ^ 56) = Inr None \<and>
   GetTxn sl_btree (fst (RunGC sl_btree shadowed_store (10 * 2 ^ 56))) (lit ''a'') (10 * 2 ^ 56) =
     Inr (Some (lit ''x''))"
  by code_simp

text \<open>
  (C18) Garbage collection is exact: where no stored user key extends another one, \<open>RunGC\<close>
  removes a version if and only if it is not after the safe timestamp and a newer version
  of its key is not after it either; so at most one version at or before the safe timestamp
  is left per key.
\<close>

theorem RunGC_exact:
  assumes "btree_api B tinv" and "store_inv B tinv s" and "prefix_free (user_keys B s)"
  shows "versions (view B (fst (RunGC B s safeTs))) key ts =
    (if ts \<le> safeTs \<and> (\<exists>ts'. ts < ts' \<and> ts' \<le> safeTs \<and> versions (view B s) key ts' \<noteq> None)
     then None else versions (view B s) key ts)"
  by (rule btree_api.RunGC_exact_versions [OF assms])

theorem RunGC_exact_witness:
  "versions (view sl_btree (fst (RunGC sl_btree sample_store 25))) (lit ''k'') 10 = None \<and>
   versions (view sl_btree (fst (RunGC sl_btree sample_store 25))) (lit ''k'') 20 \<noteq> None"
proof -
  have inv: "store_inv sl_btree sl_inv sample_store" by code_simp
  have pf: "prefix_free (user_keys sl_btree sample_store)" unfolding prefix_free_def by code_simp
  have vs: "versions (view sl_btree sample_store) (lit ''k'') ts =
      (if ts = 20 then Some (Some (lit ''v20'')) else if ts = 10 then Some (Some (lit ''v10'')) else None)" for ts
  proof -
    have "ms_tree sample_store = [mk_item (EncodeKey (lit ''k'') 20) (Some (lit ''v20'')),
        mk_item (EncodeKey (lit ''k'') 10) (Some (lit ''v10''))]" by code_simp
    then show ?thesis by (auto simp: tree_map_def entry_def)
  qed
  have "\<exists>ts'. (10 :: u64) < ts' \<and> ts' \<le> 25 \<and> versions (view sl_btree sample_store) (lit ''k'') ts' \<noteq> None"
    by (rule exI [of _ 20]) (simp del: view_sel add: vs)
  then show ?thesis
    using RunGC_exact [OF sl.btree_api_axioms inv pf, of 25 "lit ''k''" 10]
      RunGC_exact [OF sl.btree_api_axioms inv pf, of 25 "lit ''k''" 20]
    by (auto simp del: view_sel simp: vs)
qed

end
