(* ===== verification/Store_Machine.thy ===== *)
theory Store_Machine
  imports Memory_GC
begin

text \<open>
  The store as a state machine: its commands, the states they reach, the refinement of the
  abstract multi-version store by every command, and the stability of write intents along
  any sequence of commands of other transactions.
\<close>

section \<open>Commands\<close>

datatype store_cmd =
    CPrepare bytes slice bytes
  | CCommit bytes bytes u64
  | CAbort bytes bytes
  | COnePhaseCommit "BatchOp list" bytes u64
  | CRunGC u64
  | CIngest "(bytes \<times> slice) list"

fun exec_cmd :: "'t btree_ops \<Rightarrow> 't MemoryStore \<Rightarrow> store_cmd \<Rightarrow> 't MemoryStore" where
  "exec_cmd B s (CPrepare key v txn) = fst (Prepare s key v txn)"
| "exec_cmd B s (CCommit key txn ts) = fst (Commit B s key txn ts)"
| "exec_cmd B s (CAbort key txn) = fst (Abort s key txn)"
| "exec_cmd B s (COnePhaseCommit ops txn ts) = fst (OnePhaseCommit B s ops txn ts)"
| "exec_cmd B s (CRunGC safeTs) = fst (RunGC B s safeTs)"
| "exec_cmd B s (CIngest data) = fst (Ingest B s data)"

definition exec_cmds :: "'t btree_ops \<Rightarrow> 't MemoryStore \<Rightarrow> store_cmd list \<Rightarrow> 't MemoryStore" where
  "exec_cmds B s cs = foldl (exec_cmd B) s cs"

text \<open>The transaction on whose behalf a command runs.\<close>

fun cmd_txn :: "store_cmd \<Rightarrow> bytes option" where
  "cmd_txn (CPrepare _ _ txn) = Some txn"
| "cmd_txn (CCommit _ txn _) = Some txn"
| "cmd_txn (CAbort _ txn) = Some txn"
| "cmd_txn (COnePhaseCommit _ txn _) = Some txn"
| "cmd_txn _ = None"

text \<open>Data that \<open>Ingest\<close> may write: raw keys with timestamps.\<close>

fun cmd_ok :: "store_cmd \<Rightarrow> bool" where
  "cmd_ok (CIngest data) \<longleftrightarrow> (\<forall>raw \<in> fst ` set data. versioned raw)"
| "cmd_ok _ \<longleftrightarrow> True"

inductive store_reach :: "'t btree_ops \<Rightarrow> 't MemoryStore \<Rightarrow> bool" for B where
  reach_New: "store_reach B (NewMemoryStore B)"
| reach_cmd: "store_reach B s \<Longrightarrow> cmd_ok c \<Longrightarrow> store_reach B (exec_cmd B s c)"

section \<open>The abstract machine\<close>

text \<open>
  The abstract transition of the transactional commands.  Collection and ingestion are not
  transactional; their effect on the versions is in \<open>Memory_GC\<close> and \<open>Range_Scan\<close>.
\<close>

fun spec_cmd :: "mvcc_state \<Rightarrow> store_cmd \<Rightarrow> mvcc_state" where
  "spec_cmd m (CPrepare key v txn) =
     (if available m key txn
      then m\<lparr>intents := (intents m)(key \<mapsto> \<lparr>lock_TxnID = txn, lock_Value = v\<rparr>)\<rparr> else m)"
| "spec_cmd m (CCommit key txn ts) =
     (case intents m key of
        Some l \<Rightarrow> if lock_TxnID l = txn
                  then spec_release key (spec_add_version key ts (lock_Value l) m) else m
      | None \<Rightarrow> m)"
| "spec_cmd m (CAbort key txn) = (if holds_intent m key txn then spec_release key m else m)"
| "spec_cmd m (COnePhaseCommit ops txn ts) =
     (if \<forall>bop \<in> set ops. available m (op_Key bop) txn then spec_write_batch ops ts m else m)"
| "spec_cmd m _ = m"

lemma exec_cmds_Nil [simp]: "exec_cmds B s [] = s"
  by (simp add: exec_cmds_def)

lemma exec_cmds_Cons [simp]: "exec_cmds B s (c # cs) = exec_cmds B (exec_cmd B s c) cs"
  by (simp add: exec_cmds_def)

context btree_api
begin

lemma store_inv_exec_cmd:
  "store_inv B tinv s \<Longrightarrow> cmd_ok c \<Longrightarrow> store_inv B tinv (exec_cmd B s c)"
  by (cases c) (auto intro: inv_intros)

lemma store_reach_inv: "store_reach B s \<Longrightarrow> store_inv B tinv s"
  by (induction rule: store_reach.induct) (auto intro: store_inv_New store_inv_exec_cmd)

lemma exec_cmd_refines:
  "store_inv B tinv s \<Longrightarrow> cmd_txn c \<noteq> None \<Longrightarrow> view B (exec_cmd B s c) = spec_cmd (view B s) c"
  by (cases c) (simp_all add: Prepare_refines Abort_refines Commit_refines OnePhaseCommit_refines)

lemma exec_cmd_intent_stable:
  assumes inv: "store_inv B tinv s"
    and held: "intents (view B s) key = Some l" "cmd_txn c \<noteq> Some (lock_TxnID l)"
  shows "intents (view B (exec_cmd B s c)) key = Some l"
proof (cases "cmd_txn c")
  case None
  then show ?thesis
    using held RunGC_tree(4) [OF store_invD(1) [OF inv]] by (cases c) (auto simp: Ingest_def)
next
  case (Some txn)
  have "intents (spec_cmd (view B s) c) key = Some l"
    using held
    by (cases c)
       (auto simp: available_def holds_intent_def spec_release_def spec_add_version_def
         spec_write_batch_intents split: option.splits)
  with exec_cmd_refines [OF inv] Some show ?thesis by simp
qed

end

section \<open>Properties\<close>

text \<open>
  The store invariant: every store reached from an empty one by any sequence of
  transactional commands, collections and ingestions of versioned keys satisfies it.
\<close>

theorem reachable_store_inv:
  assumes "btree_api B tinv" and "store_reach B s"
  shows "store_inv B tinv s"
  by (rule btree_api.store_reach_inv [OF assms])

theorem reachable_store_inv_witness:
  "store_reach sl_btree (exec_cmd sl_btree (NewMemoryStore sl_btree) (CPrepare [1] (Some [2]) [3])) \<and>
   store_inv sl_btree sl_inv (exec_cmd sl_btree (NewMemoryStore sl_btree) (CPrepare [1] (Some [2]) [3]))"
proof -
  have r: "store_reach sl_btree (exec_cmd sl_btree (NewMemoryStore sl_btree) (CPrepare [1] (Some [2]) [3]))"
    by (intro store_reach.intros) simp
  from r reachable_store_inv [OF sl.btree_api_axioms r] show ?thesis by blast
qed

text \<open>
  (C1) Refinement: on every reachable store each of \<open>Prepare\<close>, \<open>Commit\<close>, \<open>Abort\<close> and
  \<open>OnePhaseCommit\<close> has the effect of its abstract counterpart on versions and intents.
\<close>

theorem store_refines_mvcc:
  assumes "btree_api B tinv" and "store_reach B s" and "cmd_txn c \<noteq> None"
  shows "view B (exec_cmd B s c) = spec_cmd (view B s) c"
  by (rule btree_api.exec_cmd_refines [OF assms(1) btree_api.store_reach_inv [OF assms(1,2)] assms(3)])

theorem store_refines_mvcc_witness:
  "let s = exec_cmd sl_btree (NewMemoryStore sl_btree) (CPrepare [1] (Some [2]) [3]); m = view sl_btree s
   in view sl_btree (exec_cmd sl_btree s (CCommit [1] [3] 5)) = spec_cmd m (CCommit [1] [3] 5) \<and>
      intents m [1] = Some \<lparr>lock_TxnID = [3], lock_Value = Some [2]\<rparr> \<and>
      versions (spec_cmd m (CCommit [1] [3] 5)) [1] 5 = Some (Some [2])"
proof -
  define s where "s = exec_cmd sl_btree (NewMemoryStore sl_btree) (CPrepare [1] (Some [2]) [3])"
  have r: "store_reach sl_btree s" unfolding s_def by (intro store_reach.intros) simp
  have l: "intents (view sl_btree s) [1] = Some \<lparr>lock_TxnID = [3], lock_Value = Some [2]\<rparr>"
    by (simp add: s_def Prepare_def NewMemoryStore_def)
  then have "versions (spec_cmd (view sl_btree s) (CCommit [1] [3] 5)) [1] 5 = Some (Some [2])"
    by (simp add: spec_release_def spec_add_version_def del: view_sel)
  moreover have "view sl_btree (exec_cmd sl_btree s (CCommit [1] [3] 5)) = spec_cmd (view sl_btree s) (CCommit [1] [3] 5)"
    by (rule store_refines_mvcc [OF sl.btree_api_axioms r]) simp
  ultimately show ?thesis using l unfolding Let_def s_def [symmetric] by (intro conjI)
qed

text \<open>
  (C27) Write exclusion: once a transaction holds the intent on a key, no sequence of commands
  of other transactions, of collections and of ingestions changes or removes it.
\<close>

theorem intent_stable:
  assumes "btree_api B tinv" and "store_inv B tinv s"
    and "intents (view B s) key = Some l"
    and "\<forall>c \<in> set cs. cmd_txn c \<noteq> Some (lock_TxnID l) \<and> cmd_ok c"
  shows "intents (view B (exec_cmds B s cs)) key = Some l"
  using assms(2-4)
proof (induction cs arbitrary: s)
  case Nil
  then show ?case by simp
next
  case (Cons c cs)
  have "store_inv B tinv (exec_cmd B s c)"
    using Cons.prems by (intro btree_api.store_inv_exec_cmd [OF assms(1)]) auto
  moreover have "intents (view B (exec_cmd B s c)) key = Some l"
    using Cons.prems by (intro btree_api.exec_cmd_intent_stable [OF assms(1)]) auto
  ultimately show ?case
    using Cons.prems(3) Cons.IH [of "exec_cmd B s c"] by simp
qed

theorem intent_stable_witness:
  "intents (view sl_btree (exec_cmds sl_btree (fst (Prepare (NewMemoryStore sl_btree) [1] (Some [2]) [3]))
     [CPrepare [1] (Some [9]) [4], CAbort [1] [4], CCommit [1] [4] 7])) [1] =
   Some \<lparr>lock_TxnID = [3], lock_Value = Some [2]\<rparr>"
proof (rule intent_stable [OF sl.btree_api_axioms])
  show "store_inv sl_btree sl_inv (fst (Prepare (NewMemoryStore sl_btree) [1] (Some [2]) [3]))"
    by (intro sl.store_inv_Prepare sl.store_inv_New)
  show "intents (view sl_btree (fst (Prepare (NewMemoryStore sl_btree) [1] (Some [2]) [3]))) [1] =
      Some \<lparr>lock_TxnID = [3], lock_Value = Some [2]\<rparr>"
    by (simp add: Prepare_def NewMemoryStore_def)
qed simp

text \<open>
  Two-phase write: when \<open>Prepare\<close> and then \<open>Commit\<close> at \<open>ts\<close> succeed, every later snapshot
  read that sees no newer version returns the value; before the commit the key is unreadable,
  and a \<open>Commit\<close> by another transaction is refused without effect.
\<close>

theorem prepared_commit_is_read:
  assumes "btree_api B tinv" and "store_inv B tinv s" and "unshadowed B s key"
    and "Prepare s key v txn = (s1, None)"
    and "\<forall>ts'. ts < ts' \<longrightarrow> ts' \<le> readTs \<longrightarrow> versions (view B s) key ts' = None" and "ts \<le> readTs"
  shows "snd (Commit B s1 key txn ts) = None \<and>
    GetTxn B (fst (Commit B s1 key txn ts)) key readTs = Inr v \<and>
    GetTxn B s1 key readTs = Inl (LockedBy key txn) \<and>
    (other \<noteq> txn \<longrightarrow> Commit B s1 key other ts = (s1, Some (CannotCommit key txn other)))"
proof -
  note api = assms(1)
  have inv1: "store_inv B tinv s1"
    using btree_api.store_inv_Prepare [OF api assms(2), of key v txn] assms(4) by simp
  have lock: "ms_locks s1 key = Some \<lparr>lock_TxnID = txn, lock_Value = v\<rparr>" and tree: "ms_tree s1 = ms_tree s"
    using assms(4) by (auto simp: Prepare_def Let_def split: option.splits if_splits)
  let ?s2 = "fst (Commit B s1 key txn ts)"
  have com: "snd (Commit B s1 key txn ts) = None"
    using lock by (simp add: Commit_def)
  have inv2: "store_inv B tinv ?s2" by (rule btree_api.store_inv_Commit [OF api inv1])
  have tm: "tree_map B (ms_tree ?s2) = (tree_map B (ms_tree s))(EncodeKey key ts \<mapsto> v)"
    using lock btree_api.tree_map_ReplaceOrInsert [OF api btree_api.store_invD(1) [OF api inv1]] tree
    by (simp add: Commit_def Let_def)
  have un: "unshadowed B ?s2 key"
    using assms(3) by (auto simp: unshadowed_def tm)
  have "versions (view B ?s2) key = (versions (view B s) key)(ts \<mapsto> v)"
    by (auto simp: tm)
  then have "newest (versions (view B ?s2) key) readTs = Some v"
    using assms(5,6) by (simp add: newest_add del: view_sel)
  moreover have "ms_locks ?s2 key = None"
    using lock by (simp add: Commit_def Let_def)
  ultimately have "GetTxn B ?s2 key readTs = Inr v"
    using btree_api.mvccGetLocked_unshadowed [OF api inv2 un, of readTs]
    by (simp add: GetTxn_def)
  then show ?thesis
    using com lock by (simp add: GetTxn_def Commit_def)
qed

theorem prepared_commit_is_read_witness:
  "Prepare sample_store (lit ''k'') (Some (lit ''v30'')) (lit ''t'') =
     (fst (Prepare sample_store (lit ''k'') (Some (lit ''v30'')) (lit ''t'')), None) \<and>
   GetTxn sl_btree (fst (Commit sl_btree (fst (Prepare sample_store (lit ''k'') (Some (lit ''v30'')) (lit ''t'')))
     (lit ''k'') (lit ''t'') 30)) (lit ''k'') 35 = Inr (Some (lit ''v30''))"
proof -
  let ?s1 = "fst (Prepare sample_store (lit ''k'') (Some (lit ''v30'')) (lit ''t''))"
  have inv: "store_inv sl_btree sl_inv sample_store" by code_simp
  have un: "unshadowed sl_btree sample_store (lit ''k'')" by code_simp
  have "snd (Prepare sample_store (lit ''k'') (Some (lit ''v30'')) (lit ''t'')) = None" by code_simp
  then have p: "Prepare sample_store (lit ''k'') (Some (lit ''v30'')) (lit ''t'') = (?s1, None)"
    by (metis prod.collapse)
  have tr: "ms_tree sample_store = [mk_item (EncodeKey (lit ''k'') 20) (Some (lit ''v20'')),
      mk_item (EncodeKey (lit ''k'') 10) (Some (lit ''v10''))]" by code_simp
  have n: "\<forall>ts'. (30 :: u64) < ts' \<longrightarrow> ts' \<le> 35 \<longrightarrow> versions (view sl_btree sample_store) (lit ''k'') ts' = None"
    by (auto simp: tree_map_def tr entry_def)
  show ?thesis
    using p prepared_commit_is_read [OF sl.btree_api_axioms inv un p n] by simp
qed

text \<open>
  (C8) One-phase commit is atomic: it succeeds exactly when every key of the batch is free or
  held by the transaction itself, and then each key's last value is published at the commit
  timestamp, its intent is released, and every other version and intent is as before; when
  some key is held by another transaction, the store is unchanged and the error names that
  key and its holder.
\<close>

theorem OnePhaseCommit_atomic:
  assumes "btree_api B tinv" and "store_inv B tinv s"
  shows "case OnePhaseCommit B s ops txn ts of
      (s', None) \<Rightarrow>
        (\<forall>bop \<in> set ops. available (view B s) (op_Key bop) txn) \<and>
        (\<forall>bop \<in> set ops.
           versions (view B s') (op_Key bop) ts =
             map_of (rev (map (\<lambda>b. (op_Key b, op_Value b)) ops)) (op_Key bop) \<and>
           versions (view B s') (op_Key bop) ts \<noteq> None \<and>
           intents (view B s') (op_Key bop) = None) \<and>
        (\<forall>key t. t \<noteq> ts \<or> key \<notin> op_Key ` set ops \<longrightarrow> versions (view B s') key t = versions (view B s) key t) \<and>
        (\<forall>key. key \<notin> op_Key ` set ops \<longrightarrow> intents (view B s') key = intents (view B s) key)
    | (s', Some e) \<Rightarrow> s' = s \<and> (\<exists>bop \<in> set ops. \<exists>l.
         intents (view B s) (op_Key bop) = Some l \<and> lock_TxnID l \<noteq> txn \<and>
         e = LockedBy (op_Key bop) (lock_TxnID l))"
proof (cases "opc_validate s ops txn")
  case None
  have w: "view B (opc_write B s ops ts) = spec_write_batch ops ts (view B s)"
    by (rule btree_api.opc_write_refines [OF assms(1) btree_api.store_invD(1) [OF assms]])
  have last: "\<forall>bop \<in> set ops. \<exists>v. map_of (rev (map (\<lambda>b. (op_Key b, op_Value b)) ops)) (op_Key bop) = Some v"
    by (auto simp: not_None_eq [symmetric] map_of_eq_None_iff image_iff simp del: not_None_eq)
  then have "\<forall>bop \<in> set ops. versions (spec_write_batch ops ts (view B s)) (op_Key bop) ts =
      map_of (rev (map (\<lambda>b. (op_Key b, op_Value b)) ops)) (op_Key bop)"
    by (fastforce simp: spec_write_batch_versions)
  moreover have "\<forall>bop \<in> set ops. available (view B s) (op_Key bop) txn"
    using None opc_validate_None_iff [of s ops txn B] by simp
  ultimately show ?thesis
    using None last
    by (simp add: OnePhaseCommit_def w spec_write_batch_versions_other spec_write_batch_intents del: view_sel)
next
  case (Some e)
  have "\<exists>bop \<in> set ops. \<exists>l. intents (view B s) (op_Key bop) = Some l \<and> lock_TxnID l \<noteq> txn \<and>
      e = LockedBy (op_Key bop) (lock_TxnID l)"
    using Some by (induction ops) (auto split: option.splits if_splits)
  with Some show ?thesis by (simp add: OnePhaseCommit_def)
qed

theorem OnePhaseCommit_atomic_witness:
  "let ops = [\<lparr>op_Key = [1], op_Value = Some [5]\<rparr>, \<lparr>op_Key = [2], op_Value = Some [6]\<rparr>];
       s = fst (Prepare (NewMemoryStore sl_btree) [2] (Some [9]) [4])
   in fst (OnePhaseCommit sl_btree s ops [3] 7) = s \<and>
      versions (view sl_btree (fst (OnePhaseCommit sl_btree s ops [4] 7))) [1] 7 = Some (Some [5])"
proof -
  define s where "s = fst (Prepare (NewMemoryStore sl_btree) [2] (Some [9]) [4])"
  define ops where "ops = [\<lparr>op_Key = [1 :: byte], op_Value = Some [5 :: byte]\<rparr>, \<lparr>op_Key = [2], op_Value = Some [6]\<rparr>]"
  have inv: "store_inv sl_btree sl_inv s"
    unfolding s_def by (intro sl.store_inv_Prepare sl.store_inv_New)
  have bad: "snd (OnePhaseCommit sl_btree s ops [3] 7) \<noteq> None"
    by (simp add: s_def ops_def OnePhaseCommit_def Prepare_def NewMemoryStore_def)
  have good: "snd (OnePhaseCommit sl_btree s ops [4] 7) = None"
    by (simp add: s_def ops_def OnePhaseCommit_def Prepare_def NewMemoryStore_def)
  have "fst (OnePhaseCommit sl_btree s ops [3] 7) = s"
    using OnePhaseCommit_atomic [OF sl.btree_api_axioms inv, where ops = ops and txn = "[3]" and ts = 7] bad
    by (auto split: prod.splits option.splits)
  moreover have "versions (view sl_btree (fst (OnePhaseCommit sl_btree s ops [4] 7))) [1] 7 = Some (Some [5])"
    using OnePhaseCommit_atomic [OF sl.btree_api_axioms inv, where ops = ops and txn = "[4]" and ts = 7] good
    by (auto simp del: view_sel simp: ops_def split: prod.splits option.splits)
  ultimately show ?thesis by (simp add: Let_def s_def ops_def)
qed

end
