(* ===== verification/Go_Utf8.thy ===== *)
theory Go_Utf8
  imports Go_Lib
begin

text \<open>
  UTF-8 as Go's \<^verbatim>\<open>unicode/utf8\<close> decodes it, and what \<^verbatim>\<open>encoding/json\<close> makes of a Go string:
  bytes that are not part of a well-formed sequence are replaced by U+FFFD.
\<close>

section \<open>Strings in encoding/json\<close>

text \<open>
  The size of the UTF-8 sequence at the head of a byte string, 0 when there is none
  (\<^verbatim>\<open>unicode/utf8\<close>, the ranges of the second byte as in its table of accepted ranges).
\<close>

definition is_cont :: "byte \<Rightarrow> bool" where
  "is_cont b \<longleftrightarrow> 0x80 \<le> b \<and> b \<le> 0xBF"

definition second_ok :: "byte \<Rightarrow> byte \<Rightarrow> bool" where
  "second_ok b0 b1 \<longleftrightarrow>
     (if b0 = 0xE0 then 0xA0 \<le> b1 \<and> b1 \<le> 0xBF
      else if b0 = 0xED then 0x80 \<le> b1 \<and> b1 \<le> 0x9F
      else if b0 = 0xF0 then 0x90 \<le> b1 \<and> b1 \<le> 0xBF
      else if b0 = 0xF4 then 0x80 \<le> b1 \<and> b1 \<le> 0x8F
      else is_cont b1)"

definition need :: "byte \<Rightarrow> nat" where
  "need b0 =
     (if b0 < 0x80 then 1
      else if 0xC2 \<le> b0 \<and> b0 \<le> 0xDF then 2
      else if 0xE0 \<le> b0 \<and> b0 \<le> 0xEF then 3
      else if 0xF0 \<le> b0 \<and> b0 \<le> 0xF4 then 4
      else 0)"

fun rune_size :: "bytes \<Rightarrow> nat" where
  "rune_size [] = 0"
| "rune_size (b0 # bs) =
     (let n = need b0 in
      if n \<le> 1 then n
      else if length bs < n - 1 then 0
      else if second_ok b0 (bs ! 0) \<and> list_all is_cont (take (n - 2) (tl bs)) then n
      else 0)"

definition RuneError :: bytes where
  "RuneError = [0xEF, 0xBF, 0xBD]"

lemma rune_size_le: "rune_size bs \<le> length bs"
  by (cases bs) (auto simp: Let_def)

function json_string :: "bytes \<Rightarrow> bytes" where
  "json_string [] = []"
| "json_string (b # bs) =
     (let n = rune_size (b # bs) in
      if n = 0 then RuneError @ json_string bs
      else take n (b # bs) @ json_string (drop n (b # bs)))"
  by pat_completeness auto
termination
  by (relation "measure length") (auto simp del: rune_size.simps)

declare json_string.simps [simp del]

lemma json_string_Nil [simp]: "json_string [] = []"
  by (simp add: json_string.simps)

text \<open>A string is well-formed UTF-8 when every byte is part of a sequence.\<close>

definition utf8_valid :: "bytes \<Rightarrow> bool" where
  "utf8_valid s \<longleftrightarrow> json_string s = s"

lemma rune_size_take:
  assumes "rune_size bs = n" and "n > 0"
  shows "rune_size (take n bs @ ys) = n"
proof (cases bs)
  case Nil
  with assms show ?thesis by simp
next
  case (Cons b0 cs)
  have n: "need b0 = n" using assms Cons by (auto simp: Let_def split: if_splits)
  show ?thesis
  proof (cases "n \<le> 1")
    case True
    with assms n have "n = 1" by simp
    with n Cons show ?thesis by simp
  next
    case False
    then have len: "n - 1 \<le> length cs"
      and ok: "second_ok b0 (cs ! 0)" "list_all is_cont (take (n - 2) (tl cs))"
      using assms n Cons by (auto simp: Let_def split: if_splits)
    obtain c ds where cs: "cs = c # ds" using False len by (cases cs) auto
    have "take n bs @ ys = b0 # c # (take (n - 2) ds @ ys)"
      using False Cons cs by (cases n; cases "n - 1") auto
    then show ?thesis
      using False n ok len cs by (auto simp: Let_def)
  qed
qed

lemma json_string_rune:
  assumes "rune_size bs = n" and "n > 0"
  shows "json_string (take n bs @ ys) = take n bs @ json_string ys"
proof -
  have "n \<le> length bs" using assms rune_size_le by metis
  then obtain c cs where t: "take n bs = c # cs" and l: "length (c # cs) = n"
    using assms(2) by (cases "take n bs") (auto dest: arg_cong [of _ _ length])
  have "rune_size (c # cs @ ys) = n"
    using rune_size_take [OF assms, of ys] t by simp
  then have "json_string (c # cs @ ys) = take n (c # cs @ ys) @ json_string (drop n (c # cs @ ys))"
    using assms(2) by (simp add: json_string.simps(2) Let_def del: rune_size.simps)
  moreover have "take n (c # cs @ ys) = c # cs" "drop n (c # cs @ ys) = ys"
    using l by auto
  ultimately show ?thesis using t by simp
qed

lemma json_string_RuneError: "json_string (RuneError @ ys) = RuneError @ json_string ys"
  using json_string_rune [of RuneError 3 ys]
  by (simp add: RuneError_def Let_def need_def second_ok_def is_cont_def)

lemma json_string_idem [simp]: "json_string (json_string s) = json_string s"
proof (induction s rule: json_string.induct)
  case 1
  then show ?case by simp
next
  case (2 b bs)
  let ?n = "rune_size (b # bs)"
  show ?case
  proof (cases "?n = 0")
    case True
    with 2 show ?thesis
      by (simp add: json_string.simps(2) [of b bs] Let_def json_string_RuneError del: rune_size.simps)
  next
    case False
    with 2 have "json_string (json_string (drop ?n (b # bs))) = json_string (drop ?n (b # bs))"
      by (simp del: rune_size.simps drop.simps)
    with False json_string_rune [of "b # bs" ?n] show ?thesis
      by (simp add: json_string.simps(2) [of b bs] Let_def del: rune_size.simps)
  qed
qed

lemma utf8_valid_json_string [simp]: "utf8_valid (json_string s)"
  by (simp add: utf8_valid_def)

lemma is_cont_not_FF: "is_cont b \<Longrightarrow> b \<noteq> 0xFF"
  by (auto simp: is_cont_def)

lemma rune_no_FF: "0xFF \<notin> set (take (rune_size bs) bs)"
proof (cases bs)
  case Nil
  then show ?thesis by simp
next
  case (Cons b0 cs)
  show ?thesis
  proof (cases "need b0 \<le> 1 \<or> rune_size bs = 0")
    case True
    then have "need b0 = 0 \<or> (need b0 = 1 \<and> b0 \<noteq> 0xFF) \<or> rune_size bs = 0"
      by (auto simp: need_def)
    then show ?thesis using Cons True by auto
  next
    case False
    then have n: "rune_size bs = need b0" "\<not> need b0 \<le> 1"
      and len: "need b0 - 1 \<le> length cs"
      and ok: "second_ok b0 (cs ! 0)" "list_all is_cont (take (need b0 - 2) (tl cs))"
      using Cons by (auto simp: Let_def split: if_splits)
    have b0: "b0 \<noteq> 0xFF" using n(2) by (auto simp: need_def)
    obtain c ds where cs: "cs = c # ds" using n len by (cases cs) auto
    have "c \<noteq> 0xFF"
      using ok cs by (auto simp: second_ok_def is_cont_def split: if_splits)
    moreover have "take (need b0) bs = b0 # c # take (need b0 - 2) ds"
      using n Cons cs by (cases "need b0"; cases "need b0 - 1") auto
    ultimately show ?thesis
      using b0 n ok cs is_cont_not_FF by (auto simp: list_all_iff)
  qed
qed

lemma json_string_no_FF: "0xFF \<notin> set (json_string s)"
proof (induction s rule: json_string.induct)
  case 1
  then show ?case by simp
next
  case (2 b bs)
  then show ?case
    using rune_no_FF [of "b # bs"]
    by (auto simp: json_string.simps(2) [of b bs] Let_def RuneError_def simp del: rune_size.simps)
qed

end
