(* ===== verification/Snapshot.thy ===== *)
theory Snapshot
  imports Store_Spec Go_Utf8 "HOL-Library.AList" "HOL-Library.Multiset"
begin

text \<open>
  Snapshots of the store: \<open>GetSnapshotData\<close> and \<open>RestoreSnapshot\<close> of
  \<^verbatim>\<open>internal/storage/memory.go\<close>.  A snapshot is the JSON object of the Go map from raw keys
  to values.  JSON text is modelled by what it denotes: the members of the object in the
  order of the text.  Byte slices become base64 strings and come back unchanged, \<open>nil\<close>
  becomes \<open>null\<close>; a member name is a Go string, and \<^verbatim>\<open>encoding/json\<close> replaces every byte of
  a string that is not part of a well-formed UTF-8 sequence by U+FFFD, when it writes and
  when it reads.
\<close>

section \<open>Timestamps are not text\<close>

lemma small_ts_not_utf8: "ts < 2 ^ 56 \<Longrightarrow> \<not> utf8_valid (EncodeKey key ts)"
  using PutUint64_small_ts [of ts] json_string_no_FF [of "EncodeKey key ts"]
  by (auto simp: utf8_valid_def EncodeKey_def Let_def)

section \<open>The snapshot operations\<close>

text \<open>
  A Go map is an association list without duplicates; \<open>range_order\<close> is the unspecified order
  in which \<^verbatim>\<open>range\<close> visits it.  \<open>JNull\<close> is the document \<open>null\<close>, and \<open>JOther\<close> stands for
  everything that does not decode into a map.
\<close>

datatype json_doc = JObject "(bytes \<times> slice) list" | JNull | JOther

datatype json_error = JsonDecodeError

text \<open>The encoder sorts the members by their keys.\<close>

definition json_Encode :: "(bytes \<times> slice) list \<Rightarrow> json_doc" where
  "json_Encode m = JObject (map (\<lambda>(k, v). (json_string k, v)) (sort_key fst m))"

fun json_Decode :: "json_doc \<Rightarrow> json_error + (bytes \<times> slice) list" where
  "json_Decode (JObject ms) = Inr (fold (\<lambda>(k, v) m. AList.update (json_string k) v m) ms [])"
| "json_Decode JNull = Inr []"
| "json_Decode JOther = Inl JsonDecodeError"

definition GetSnapshotData :: "'t btree_ops \<Rightarrow> 't MemoryStore \<Rightarrow> json_doc" where
  "GetSnapshotData B s =
     (let data = fold (\<lambda>it data. AList.update (item_key it) (item_value it) data)
                   (bt_Ascend B (ms_tree s)) []
      in json_Encode data)"

definition RestoreSnapshot ::
  "'t btree_ops \<Rightarrow> ((bytes \<times> slice) list \<Rightarrow> (bytes \<times> slice) list) \<Rightarrow> 't MemoryStore \<Rightarrow> json_doc \<Rightarrow>
   't MemoryStore \<times> json_error option" where
  "RestoreSnapshot B range_order s data =
     (case json_Decode data of
        Inl err \<Rightarrow> (s, Some err)
      | Inr kvs \<Rightarrow>
          (s\<lparr>ms_tree := fold (\<lambda>(k, v) t. bt_ReplaceOrInsert B t (mk_item k v)) (range_order kvs)
                          (bt_Clear B (ms_tree s))\<rparr>, None))"

lemma fold_alist_update:
  "distinct (map fst m) \<Longrightarrow>
   distinct (map fst (fold (\<lambda>x. AList.update (f x) (g x)) xs m)) \<and>
   map_of (fold (\<lambda>x. AList.update (f x) (g x)) xs m) = map_of m ++ map_of (rev (map (\<lambda>x. (f x, g x)) xs))"
proof (induction xs arbitrary: m)
  case Nil
  then show ?case by simp
next
  case (Cons x xs)
  then show ?case
    using Cons.IH [of "AList.update (f x) (g x) m"]
    by (auto simp: distinct_update update_conv' map_add_def fun_eq_iff split: option.splits)
qed

lemma map_of_mset_eq:
  assumes "mset xs = mset ys" and "distinct (map fst ys)"
  shows "map_of (rev xs) = map_of ys"
proof -
  have "mset (map fst xs) = mset (map fst ys)" using assms(1) by simp
  then have "distinct (map fst xs)" using assms(2) mset_eq_imp_distinct_iff by blast
  moreover have "set xs = set ys" using assms(1) by (rule mset_eq_setD)
  ultimately show ?thesis
    using assms(2) by (simp add: map_of_rev_distinct map_of_inject_set)
qed

text \<open>What a snapshot denotes: the pairs of the store in key order, with their keys as JSON writes them.\<close>

definition snapshot_pairs :: "'t btree_ops \<Rightarrow> 't MemoryStore \<Rightarrow> (bytes \<times> slice) list" where
  "snapshot_pairs B s = map (\<lambda>it. (json_string (item_key it), item_value it)) (bt_Ascend B (ms_tree s))"

lemma fold_update_fresh:
  "distinct (map fst m @ map f xs) \<Longrightarrow>
   fold (\<lambda>x. AList.update (f x) (g x)) xs m = m @ map (\<lambda>x. (f x, g x)) xs"
proof (induction xs arbitrary: m)
  case Nil
  then show ?case by simp
next
  case (Cons x xs)
  have "AList.update (f x) (g x) m = m @ [(f x, g x)]"
    using Cons.prems by (induction m) auto
  with Cons show ?case by simp
qed

context btree_api
begin

lemma GetSnapshotData_pairs:
  assumes "tinv (ms_tree s)"
  shows "GetSnapshotData B s = JObject (snapshot_pairs B s)"
proof -
  let ?a = "bt_Ascend B (ms_tree s)"
  have "fold (\<lambda>it. AList.update (item_key it) (item_value it)) ?a [] = map entry ?a"
    using fold_update_fresh [of "[]" item_key ?a item_value] distinct_item_keys [OF assms]
    by (simp add: entry_def [abs_def])
  moreover have "sort_key fst (map entry ?a) = map entry ?a"
    using Ascend_sorted [OF assms]
    by (intro sort_key_id_if_sorted)
       (simp add: sorted_wrt_item_Less strict_sorted_iff entry_def comp_def)
  ultimately show ?thesis
    by (simp add: GetSnapshotData_def json_Encode_def snapshot_pairs_def entry_def Let_def comp_def)
qed

lemma RestoreSnapshot_tree_map:
  assumes "tinv (ms_tree s)" and "tinv (ms_tree s')" and "\<forall>xs. mset (range_order xs) = mset xs"
  shows "snd (RestoreSnapshot B range_order s' (GetSnapshotData B s)) = None"
    and "tree_map B (ms_tree (fst (RestoreSnapshot B range_order s' (GetSnapshotData B s)))) =
         map_of (rev (snapshot_pairs B s))"
    and "ms_locks (fst (RestoreSnapshot B range_order s' (GetSnapshotData B s))) = ms_locks s'"
    and "tinv (ms_tree (fst (RestoreSnapshot B range_order s' (GetSnapshotData B s))))"
proof -
  define kvs where "kvs = fold (\<lambda>x. AList.update (json_string (fst x)) (snd x)) (snapshot_pairs B s) []"
  have dec: "json_Decode (GetSnapshotData B s) = Inr kvs"
    by (simp add: GetSnapshotData_pairs [OF assms(1)] kvs_def split_def)
  have kvs: "distinct (map fst kvs)" "map_of kvs = map_of (rev (map (\<lambda>x. (json_string (fst x), snd x)) (snapshot_pairs B s)))"
    using fold_alist_update [of "[]" "\<lambda>x. json_string (fst x)" snd] by (auto simp: kvs_def)
  have pairs: "map (\<lambda>x. (json_string (fst x), snd x)) (snapshot_pairs B s) = snapshot_pairs B s"
    by (simp add: snapshot_pairs_def comp_def)
  show "snd (RestoreSnapshot B range_order s' (GetSnapshotData B s)) = None"
    and "ms_locks (fst (RestoreSnapshot B range_order s' (GetSnapshotData B s))) = ms_locks s'"
    and "tinv (ms_tree (fst (RestoreSnapshot B range_order s' (GetSnapshotData B s))))"
    using assms(2) by (simp_all add: RestoreSnapshot_def dec fold_insert_inv inv_Clear)
  show "tree_map B (ms_tree (fst (RestoreSnapshot B range_order s' (GetSnapshotData B s)))) =
      map_of (rev (snapshot_pairs B s))"
    using map_of_mset_eq [of "range_order kvs" kvs] assms kvs pairs
    by (simp add: RestoreSnapshot_def dec fold_insert_tree_map inv_Clear tree_map_Clear)
qed

lemma snapshot_pairs_valid:
  assumes "tinv (ms_tree s)" and "\<forall>raw \<in> dom (tree_map B (ms_tree s)). utf8_valid raw"
  shows "map_of (rev (snapshot_pairs B s)) = tree_map B (ms_tree s)"
proof -
  have p: "snapshot_pairs B s = map entry (bt_Ascend B (ms_tree s))"
    using assms(2) by (auto simp: snapshot_pairs_def entry_def dom_tree_map utf8_valid_def)
  have "distinct (map fst (map entry (bt_Ascend B (ms_tree s))))"
    using distinct_item_keys [OF assms(1)] by (simp add: entry_def comp_def)
  then show ?thesis
    unfolding p tree_map_def by (rule map_of_rev_distinct)
qed

lemma snapshot_pairs_invalid: "\<not> utf8_valid raw \<Longrightarrow> map_of (rev (snapshot_pairs B s)) raw = None"
  by (auto simp: snapshot_pairs_def map_of_eq_None_iff)

end

section \<open>Properties\<close>

text \<open>
  (C33) Snapshots of stores whose raw keys are all well-formed UTF-8 lose no version: restoring
  the snapshot of \<open>s\<close> over any store \<open>s'\<close>, in whatever order the decoded map is visited,
  succeeds and gives exactly the versions of \<open>s\<close>; the intents are those \<open>s'\<close> had before.
\<close>

theorem snapshot_roundtrip:
  assumes "btree_api B tinv" and "store_inv B tinv s" and "store_inv B tinv s'"
    and "\<forall>xs. mset (range_order xs) = mset xs"
    and "\<forall>raw \<in> dom (tree_map B (ms_tree s)). utf8_valid raw"
    and "RestoreSnapshot B range_order s' (GetSnapshotData B s) = (r, err)"
  shows "err = None \<and> versions (view B r) = versions (view B s) \<and> intents (view B r) = intents (view B s')
    \<and> store_inv B tinv r"
proof -
  note inv = btree_api.store_invD(1) [OF assms(1)]
  note r = btree_api.RestoreSnapshot_tree_map [OF assms(1) inv inv assms(4), OF assms(2,3)]
  note v = btree_api.snapshot_pairs_valid [OF assms(1) inv assms(5), OF assms(2)]
  show ?thesis
    using r v assms(2,6) by (auto simp: store_inv_def fun_eq_iff)
qed

theorem snapshot_roundtrip_witness:
  "\<exists>s. versions (view sl_btree s) (lit ''k'') MaxUint64 = Some (Some (lit ''v'')) \<and>
     versions (view sl_btree (fst (RestoreSnapshot sl_btree id (NewMemoryStore sl_btree)
       (GetSnapshotData sl_btree s)))) = versions (view sl_btree s)"
proof -
  define s where "s = write_version sl_btree (lit ''k'') (lit ''v'') MaxUint64 (NewMemoryStore sl_btree)"
  have inv: "store_inv sl_btree sl_inv s" unfolding s_def by code_simp
  have "\<forall>raw \<in> dom (tree_map sl_btree (ms_tree s)). utf8_valid raw"
    unfolding s_def dom_tree_map by code_simp
  then have "versions (view sl_btree (fst (RestoreSnapshot sl_btree id (NewMemoryStore sl_btree)
       (GetSnapshotData sl_btree s)))) = versions (view sl_btree s)"
    using snapshot_roundtrip [OF sl.btree_api_axioms inv sl.store_inv_New, of id] by (simp add: prod_eq_iff)
  moreover have "versions (view sl_btree s) (lit ''k'') MaxUint64 = Some (Some (lit ''v''))"
    unfolding s_def by code_simp
  ultimately show ?thesis by blast
qed

text \<open>
  (C37) A version whose raw key is not well-formed UTF-8 does not survive a snapshot, and no
  version with a commit timestamp below \<open>2 ^ 56\<close> has a well-formed raw key: so every
  version written by \<open>Put\<close>, at timestamp 1, or by a replicated \<open>INSERT\<close>, at timestamp 100,
  is gone after a restore.
\<close>

theorem snapshot_loses_versions:
  assumes "btree_api B tinv" and "store_inv B tinv s" and "store_inv B tinv s'"
    and "\<forall>xs. mset (range_order xs) = mset xs"
  shows "(\<not> utf8_valid (EncodeKey key ts) \<longrightarrow>
      versions (view B (fst (RestoreSnapshot B range_order s' (GetSnapshotData B s)))) key ts = None)
    \<and> (ts < 2 ^ 56 \<longrightarrow>
      versions (view B (fst (RestoreSnapshot B range_order s' (GetSnapshotData B s)))) key ts = None)"
proof -
  note inv = btree_api.store_invD(1) [OF assms(1)]
  note r = btree_api.RestoreSnapshot_tree_map(2) [OF assms(1) inv inv assms(4), OF assms(2,3)]
  show ?thesis
    using small_ts_not_utf8 [of ts key]
    by (auto simp: r btree_api.snapshot_pairs_invalid [OF assms(1)])
qed

theorem snapshot_loses_versions_witness:
  "versions (view sl_btree sample_store) (lit ''k'') 20 = Some (Some (lit ''v20'')) \<and>
   versions (view sl_btree (fst (RestoreSnapshot sl_btree id (NewMemoryStore sl_btree)
     (GetSnapshotData sl_btree sample_store)))) (lit ''k'') 20 = None"
proof -
  have inv: "store_inv sl_btree sl_inv sample_store" by code_simp
  have "versions (view sl_btree sample_store) (lit ''k'') 20 = Some (Some (lit ''v20''))"
    by code_simp
  moreover have "(20 :: u64) < 2 ^ 56" by simp
  ultimately show ?thesis
    using snapshot_loses_versions [OF sl.btree_api_axioms inv sl.store_inv_New, of id "lit ''k''" 20]
    by simp
qed

end
