(* ===== verification/Go_Strings.thy ===== *)
theory Go_Strings
  imports Go_Lib
begin

text \<open>
  The functions of Go's \<^verbatim>\<open>strings\<close> and \<^verbatim>\<open>fmt\<close> packages that the sources use, on byte
  strings: prefixes, splitting at a one-byte separator, joining, the ASCII parts of
  \<^verbatim>\<open>ToUpper\<close> and \<^verbatim>\<open>TrimSpace\<close>, and the decimal format of unsigned integers.
\<close>

section \<open>Prefixes and splitting\<close>

definition HasPrefix :: "bytes \<Rightarrow> bytes \<Rightarrow> bool" where
  "HasPrefix s pre \<longleftrightarrow> take (length pre) s = pre"

definition TrimPrefix :: "bytes \<Rightarrow> bytes \<Rightarrow> bytes" where
  "TrimPrefix s pre = (if HasPrefix s pre then drop (length pre) s else s)"

definition HasSuffix :: "bytes \<Rightarrow> bytes \<Rightarrow> bool" where
  "HasSuffix s suf \<longleftrightarrow> length suf \<le> length s \<and> drop (length s - length suf) s = suf"

text \<open>\<^verbatim>\<open>strings.Split\<close> at a one-byte separator, and \<^verbatim>\<open>strings.SplitN\<close> with \<open>n = 2\<close>.\<close>

fun Split :: "bytes \<Rightarrow> byte \<Rightarrow> bytes list" where
  "Split [] sep = [[]]"
| "Split (c # cs) sep =
     (if c = sep then [] # Split cs sep
      else case Split cs sep of [] \<Rightarrow> [[c]] | p # ps \<Rightarrow> (c # p) # ps)"

definition SplitN2 :: "bytes \<Rightarrow> byte \<Rightarrow> bytes list" where
  "SplitN2 s sep =
     (let before = takeWhile (\<lambda>c. c \<noteq> sep) s
      in if length before = length s then [s] else [before, drop (length before + 1) s])"

fun Join :: "bytes list \<Rightarrow> bytes \<Rightarrow> bytes" where
  "Join [] sep = []"
| "Join [p] sep = p"
| "Join (p # q # ps) sep = p @ sep @ Join (q # ps) sep"

lemma HasPrefix_iff: "HasPrefix s pre \<longleftrightarrow> prefix pre s"
  unfolding HasPrefix_def prefix_def by (metis append_eq_conv_conj append_take_drop_id)

lemma HasPrefix_append [simp]: "HasPrefix (pre @ s) pre"
  by (simp add: HasPrefix_def)

lemma TrimPrefix_append [simp]: "TrimPrefix (pre @ s) pre = s"
  by (simp add: TrimPrefix_def)

lemma Split_not_Nil [simp]: "Split s sep \<noteq> []"
  by (cases s) (auto split: list.split)

lemma Split_no_sep: "sep \<notin> set s \<Longrightarrow> Split s sep = [s]"
  by (induction s) auto

lemma Split_append: "sep \<notin> set p \<Longrightarrow> Split (p @ sep # s) sep = p # Split s sep"
  by (induction p) auto

lemma length_Split: "length (Split s sep) = Suc (count_list s sep)"
  by (induction s) (auto split: list.split)

lemma Join_Split: "Join (Split s sep) [sep] = s"
proof (induction s)
  case Nil
  then show ?case by simp
next
  case (Cons c cs)
  obtain p ps where "Split cs sep = p # ps" by (cases "Split cs sep") auto
  with Cons show ?case by (cases ps) auto
qed

lemma Split_Join:
  "ps \<noteq> [] \<Longrightarrow> \<forall>p \<in> set ps. sep \<notin> set p \<Longrightarrow> Split (Join ps [sep]) sep = ps"
proof (induction ps rule: induct_list012)
  case (3 p q ps)
  then show ?case by (simp add: Split_append)
qed (auto simp: Split_no_sep)

lemma SplitN2_append: "sep \<notin> set p \<Longrightarrow> SplitN2 (p @ sep # s) sep = [p, s]"
  by (simp add: SplitN2_def Let_def takeWhile_append)

section \<open>Case and white space\<close>

definition ToUpper :: "bytes \<Rightarrow> bytes" where
  "ToUpper s = map (\<lambda>c. if 97 \<le> c \<and> c \<le> 122 then c - 32 else c) s"

definition is_space :: "byte \<Rightarrow> bool" where
  "is_space c \<longleftrightarrow> c \<in> {9, 10, 11, 12, 13, 32}"

definition TrimSpace :: "bytes \<Rightarrow> bytes" where
  "TrimSpace s = rev (dropWhile is_space (rev (dropWhile is_space s)))"

section \<open>Decimal numbers\<close>

text \<open>\<^verbatim>\<open>fmt.Sprintf("%d", n)\<close>.\<close>

fun Sprint_d :: "nat \<Rightarrow> bytes" where
  "Sprint_d n =
     (if n < 10 then [of_nat (48 + n)] else Sprint_d (n div 10) @ [of_nat (48 + n mod 10)])"

declare Sprint_d.simps [simp del]

definition is_digit :: "byte \<Rightarrow> bool" where
  "is_digit c \<longleftrightarrow> 48 \<le> c \<and> c \<le> 57"

definition digits_nat :: "bytes \<Rightarrow> nat" where
  "digits_nat ds = fold (\<lambda>c acc. acc * 10 + (unat c - 48)) ds 0"

text \<open>
  \<^verbatim>\<open>fmt.Sscanf(s, "%d", &v)\<close> for an unsigned 64-bit \<open>v\<close> that is 0 before: leading blanks
  are skipped, the longest run of digits is the number; without a digit, and when the number
  does not fit, \<open>v\<close> stays 0.
\<close>

definition Sscan_d :: "bytes \<Rightarrow> u64" where
  "Sscan_d s =
     (let n = digits_nat (takeWhile is_digit (dropWhile (\<lambda>c. is_space c \<and> c \<noteq> 10) s))
      in if n < 2 ^ 64 then of_nat n else 0)"

lemma digit_byte: "d < 10 \<Longrightarrow> is_digit (of_nat (48 + d)) \<and> unat (of_nat (48 + d) :: byte) = 48 + d"
  by (simp add: is_digit_def word_le_nat_alt unat_of_nat del: of_nat_add)

lemma digits_nat_append: "digits_nat (ds @ [c]) = digits_nat ds * 10 + (unat c - 48)"
  by (simp add: digits_nat_def)

lemma Sprint_d_digits: "(\<forall>c \<in> set (Sprint_d n). is_digit c) \<and> digits_nat (Sprint_d n) = n \<and> Sprint_d n \<noteq> []"
proof (induction n rule: Sprint_d.induct)
  case (1 n)
  show ?case
  proof (cases "n < 10")
    case True
    with digit_byte [of n] show ?thesis
      by (simp add: Sprint_d.simps [of n] digits_nat_def del: of_nat_add)
  next
    case False
    with 1 digit_byte [of "n mod 10"] show ?thesis
      by (simp add: Sprint_d.simps [of n] digits_nat_append del: of_nat_add)
  qed
qed

lemma is_digit_not_space: "is_digit c \<Longrightarrow> \<not> is_space c"
  by (auto simp: is_digit_def is_space_def)

lemma Sprint_d_no_space: "32 \<notin> set (Sprint_d n)"
  using Sprint_d_digits [of n] is_digit_not_space [of 32] by (auto simp: is_space_def)

lemma Sscan_d_Sprint_d [simp]: "Sscan_d (Sprint_d (unat ts)) = ts"
proof -
  let ?s = "Sprint_d (unat ts)"
  have d: "\<forall>c \<in> set ?s. is_digit c" "digits_nat ?s = unat ts" "?s \<noteq> []"
    using Sprint_d_digits [of "unat ts"] by auto
  then have "dropWhile (\<lambda>c. is_space c \<and> c \<noteq> 10) ?s = ?s"
    by (cases ?s) (auto dest: is_digit_not_space)
  moreover have "takeWhile is_digit ?s = ?s" using d(1) by simp
  ultimately have "Sscan_d ?s = (if unat ts < 2 ^ 64 then of_nat (unat ts) else 0)"
    using d(2) by (simp only: Sscan_d_def Let_def)
  then show ?thesis
    using unsigned_less [of ts, where 'a = nat] by simp
qed

end
