(* ===== verification/Go_Json.thy ===== *)
theory Go_Json
  imports Go_Utf8 Go_Strings
begin

text \<open>
  The text level of Go's \<^verbatim>\<open>encoding/json\<close>: the values of JSON, how the encoder writes them
  (compact, with the escapes that are safe inside HTML), and the parser behind
  \<^verbatim>\<open>json.Unmarshal\<close>, with its escapes, surrogate pairs, number grammar, limit on nesting and
  treatment of bytes that are not UTF-8.  The main lemma is that parsing gives back what was
  written, up to the coercion of strings to UTF-8.
\<close>

section \<open>Values and the encoder\<close>

datatype json =
    NullV
  | BoolV bool
  | NumV bytes        \<comment> \<open>the literal\<close>
  | StrV bytes
  | ArrV "json list"
  | ObjV "(bytes \<times> json) list"

definition hex_digit :: "byte \<Rightarrow> byte" where
  "hex_digit d = (if d < 10 then 48 + d else 87 + d)"

text \<open>The characters below 0x80 that the encoder copies.\<close>

definition html_safe :: "byte \<Rightarrow> bool" where
  "html_safe b \<longleftrightarrow> 0x20 \<le> b \<and> b < 0x80 \<and> b \<notin> {34, 38, 60, 62, 92}"

definition json_escape :: "byte \<Rightarrow> bytes" where
  "json_escape b =
     (if b = 92 \<or> b = 34 then [92, b]
      else if b = 8 then [92, 98]
      else if b = 12 then [92, 102]
      else if b = 10 then [92, 110]
      else if b = 13 then [92, 114]
      else if b = 9 then [92, 116]
      else [92, 117, 48, 48, hex_digit (b div 16), hex_digit (b mod 16)])"

text \<open>U+2028 and U+2029 are escaped too.\<close>

definition line_separator :: "bytes \<Rightarrow> bool" where
  "line_separator r \<longleftrightarrow> r = [0xE2, 0x80, 0xA8] \<or> r = [0xE2, 0x80, 0xA9]"

definition quote_rune :: "bytes \<Rightarrow> bytes" where
  "quote_rune r =
     (if line_separator r then [92, 117, 50, 48, 50, hex_digit (last r mod 16)]
      else if length r = 1 \<and> \<not> html_safe (hd r) then json_escape (hd r)
      else r)"

function quote_body :: "bytes \<Rightarrow> bytes" where
  "quote_body [] = []"
| "quote_body (b # bs) =
     (let n = rune_size (b # bs) in
      if n = 0 then lit (CHR 0x5C # ''ufffd'') @ quote_body bs
      else quote_rune (take n (b # bs)) @ quote_body (drop n (b # bs)))"
  by pat_completeness auto
termination
  by (relation "measure length") (auto simp del: rune_size.simps)

declare quote_body.simps [simp del]

definition json_quote :: "bytes \<Rightarrow> bytes" where
  "json_quote s = 34 # quote_body s @ [34]"

text \<open>Elements and members are separated by commas, without white space.\<close>

fun json_print :: "json \<Rightarrow> bytes"
  and print_elems :: "json list \<Rightarrow> bytes"
  and print_members :: "(bytes \<times> json) list \<Rightarrow> bytes" where
  "json_print NullV = lit ''null''"
| "json_print (BoolV b) = (if b then lit ''true'' else lit ''false'')"
| "json_print (NumV l) = l"
| "json_print (StrV s) = json_quote s"
| "json_print (ArrV js) = 91 # (if js = [] then [93] else print_elems js)"
| "json_print (ObjV ms) = 123 # (if ms = [] then [125] else print_members ms)"
| "print_elems [] = [93]"
| "print_elems (j # js) = json_print j @ (if js = [] then [93] else 44 # print_elems js)"
| "print_members [] = [125]"
| "print_members ((k, j) # ms) =
     json_quote k @ 58 # json_print j @ (if ms = [] then [125] else 44 # print_members ms)"

section \<open>The parser\<close>

subsection \<open>Strings\<close>

definition hex_val :: "byte \<Rightarrow> nat option" where
  "hex_val c =
     (if 48 \<le> c \<and> c \<le> 57 then Some (unat (c - 48))
      else if 97 \<le> c \<and> c \<le> 102 then Some (unat (c - 87))
      else if 65 \<le> c \<and> c \<le> 70 then Some (unat (c - 55))
      else None)"

text \<open>Four hexadecimal digits.\<close>

fun getu4 :: "bytes \<Rightarrow> nat option" where
  "getu4 (a # b # c # d # _) =
     (case (hex_val a, hex_val b, hex_val c, hex_val d) of
        (Some w, Some x, Some y, Some z) \<Rightarrow> Some (((w * 16 + x) * 16 + y) * 16 + z)
      | _ \<Rightarrow> None)"
| "getu4 _ = None"

definition is_surrogate :: "nat \<Rightarrow> bool" where
  "is_surrogate r \<longleftrightarrow> 0xD800 \<le> r \<and> r < 0xE000"

text \<open>The low half of a surrogate pair, written as a second escape.\<close>

fun low_surrogate :: "nat \<Rightarrow> bytes \<Rightarrow> nat option" where
  "low_surrogate hi (b # u # s) =
     (if b = 92 \<and> u = 117 \<and> hi < 0xDC00
      then (case getu4 s of
              Some lo \<Rightarrow> if 0xDC00 \<le> lo \<and> lo < 0xE000 then Some ((hi - 0xD800) * 1024 + (lo - 0xDC00) + 0x10000) else None
            | None \<Rightarrow> None)
      else None)"
| "low_surrogate hi _ = None"

definition EncodeRune :: "nat \<Rightarrow> bytes" where
  "EncodeRune r =
     (if r < 0x80 then [of_nat r]
      else if r < 0x800 then [of_nat (0xC0 + r div 64), of_nat (0x80 + r mod 64)]
      else if is_surrogate r \<or> 0x110000 \<le> r then RuneError
      else if r < 0x10000 then [of_nat (0xE0 + r div 4096), of_nat (0x80 + r div 64 mod 64), of_nat (0x80 + r mod 64)]
      else [of_nat (0xF0 + r div 262144), of_nat (0x80 + r div 4096 mod 64), of_nat (0x80 + r div 64 mod 64), of_nat (0x80 + r mod 64)])"

definition simple_escape :: "byte \<Rightarrow> byte option" where
  "simple_escape c =
     (if c = 34 \<or> c = 92 \<or> c = 47 then Some c
      else if c = 98 then Some 8
      else if c = 102 then Some 12
      else if c = 110 then Some 10
      else if c = 114 then Some 13
      else if c = 116 then Some 9
      else None)"

definition prepend :: "bytes \<Rightarrow> (bytes \<times> bytes) option \<Rightarrow> (bytes \<times> bytes) option" where
  "prepend p res = map_option (\<lambda>(s, rest). (p @ s, rest)) res"

text \<open>The text after an opening quote: the string and what follows the closing quote.\<close>

function scan_string :: "bytes \<Rightarrow> (bytes \<times> bytes) option" where
  "scan_string [] = None"
| "scan_string (b # bs) =
     (if b = 34 then Some ([], bs)
      else if b = 92
      then (case bs of
              [] \<Rightarrow> None
            | c # cs \<Rightarrow>
                if c = 117
                then (case getu4 cs of
                        None \<Rightarrow> None
                      | Some r \<Rightarrow>
                          if is_surrogate r
                          then (case low_surrogate r (drop 4 cs) of
                                  Some d \<Rightarrow> prepend (EncodeRune d) (scan_string (drop 10 cs))
                                | None \<Rightarrow> prepend RuneError (scan_string (drop 4 cs)))
                          else prepend (EncodeRune r) (scan_string (drop 4 cs)))
                else (case simple_escape c of
                        None \<Rightarrow> None
                      | Some d \<Rightarrow> prepend [d] (scan_string cs)))
      else if b < 32 then None
      else let n = rune_size (b # bs)
           in if n = 0 then prepend RuneError (scan_string bs)
              else prepend (take n (b # bs)) (scan_string (drop n (b # bs))))"
  by pat_completeness auto
termination
  by (relation "measure length") (auto simp del: rune_size.simps)

declare scan_string.simps [simp del]

lemma prepend_Some_iff: "prepend p res = Some (s, r) \<longleftrightarrow> (\<exists>s'. res = Some (s', r) \<and> s = p @ s')"
  by (auto simp: prepend_def)

lemma scan_string_shorter: "scan_string s = Some (x, r) \<Longrightarrow> length r < length s"
proof (induction s arbitrary: x r rule: scan_string.induct)
  case 1
  then show ?case by (simp add: scan_string.simps)
next
  case (2 b bs)
  show ?case
    using 2 by (fastforce simp: scan_string.simps(2) [of b bs] prepend_Some_iff Let_def
        simp del: rune_size.simps split: if_splits list.splits option.splits)
qed

subsection \<open>Numbers, literals and structure\<close>

definition is_ws :: "byte \<Rightarrow> bool" where
  "is_ws c \<longleftrightarrow> c \<in> {32, 9, 10, 13}"

abbreviation skip_ws :: "bytes \<Rightarrow> bytes" where
  "skip_ws s \<equiv> dropWhile is_ws s"

definition scan_int :: "bytes \<Rightarrow> (bytes \<times> bytes) option" where
  "scan_int s =
     (case s of
        [] \<Rightarrow> None
      | c # r \<Rightarrow>
          if c = 48 then Some ([48], r)
          else if is_digit c then Some (takeWhile is_digit s, dropWhile is_digit s) else None)"

definition scan_frac :: "bytes \<Rightarrow> (bytes \<times> bytes) option" where
  "scan_frac s =
     (case s of
        [] \<Rightarrow> Some ([], s)
      | c # r \<Rightarrow>
          if c \<noteq> 46 then Some ([], s)
          else if takeWhile is_digit r = [] then None
          else Some (46 # takeWhile is_digit r, dropWhile is_digit r))"

definition scan_exp :: "bytes \<Rightarrow> (bytes \<times> bytes) option" where
  "scan_exp s =
     (case s of
        [] \<Rightarrow> Some ([], s)
      | c # r \<Rightarrow>
          if c \<noteq> 101 \<and> c \<noteq> 69 then Some ([], s)
          else let sg = takeWhile (\<lambda>x. x = 43 \<or> x = 45) (take 1 r);
                   ds = drop (length sg) r
               in if takeWhile is_digit ds = [] then None
                  else Some (c # sg @ takeWhile is_digit ds, dropWhile is_digit ds))"

definition scan_number :: "bytes \<Rightarrow> (bytes \<times> bytes) option" where
  "scan_number s =
     (let sg = takeWhile (\<lambda>x. x = 45) (take 1 s)
      in case scan_int (drop (length sg) s) of
           None \<Rightarrow> None
         | Some (i, r1) \<Rightarrow>
             (case scan_frac r1 of
                None \<Rightarrow> None
              | Some (f, r2) \<Rightarrow>
                  (case scan_exp r2 of
                     None \<Rightarrow> None
                   | Some (e, r3) \<Rightarrow> Some (sg @ i @ f @ e, r3))))"

definition scan_literal :: "bytes \<Rightarrow> (json \<times> bytes) option" where
  "scan_literal s =
     (if HasPrefix s (lit ''null'') then Some (NullV, drop 4 s)
      else if HasPrefix s (lit ''true'') then Some (BoolV True, drop 4 s)
      else if HasPrefix s (lit ''false'') then Some (BoolV False, drop 5 s)
      else map_option (\<lambda>(l, r). (NumV l, r)) (scan_number s))"

lemma skip_ws_Cons: "skip_ws s = c # r \<Longrightarrow> length r < length s"
  using length_dropWhile_le [of is_ws s] by simp

text \<open>
  \<open>d\<close> is how many more levels may be opened.  The comparisons of lengths always hold
  (\<open>parse_shorter\<close> below); they make the recursion visibly terminate.
\<close>

function parse_value :: "nat \<Rightarrow> bytes \<Rightarrow> (json \<times> bytes) option"
  and parse_elems :: "nat \<Rightarrow> bytes \<Rightarrow> (json list \<times> bytes) option"
  and parse_members :: "nat \<Rightarrow> bytes \<Rightarrow> ((bytes \<times> json) list \<times> bytes) option" where
  "parse_value d s =
     (case skip_ws s of
        [] \<Rightarrow> None
      | c # r \<Rightarrow>
          if c = 34 then map_option (\<lambda>(x, r'). (StrV x, r')) (scan_string r)
          else if c = 91
          then if d = 0 then None
               else if HasPrefix (skip_ws r) [93] then Some (ArrV [], tl (skip_ws r))
               else map_option (\<lambda>(js, r'). (ArrV js, r')) (parse_elems (d - 1) r)
          else if c = 123
          then if d = 0 then None
               else if HasPrefix (skip_ws r) [125] then Some (ObjV [], tl (skip_ws r))
               else map_option (\<lambda>(ms, r'). (ObjV ms, r')) (parse_members (d - 1) r)
          else scan_literal (c # r))"
| "parse_elems d s =
     (case parse_value d s of
        None \<Rightarrow> None
      | Some (j, r) \<Rightarrow>
          (case skip_ws r of
             [] \<Rightarrow> None
           | c # r' \<Rightarrow>
               if c = 93 then Some ([j], r')
               else if c = 44 \<and> length r' < length s
               then map_option (\<lambda>(js, r''). (j # js, r'')) (parse_elems d r')
               else None))"
| "parse_members d s =
     (case skip_ws s of
        [] \<Rightarrow> None
      | c # r \<Rightarrow>
          if c \<noteq> 34 then None
          else case scan_string r of
                 None \<Rightarrow> None
               | Some (k, r1) \<Rightarrow>
                   (case skip_ws r1 of
                      [] \<Rightarrow> None
                    | c1 # r2 \<Rightarrow>
                        if c1 \<noteq> 58 \<or> \<not> length r2 < length s then None
                        else case parse_value d r2 of
                               None \<Rightarrow> None
                             | Some (j, r3) \<Rightarrow>
                                 (case skip_ws r3 of
                                    [] \<Rightarrow> None
                                  | c3 # r4 \<Rightarrow>
                                      if c3 = 125 then Some ([(k, j)], r4)
                                      else if c3 = 44 \<and> length r4 < length s
                                      then map_option (\<lambda>(ms, r'). ((k, j) # ms, r')) (parse_members d r4)
                                      else None)))"
  by pat_completeness auto

termination
  by (relation "measure (\<lambda>x. case x of Inl (d, s) \<Rightarrow> 2 * length s
        | Inr (Inl (d, s)) \<Rightarrow> Suc (2 * length s) | Inr (Inr (d, s)) \<Rightarrow> Suc (2 * length s))")
     (auto dest: skip_ws_Cons)

declare parse_value.simps [simp del] parse_elems.simps [simp del] parse_members.simps [simp del]

text \<open>\<^verbatim>\<open>json.Unmarshal\<close> first checks the whole text: one value and white space, nested at most 10000 deep.\<close>

definition json_parse :: "bytes \<Rightarrow> json option" where
  "json_parse s =
     (case parse_value 10000 s of
        Some (j, r) \<Rightarrow> if skip_ws r = [] then Some j else None
      | None \<Rightarrow> None)"

section \<open>The parser consumes its input\<close>

lemma length_takeWhile_take1: "length (takeWhile P (take 1 s)) \<le> length s"
  by (cases s) auto

lemma scan_int_shorter: "scan_int s = Some (x, r) \<Longrightarrow> length r < length s"
  using length_dropWhile_le [of is_digit "tl s"]
  by (auto simp: scan_int_def split: list.splits if_splits)

lemma scan_frac_le: "scan_frac s = Some (x, r) \<Longrightarrow> length r \<le> length s"
  using length_dropWhile_le [of is_digit "tl s"]
  by (auto simp: scan_frac_def split: list.splits if_splits)

lemma scan_exp_le: "scan_exp s = Some (x, r) \<Longrightarrow> length r \<le> length s"
proof -
  assume a: "scan_exp s = Some (x, r)"
  show ?thesis
  proof (cases s)
    case (Cons c cs)
    have "length (dropWhile is_digit (drop n cs)) \<le> length cs" for n
      using length_dropWhile_le [of is_digit "drop n cs"] by simp
    from le_SucI [OF this] show ?thesis
      using a Cons by (auto simp: scan_exp_def Let_def split: if_splits)
  qed (use a in \<open>simp add: scan_exp_def\<close>)
qed

lemma scan_number_shorter: "scan_number s = Some (l, r) \<Longrightarrow> length r < length s"
proof -
  assume "scan_number s = Some (l, r)"
  then obtain n i r1 f r2 e where "scan_int (drop n s) = Some (i, r1)" "scan_frac r1 = Some (f, r2)" "scan_exp r2 = Some (e, r)"
    by (auto simp: scan_number_def Let_def split: option.splits)
  then have "length r1 < length (drop n s)" "length r2 \<le> length r1" "length r \<le> length r2"
    using scan_int_shorter scan_frac_le scan_exp_le by blast+
  then show ?thesis by simp
qed

lemma scan_literal_shorter: "s \<noteq> [] \<Longrightarrow> scan_literal s = Some (j, r) \<Longrightarrow> length r < length s"
  by (auto simp: scan_literal_def dest: scan_number_shorter split: if_splits)

lemma parse_shorter:
  "parse_value d s = Some (j, r) \<Longrightarrow> length r < length s"
  "parse_elems d s = Some (js, r) \<Longrightarrow> length r < length s"
  "parse_members d s = Some (ms, r) \<Longrightarrow> length r < length s"
proof (induction d s and d s and d s arbitrary: j r and js r and ms r rule: parse_value_parse_elems_parse_members.induct)
  case (1 d s)
  show ?case
  proof (cases "skip_ws s")
    case Nil
    with 1(3) show ?thesis by (simp add: parse_value.simps)
  next
    case (Cons c cs)
    have tl: "length (tl (skip_ws cs)) \<le> length cs" using length_dropWhile_le [of is_ws cs] by simp
    have "length r < length (c # cs)"
      using 1(3) Cons 1(1,2) [OF Cons] scan_string_shorter [of cs] scan_literal_shorter [of "c # cs"] tl
      by (auto simp: parse_value.simps [of d s] less_Suc_eq_le split: if_splits dest: less_imp_le)
    then show ?thesis using skip_ws_Cons [OF Cons] by simp
  qed
next
  case (2 d s)
  from 2(3) obtain j r1 c r' where p: "parse_value d s = Some (j, r1)" "skip_ws r1 = c # r'"
    and c: "c = 93 \<and> r = r' \<or> (\<exists>js'. c = 44 \<and> length r' < length s \<and> parse_elems d r' = Some (js', r))"
    by (auto simp: parse_elems.simps [of d s] split: option.splits list.splits if_splits)
  have "length r' < length s" using 2(1) [OF p(1)] skip_ws_Cons [OF p(2)] by simp
  with c 2(2) [OF p(1) _ p(2)] show ?case by fastforce
next
  case (3 d s)
  from 3(3) obtain c0 r0 k r1 c1 r2 j r3 c r' where p: "skip_ws s = c0 # r0" "\<not> c0 \<noteq> 34" "scan_string r0 = Some (k, r1)"
      "skip_ws r1 = c1 # r2" "\<not> (c1 \<noteq> 58 \<or> \<not> length r2 < length s)" "parse_value d r2 = Some (j, r3)" "skip_ws r3 = c # r'"
    and c: "c = 125 \<and> r = r' \<or> (\<exists>ms'. c = 44 \<and> length r' < length s \<and> parse_members d r' = Some (ms', r))"
    by (auto simp: parse_members.simps [of d s] split: option.splits list.splits if_splits)
  have "length r3 < length r2" using 3(1) [OF p(1,2,3) _ p(4,5,6)] by simp
  then have "length r' < length s" using skip_ws_Cons [OF p(7)] p(5) by simp
  with c 3(2) [OF p(1,2,3) _ p(4,5,6) _ p(7)] show ?case by fastforce
qed

section \<open>Strings come back\<close>

lemma hex_val_digit: "d < 16 \<Longrightarrow> hex_val (hex_digit d) = Some (unat d)"
proof -
  assume "d < 16"
  then have d: "unat d \<in> set [0..<16]" by (simp add: word_less_nat_alt)
  have "list_all (\<lambda>n. hex_val (hex_digit (of_nat n)) = Some n) [0..<16]" by code_simp
  with d have "hex_val (hex_digit (of_nat (unat d))) = Some (unat d)" unfolding list_all_iff by blast
  then show ?thesis by simp
qed

lemma getu4_byte: "getu4 (48 # 48 # hex_digit (b div 16) # hex_digit (b mod 16) # s) = Some (unat b)"
proof -
  have "b div 16 < 16" "b mod 16 < 16"
    by (simp_all add: word_less_nat_alt unat_div unat_mod) (use unat_byte_less [of b] in simp)
  then show ?thesis
    by (simp add: hex_val_digit hex_val_def [of 48] unat_div unat_mod)
qed

lemma scan_string_quote: "scan_string (34 # rest) = Some ([], rest)"
  by (simp add: scan_string.simps)

lemma scan_escape:
  assumes "b < 0x80" and "\<not> html_safe b"
  shows "scan_string (json_escape b @ s) = prepend [b] (scan_string s)"
proof -
  have "\<not> is_surrogate (unat b)" "EncodeRune (unat b) = [b]"
    using assms(1) unat_byte_less [of b] by (auto simp: is_surrogate_def EncodeRune_def word_less_nat_alt)
  then show ?thesis
    by (auto simp: json_escape_def scan_string.simps(2) [of 92] simple_escape_def getu4_byte simp del: getu4.simps)
qed

lemma scan_separator:
  assumes "line_separator r"
  shows "scan_string (quote_rune r @ s) = prepend r (scan_string s)"
proof -
  have q: "quote_rune [0xE2, 0x80, 0xA8] = [92, 117, 50, 48, 50, 56]"
    "quote_rune [0xE2, 0x80, 0xA9] = [92, 117, 50, 48, 50, 57]"
    by code_simp+
  have e: "EncodeRune 0x2028 = [0xE2, 0x80, 0xA8]" "EncodeRune 0x2029 = [0xE2, 0x80, 0xA9]"
    by (simp_all add: EncodeRune_def is_surrogate_def)
  have h: "hex_val 50 = Some 2" "hex_val 48 = Some 0" "hex_val 56 = Some 8" "hex_val 57 = Some 9" by code_simp+
  have g: "getu4 (50 # 48 # 50 # 56 # s) = Some 0x2028" "getu4 (50 # 48 # 50 # 57 # s) = Some 0x2029"
    by (simp_all add: h)
  have n: "\<not> is_surrogate 0x2028" "\<not> is_surrogate 0x2029" by (simp_all add: is_surrogate_def)
  from assms have "r = [0xE2, 0x80, 0xA8] \<or> r = [0xE2, 0x80, 0xA9]" by (simp only: line_separator_def)
  then show ?thesis
    by (elim disjE) (simp_all add: q e g n scan_string.simps(2) [of 92] del: getu4.simps)
qed

lemma rune_size_1: "rune_size (b # bs) = Suc 0 \<longleftrightarrow> b < 0x80"
  by (auto simp: Let_def need_def)

lemma scan_rune:
  assumes "rune_size bs = n" and "n > 0"
  shows "scan_string (quote_rune (take n bs) @ s) = prepend (take n bs) (scan_string s)"
proof -
  obtain b cs where bs: "bs = b # cs" using assms by (cases bs) auto
  let ?r = "take n bs"
  show ?thesis
  proof (cases "line_separator ?r")
    case True
    then show ?thesis by (rule scan_separator)
  next
    case nls: False
    show ?thesis
    proof (cases "n = 1")
      case True
      then have b: "b < 0x80" "?r = [b]" using assms bs rune_size_1 [of b cs] by auto
      show ?thesis
      proof (cases "html_safe b")
        case True
        then have "rune_size (b # s) = Suc 0" "b \<noteq> 34" "b \<noteq> 92" "\<not> b < 32"
          using b rune_size_1 [of b s] by (auto simp: html_safe_def)
        then show ?thesis
          using True nls b by (simp add: quote_rune_def scan_string.simps(2) [of b] Let_def del: rune_size.simps)
      next
        case False
        then show ?thesis using nls b scan_escape [OF b(1) False] by (simp add: quote_rune_def)
      qed
    next
      case False
      then have "\<not> b < 0x80" using assms bs rune_size_1 [of b cs] by (metis One_nat_def)
      then have nb: "b \<noteq> 34" "b \<noteq> 92" "\<not> b < 32" by (auto simp: word_less_nat_alt)
      have len: "length ?r = n" using assms rune_size_le [of bs] by simp
      obtain es where r: "?r = b # es" using assms bs by (cases n) auto
      have rs: "rune_size (b # es @ s) = n" using rune_size_take [OF assms, of s] r by simp
      have "take n (b # es @ s) = b # es" "drop n (b # es @ s) = s" using len r by auto
      then show ?thesis
        using nls nb False len rs assms(2) unfolding r
        by (simp add: quote_rune_def scan_string.simps(2) [of b] Let_def del: rune_size.simps)
    qed
  qed
qed

lemma scan_ufffd: "scan_string (lit (CHR 0x5C # ''ufffd'') @ s) = prepend RuneError (scan_string s)"
  by (simp add: lit_def scan_string.simps(2) [of 92] hex_val_def is_surrogate_def EncodeRune_def RuneError_def)

lemma scan_quote_body: "scan_string (quote_body s @ 34 # rest) = Some (json_string s, rest)"
proof (induction s rule: quote_body.induct)
  case 1
  then show ?case by (simp add: quote_body.simps scan_string_quote)
next
  case (2 b bs)
  let ?n = "rune_size (b # bs)"
  show ?case
  proof (cases "?n = 0")
    case True
    with 2 show ?thesis
      by (simp add: quote_body.simps(2) [of b bs] json_string.simps(2) [of b bs] Let_def scan_ufffd prepend_def
          del: rune_size.simps)
  next
    case False
    have IH: "scan_string (quote_body (drop ?n (b # bs)) @ 34 # rest) = Some (json_string (drop ?n (b # bs)), rest)"
      using 2 False by simp
    show ?thesis
      using False IH scan_rune [OF refl, of "b # bs"]
      by (simp add: quote_body.simps(2) [of b bs] json_string.simps(2) [of b bs] Let_def prepend_def
          del: rune_size.simps take.simps drop.simps)
  qed
qed

section \<open>Values come back\<close>

fun json_coerce :: "json \<Rightarrow> json" where
  "json_coerce (StrV s) = StrV (json_string s)"
| "json_coerce (ArrV js) = ArrV (map json_coerce js)"
| "json_coerce (ObjV ms) = ObjV (map (\<lambda>(k, j). (json_string k, json_coerce j)) ms)"
| "json_coerce j = j"

text \<open>Numbers as \<^verbatim>\<open>strconv.AppendUint\<close> writes them.\<close>

definition plain_number :: "bytes \<Rightarrow> bool" where
  "plain_number l \<longleftrightarrow> l \<noteq> [] \<and> (\<forall>c \<in> set l. is_digit c) \<and> (hd l = 48 \<longrightarrow> l = [48])"

text \<open>Values nested at most \<open>d\<close> deep whose numbers are plain.\<close>

fun json_fits :: "nat \<Rightarrow> json \<Rightarrow> bool" where
  "json_fits d (NumV l) = plain_number l"
| "json_fits d (ArrV js) = (case d of 0 \<Rightarrow> False | Suc d' \<Rightarrow> \<forall>j \<in> set js. json_fits d' j)"
| "json_fits d (ObjV ms) = (case d of 0 \<Rightarrow> False | Suc d' \<Rightarrow> \<forall>(k, j) \<in> set ms. json_fits d' j)"
| "json_fits d _ = True"

text \<open>What may follow a value.\<close>

definition delimited :: "bytes \<Rightarrow> bool" where
  "delimited s \<longleftrightarrow> s = [] \<or> hd s \<in> {10, 44, 93, 125}"

lemma delimited_not_digit: "delimited s \<Longrightarrow> takeWhile is_digit s = [] \<and> dropWhile is_digit s = s"
  by (cases s) (auto simp: delimited_def is_digit_def)

lemma scan_number_plain:
  assumes "plain_number l" and "delimited s"
  shows "scan_number (l @ s) = Some (l, s)"
proof -
  obtain c cs where l: "l = c # cs" and c: "is_digit c" using assms(1) by (cases l) (auto simp: plain_number_def)
  have sg: "takeWhile (\<lambda>x. x = 45) (take 1 (l @ s)) = []" using l c by (auto simp: is_digit_def)
  have i: "scan_int (l @ s) = Some (l, s)"
    using assms l delimited_not_digit [OF assms(2)]
    by (auto simp: scan_int_def plain_number_def takeWhile_append dropWhile_append)
  have "scan_frac s = Some ([], s)" "scan_exp s = Some ([], s)"
    using assms(2) by (cases s; auto simp: scan_frac_def scan_exp_def delimited_def)+
  with sg i show ?thesis by (simp add: scan_number_def Let_def)
qed

lemma scan_literal_plain:
  assumes "plain_number l" and "delimited s"
  shows "scan_literal (l @ s) = Some (NumV l, s)"
proof -
  obtain c cs where l: "l = c # cs" "is_digit c" using assms(1) by (cases l) (auto simp: plain_number_def)
  then have "c \<notin> {110, 116, 102}" by (auto simp: is_digit_def)
  then show ?thesis
    using scan_number_plain [OF assms] l by (simp add: scan_literal_def HasPrefix_def lit_def)
qed

lemma scan_literal_words:
  "scan_literal (lit ''null'' @ s) = Some (NullV, s)"
  "scan_literal (lit ''true'' @ s) = Some (BoolV True, s)"
  "scan_literal (lit ''false'' @ s) = Some (BoolV False, s)"
  by (simp_all add: scan_literal_def HasPrefix_def lit_def)

text \<open>Every value starts with a byte that is neither white space nor a closing bracket.\<close>

lemma json_print_start:
  assumes "json_fits d j"
  shows "\<exists>c r. json_print j = c # r \<and> \<not> is_ws c \<and> c \<noteq> 93 \<and> c \<noteq> 125"
  using assms
  by (cases j) (auto simp: json_quote_def lit_def is_ws_def plain_number_def is_digit_def neq_Nil_conv)

lemma parse_words:
  "parse_value d (lit ''null'' @ s) = Some (NullV, s)"
  "parse_value d (lit ''true'' @ s) = Some (BoolV True, s)"
  "parse_value d (lit ''false'' @ s) = Some (BoolV False, s)"
  using scan_literal_words [of s] by (simp_all add: parse_value.simps lit_def is_ws_def)

lemma parse_plain:
  assumes "plain_number l" and "delimited s"
  shows "parse_value d (l @ s) = Some (NumV l, s)"
proof -
  obtain c cs where l: "l = c # cs" "is_digit c" using assms(1) by (cases l) (auto simp: plain_number_def)
  then have "\<not> is_ws c" "c \<noteq> 34" "c \<noteq> 91" "c \<noteq> 123" by (auto simp: is_digit_def is_ws_def)
  then show ?thesis using scan_literal_plain [OF assms] l by (simp add: parse_value.simps)
qed

lemma parse_string: "parse_value d (json_quote x @ s) = Some (StrV (json_string x), s)"
  by (simp add: parse_value.simps json_quote_def is_ws_def scan_quote_body)

lemma delimiters [simp]: "delimited (44 # s)" "delimited (93 # s)" "delimited (125 # s)" "delimited (10 # s)" "delimited []"
  by (simp_all add: delimited_def)

lemma is_ws_delims [simp]:
  "\<not> is_ws 44" "\<not> is_ws 93" "\<not> is_ws 125" "\<not> is_ws 58" "\<not> is_ws 34" "\<not> is_ws 91" "\<not> is_ws 123"
  by (simp_all add: is_ws_def)

lemma parse_array:
  assumes "js = [] \<or> (skip_ws t \<noteq> [] \<and> hd (skip_ws t) \<noteq> 93 \<and> parse_elems d t = Some (js', s))"
    and "js = [] \<longrightarrow> t = 93 # s \<and> js' = []"
  shows "parse_value (Suc d) (91 # t) = Some (ArrV js', s)"
  using assms by (cases "skip_ws t") (auto simp: parse_value.simps [of "Suc d"] HasPrefix_def)

lemma parse_object:
  assumes "ms = [] \<or> (skip_ws t \<noteq> [] \<and> hd (skip_ws t) \<noteq> 125 \<and> parse_members d t = Some (ms', s))"
    and "ms = [] \<longrightarrow> t = 125 # s \<and> ms' = []"
  shows "parse_value (Suc d) (123 # t) = Some (ObjV ms', s)"
  using assms by (cases "skip_ws t") (auto simp: parse_value.simps [of "Suc d"] HasPrefix_def)

lemma print_elems_start:
  assumes "js \<noteq> []" and "\<forall>j \<in> set js. json_fits d j"
  shows "skip_ws (print_elems js @ s) = print_elems js @ s \<and> print_elems js @ s \<noteq> [] \<and> hd (print_elems js @ s) \<noteq> 93"
proof -
  obtain j js' where js: "js = j # js'" using assms(1) by (cases js) auto
  obtain c r where "json_print j = c # r" "\<not> is_ws c" "c \<noteq> 93"
    using json_print_start [of d j] assms(2) js by auto
  with js show ?thesis by simp
qed

lemma json_parse_print_aux:
  "json_fits d j \<Longrightarrow> delimited s \<Longrightarrow> parse_value d (json_print j @ s) = Some (json_coerce j, s)"
  "js \<noteq> [] \<Longrightarrow> \<forall>j \<in> set js. json_fits d j \<Longrightarrow>
     parse_elems d (print_elems js @ s) = Some (map json_coerce js, s)"
  "ms \<noteq> [] \<Longrightarrow> \<forall>(k, j) \<in> set ms. json_fits d j \<Longrightarrow>
     parse_members d (print_members ms @ s) = Some (map (\<lambda>(k, j). (json_string k, json_coerce j)) ms, s)"
proof (induction j and js and ms arbitrary: d s and d s and d s rule: json_print_print_elems_print_members.induct)
  case (5 js)
  then obtain d' where d: "d = Suc d'" "\<forall>j \<in> set js. json_fits d' j" by (auto split: nat.splits)
  show ?case
  proof (cases "js = []")
    case True
    then show ?thesis by (simp add: d parse_array [of "[]"])
  next
    case False
    then show ?thesis
      using 5(1) [OF False False d(2), of s] print_elems_start [OF False d(2), of s] d
      by (simp add: parse_array [of js])
  qed
next
  case (6 ms)
  then obtain d' where d: "d = Suc d'" "\<forall>(k, j) \<in> set ms. json_fits d' j" by (auto split: nat.splits)
  show ?case
  proof (cases "ms = []")
    case True
    then show ?thesis by (simp add: d parse_object [of "[]"])
  next
    case False
    then obtain k j ms' where "ms = (k, j) # ms'" by (cases ms) auto
    then obtain t where t: "print_members ms @ s = 34 # t" by (simp add: json_quote_def)
    have "parse_members d' (34 # t) = Some (map (\<lambda>(k, j). (json_string k, json_coerce j)) ms, s)"
      using 6(1) [OF False False d(2), of s] t by simp
    then show ?thesis using parse_object [of ms "34 # t" d' _ s] False d t by simp
  qed
next
  case (8 j js)
  have v: "parse_value d (json_print j @ t) = Some (json_coerce j, t)" if "delimited t" for t
    using 8 that by simp
  show ?case
  proof (cases "js = []")
    case True
    then show ?thesis using v [of "93 # s"] by (simp add: parse_elems.simps)
  next
    case False
    have "json_print j \<noteq> []" using json_print_start [of d j] 8(4) by auto
    then show ?thesis
      using v [of "44 # print_elems js @ s"] 8(2) [OF False False, of d s] 8(4) False
      by (simp add: parse_elems.simps [of d "json_print j @ 44 # print_elems js @ s"])
  qed
next
  case (10 k j ms)
  have v: "parse_value d (json_print j @ t) = Some (json_coerce j, t)" if "delimited t" for t
    using 10 that by simp
  let ?m = "\<lambda>t. json_quote k @ 58 # json_print j @ t"
  have q: "?m t = 34 # quote_body k @ 34 # 58 # json_print j @ t" for t by (simp add: json_quote_def)
  show ?case
  proof (cases "ms = []")
    case True
    then show ?thesis using v [of "125 # s"] by (simp add: parse_members.simps [of d "34 # _"] q scan_quote_body)
  next
    case False
    then show ?thesis
      using v [of "44 # print_members ms @ s"] 10(2) [OF False False, of d s] 10(4)
      by (simp add: parse_members.simps [of d "34 # _"] q scan_quote_body)
  qed
qed (simp_all add: parse_words parse_plain parse_string)

text \<open>Parsing what the encoder wrote, with or without the newline of \<^verbatim>\<open>Encoder.Encode\<close>.\<close>

lemma json_parse_print:
  assumes "json_fits 10000 j"
  shows "json_parse (json_print j) = Some (json_coerce j)"
    and "json_parse (json_print j @ [10]) = Some (json_coerce j)"
  using json_parse_print_aux(1) [OF assms, of "[]"] json_parse_print_aux(1) [OF assms, of "[10]"]
  by (simp_all add: json_parse_def is_ws_def)

end
