(* ===== verification/Go_Base64.thy ===== *)
theory Go_Base64
  imports Go_Strings
begin

text \<open>
  The standard base64 encoding of Go's \<^verbatim>\<open>encoding/base64\<close>, in which \<^verbatim>\<open>encoding/json\<close> writes byte
  slices: groups of three bytes become four characters, a shorter last group is padded with
  \<open>=\<close>.  The decoder skips line breaks and does not look at the unused bits of the last group.
\<close>

section \<open>Encoding and decoding\<close>

definition b64_char :: "nat \<Rightarrow> byte" where
  "b64_char n =
     (if n < 26 then of_nat (65 + n)
      else if n < 52 then of_nat (71 + n)
      else if n < 62 then of_nat (n - 4)
      else if n = 62 then 43 else 47)"

definition b64_val :: "byte \<Rightarrow> nat option" where
  "b64_val c =
     (if 65 \<le> c \<and> c \<le> 90 then Some (unat c - 65)
      else if 97 \<le> c \<and> c \<le> 122 then Some (unat c - 71)
      else if 48 \<le> c \<and> c \<le> 57 then Some (unat c + 4)
      else if c = 43 then Some 62
      else if c = 47 then Some 63
      else None)"

fun b64_encode :: "bytes \<Rightarrow> bytes" where
  "b64_encode (a # b # c # r) =
     b64_char (unat a div 4) # b64_char (unat a mod 4 * 16 + unat b div 16) #
     b64_char (unat b mod 16 * 4 + unat c div 64) # b64_char (unat c mod 64) # b64_encode r"
| "b64_encode [a, b] =
     [b64_char (unat a div 4), b64_char (unat a mod 4 * 16 + unat b div 16), b64_char (unat b mod 16 * 4), 61]"
| "b64_encode [a] = [b64_char (unat a div 4), b64_char (unat a mod 4 * 16), 61, 61]"
| "b64_encode [] = []"

fun b64_groups :: "bytes \<Rightarrow> bytes option" where
  "b64_groups (w # x # y # z # r) =
     (case (b64_val w, b64_val x) of
        (Some i, Some j) \<Rightarrow>
          (case b64_val y of
             Some k \<Rightarrow>
               (case b64_val z of
                  Some l \<Rightarrow>
                    map_option (\<lambda>s. of_nat (i * 4 + j div 16) # of_nat (j mod 16 * 16 + k div 4) # of_nat (k mod 4 * 64 + l) # s)
                      (b64_groups r)
                | None \<Rightarrow>
                    if z = 61 \<and> r = [] then Some [of_nat (i * 4 + j div 16), of_nat (j mod 16 * 16 + k div 4)] else None)
           | None \<Rightarrow> if y = 61 \<and> z = 61 \<and> r = [] then Some [of_nat (i * 4 + j div 16)] else None)
      | _ \<Rightarrow> None)"
| "b64_groups [] = Some []"
| "b64_groups _ = None"

definition b64_decode :: "bytes \<Rightarrow> bytes option" where
  "b64_decode s = b64_groups (filter (\<lambda>c. c \<noteq> 10 \<and> c \<noteq> 13) s)"

section \<open>Round trip\<close>

lemma b64_val_char: "n < 64 \<Longrightarrow> b64_val (b64_char n) = Some n"
proof -
  assume "n < 64"
  then have "n \<in> set [0..<64]" by simp
  moreover have "list_all (\<lambda>n. b64_val (b64_char n) = Some n) [0..<64]" by code_simp
  ultimately show ?thesis unfolding list_all_iff by blast
qed

lemma b64_char_plain: "b64_char n \<noteq> 10 \<and> b64_char n \<noteq> 13"
proof (cases "n < 64")
  case True
  then have "n \<in> set [0..<64]" by simp
  moreover have "list_all (\<lambda>n. b64_char n \<noteq> 10 \<and> b64_char n \<noteq> 13) [0..<64]" by code_simp
  ultimately show ?thesis unfolding list_all_iff by blast
qed (simp add: b64_char_def)

lemma sextets:
  fixes a b c :: byte
  shows "unat a div 4 < 64" "unat a mod 4 * 16 + unat b div 16 < 64" "unat b mod 16 * 4 + unat c div 64 < 64"
    "unat c mod 64 < 64" "unat a mod 4 * 16 < 64" "unat b mod 16 * 4 < 64"
  using unat_byte_less [of a] unat_byte_less [of b] unat_byte_less [of c] by linarith+

lemma byte_parts:
  fixes b :: byte
  shows "unat b div 16 div 16 = 0" "unat b div 16 mod 16 = unat b div 16"
    "unat b div 64 div 4 = 0" "unat b div 64 mod 4 = unat b div 64"
  using unat_byte_less [of b] by simp_all

lemma b64_pad: "b64_val 61 = None"
  by code_simp

lemma b64_groups_encode: "b64_groups (b64_encode s) = Some s"
  by (induction s rule: b64_encode.induct)
     (simp_all add: b64_val_char sextets byte_parts b64_pad del: of_nat_add of_nat_mult)

lemma b64_encode_plain: "\<forall>c \<in> set (b64_encode s). c \<noteq> 10 \<and> c \<noteq> 13"
  by (induction s rule: b64_encode.induct) (simp_all add: b64_char_plain)

lemma b64_decode_encode [simp]: "b64_decode (b64_encode s) = Some s"
proof -
  have "filter (\<lambda>c. c \<noteq> 10 \<and> c \<noteq> 13) (b64_encode s) = b64_encode s"
    using b64_encode_plain [of s] by (simp add: filter_id_conv)
  then show ?thesis by (simp add: b64_decode_def b64_groups_encode)
qed

end
