(* ===== verification/Go_Struct.thy ===== *)
theory Go_Struct
  imports Go_Json Go_Base64 "HOL-Library.AList"
begin

text \<open>
  How \<^verbatim>\<open>encoding/json\<close> fills Go values from JSON: the fields of structs (exact name first,
  then equal up to case, later members over earlier ones), numbers, strings and byte slices,
  slices and maps.  A byte slice is a base64 string, \<open>nil\<close> is \<open>null\<close>; the decoder also takes
  an array of numbers for a byte slice.
\<close>

section \<open>Struct fields\<close>

text \<open>
  Names are compared by the least character that folds to the same case: for the ASCII names
  of the structs here that is the upper case letter, also of the long s (U+017F) and of the
  Kelvin sign (U+212A).
\<close>

fun json_fold :: "bytes \<Rightarrow> bytes" where
  "json_fold [] = []"
| "json_fold (c # s) =
     (if HasPrefix (c # s) [0xC5, 0xBF] then 83 # json_fold (drop 1 s)
      else if HasPrefix (c # s) [0xE2, 0x84, 0xAA] then 75 # json_fold (drop 2 s)
      else (if 97 \<le> c \<and> c \<le> 122 then c - 32 else c) # json_fold s)"

definition struct_field :: "bytes list \<Rightarrow> bytes \<Rightarrow> bytes option" where
  "struct_field names k =
     (if k \<in> set names then Some k else find (\<lambda>n. json_fold n = json_fold k) names)"

text \<open>A string and an unsigned 64-bit field; \<open>null\<close> and values of another type leave the field as it is.\<close>

definition string_field :: "bytes \<Rightarrow> json \<Rightarrow> bytes" where
  "string_field old j = (case j of StrV s \<Rightarrow> s | _ \<Rightarrow> old)"

definition uint64_field :: "u64 \<Rightarrow> json \<Rightarrow> u64" where
  "uint64_field old j =
     (case j of
        NumV l \<Rightarrow> if list_all is_digit l \<and> digits_nat l < 2 ^ 64 then of_nat (digits_nat l) else old
      | _ \<Rightarrow> old)"

section \<open>Byte slices\<close>

definition slice_json :: "slice \<Rightarrow> json" where
  "slice_json v = (case v of None \<Rightarrow> NullV | Some b \<Rightarrow> StrV (b64_encode b))"

definition byte_elem :: "json \<Rightarrow> byte option" where
  "byte_elem j =
     (case j of
        NumV l \<Rightarrow> if list_all is_digit l \<and> digits_nat l < 256 then Some (of_nat (digits_nat l)) else None
      | NullV \<Rightarrow> Some 0
      | _ \<Rightarrow> None)"

text \<open>\<open>None\<close> is a type error.\<close>

definition slice_field :: "json \<Rightarrow> slice option" where
  "slice_field j =
     (case j of
        NullV \<Rightarrow> Some None
      | StrV s \<Rightarrow> map_option Some (b64_decode s)
      | ArrV js \<Rightarrow> map_option Some (those (map byte_elem js))
      | _ \<Rightarrow> None)"

lemma b64_char_ascii: "b64_char n < 0x80"
proof (cases "n < 64")
  case True
  then have "n \<in> set [0..<64]" by simp
  moreover have "list_all (\<lambda>n. b64_char n < 0x80) [0..<64]" by code_simp
  ultimately show ?thesis unfolding list_all_iff by blast
qed (simp add: b64_char_def)

lemma b64_encode_ascii: "\<forall>c \<in> set (b64_encode s). c < 0x80"
  by (induction s rule: b64_encode.induct) (simp_all add: b64_char_ascii)

lemma json_string_ascii: "\<forall>c \<in> set s. c < 0x80 \<Longrightarrow> json_string s = s"
proof (induction s)
  case (Cons c s)
  then have "rune_size (c # s) = Suc 0" by (simp add: rune_size_1 del: rune_size.simps)
  with Cons show ?case by (simp add: json_string.simps(2) Let_def del: rune_size.simps)
qed simp

lemma slice_field_json: "slice_field (json_coerce (slice_json v)) = Some v"
  by (cases v) (simp_all add: slice_field_def slice_json_def json_string_ascii b64_encode_ascii)

lemma slice_json_fits [simp]: "json_fits d (slice_json v)"
  by (simp add: slice_json_def split: option.split)

section \<open>Numbers\<close>

lemma those_map_Some: "(\<And>x. x \<in> set xs \<Longrightarrow> f x = Some (g x)) \<Longrightarrow> those (map f xs) = Some (map g xs)"
  by (induction xs) auto

lemma Sprint_d_plain: "plain_number (Sprint_d n)"
proof -
  have "Sprint_d n = [48] \<or> hd (Sprint_d n) \<noteq> 48"
  proof (induction n rule: Sprint_d.induct)
    case (1 n)
    show ?case
    proof (cases "n < 10")
      case True
      then have "n \<in> set [0..<10]" by simp
      moreover have "list_all (\<lambda>n. Sprint_d n = [48] \<or> hd (Sprint_d n) \<noteq> 48) [0..<10]" by code_simp
      ultimately show ?thesis unfolding list_all_iff by blast
    next
      case False
      have ne: "Sprint_d (n div 10) \<noteq> []" using Sprint_d_digits by blast
      have "Sprint_d (n div 10) \<noteq> [48]"
      proof
        assume "Sprint_d (n div 10) = [48]"
        then have "n div 10 = 0" using Sprint_d_digits [of "n div 10"] by (simp add: digits_nat_def)
        with False show False by simp
      qed
      with 1 False ne show ?thesis by (simp add: Sprint_d.simps [of n])
    qed
  qed
  then show ?thesis using Sprint_d_digits [of n] by (auto simp: plain_number_def)
qed

lemma uint64_field_Sprint: "uint64_field old (NumV (Sprint_d (unat ts))) = ts"
  using Sprint_d_digits [of "unat ts"] unsigned_less [of ts, where 'a = nat]
  by (simp add: uint64_field_def list_all_iff)

section \<open>Decoders\<close>

text \<open>
  A decoder changes the value it is given; \<open>None\<close> is an error.  The code that uses them drops
  the value after an error, so nothing is kept of it.  \<open>null\<close> leaves strings, numbers and
  structs as they are.
\<close>

type_synonym 'a decoder = "json \<Rightarrow> 'a \<Rightarrow> 'a option"

definition dec_string :: "bytes decoder" where
  "dec_string j old = (case j of StrV s \<Rightarrow> Some s | NullV \<Rightarrow> Some old | _ \<Rightarrow> None)"

definition ParseUint :: "bytes \<Rightarrow> u64 option" where
  "ParseUint l = (if l \<noteq> [] \<and> list_all is_digit l \<and> digits_nat l < 2 ^ 64 then Some (of_nat (digits_nat l)) else None)"

definition dec_uint64 :: "u64 decoder" where
  "dec_uint64 j old = (case j of NumV l \<Rightarrow> ParseUint l | NullV \<Rightarrow> Some old | _ \<Rightarrow> None)"

definition dec_slice :: "slice decoder" where
  "dec_slice j old = slice_field j"

text \<open>A field of a struct, by its selector and its update.\<close>

definition dec_field :: "('a \<Rightarrow> 'b) \<Rightarrow> (('b \<Rightarrow> 'b) \<Rightarrow> 'a \<Rightarrow> 'a) \<Rightarrow> 'b decoder \<Rightarrow> 'a decoder" where
  "dec_field sel upd d j a = map_option (\<lambda>b. upd (\<lambda>_. b) a) (d j (sel a))"

definition dec_member :: "(bytes \<times> 'a decoder) list \<Rightarrow> bytes \<times> json \<Rightarrow> 'a \<Rightarrow> 'a option" where
  "dec_member fs m a =
     (case Option.bind (struct_field (map fst fs) (fst m)) (map_of fs) of
        None \<Rightarrow> Some a
      | Some d \<Rightarrow> d (snd m) a)"

definition dec_struct :: "(bytes \<times> 'a decoder) list \<Rightarrow> 'a decoder" where
  "dec_struct fs j a =
     (case j of
        ObjV ms \<Rightarrow> fold (\<lambda>m r. Option.bind r (dec_member fs m)) ms (Some a)
      | NullV \<Rightarrow> Some a
      | _ \<Rightarrow> None)"

text \<open>
  A slice with its backing array: an array is decoded into the elements the backing array
  already has, and into zero values \<open>z\<close> after them.
\<close>

definition dec_array :: "'a \<Rightarrow> 'a decoder \<Rightarrow> ('a list option \<times> 'a list) decoder" where
  "dec_array z d j old =
     (case j of
        ArrV js \<Rightarrow>
          if js = [] then Some (Some [], [])
          else map_option (\<lambda>xs. (Some xs, xs @ drop (length js) (snd old)))
                 (those (map2 d js (snd old @ replicate (length js) z)))
      | NullV \<Rightarrow> Some (None, [])
      | _ \<Rightarrow> None)"

text \<open>A map with \<^verbatim>\<open>uint64\<close> keys; every element starts from the zero value.\<close>

definition dec_entry :: "'a \<Rightarrow> 'a decoder \<Rightarrow> bytes \<times> json \<Rightarrow> (u64 \<times> 'a) list \<Rightarrow> (u64 \<times> 'a) list option" where
  "dec_entry z d m xs =
     (case (ParseUint (fst m), d (snd m) z) of
        (Some k, Some x) \<Rightarrow> Some (AList.update k x xs)
      | _ \<Rightarrow> None)"

definition dec_map :: "'a \<Rightarrow> 'a decoder \<Rightarrow> (u64 \<times> 'a) list option decoder" where
  "dec_map z d j old =
     (case j of
        ObjV ms \<Rightarrow>
          map_option Some
            (fold (\<lambda>m r. Option.bind r (dec_entry z d m)) ms (Some (case old of None \<Rightarrow> [] | Some xs \<Rightarrow> xs)))
      | NullV \<Rightarrow> Some None
      | _ \<Rightarrow> None)"

definition uint64_json :: "u64 \<Rightarrow> json" where
  "uint64_json n = NumV (Sprint_d (unat n))"

lemma uint64_json_fits [simp]: "json_fits d (uint64_json n)"
  by (simp add: uint64_json_def Sprint_d_plain)

lemma ParseUint_Sprint: "ParseUint (Sprint_d (unat n)) = Some n"
  using Sprint_d_digits [of "unat n"] unsigned_less [of n, where 'a = nat]
  by (simp add: ParseUint_def list_all_iff)

lemma dec_values [simp]:
  "dec_string (StrV s) old = Some s"
  "dec_uint64 (json_coerce (uint64_json n)) m = Some n"
  "dec_slice (json_coerce (slice_json v)) w = Some v"
  by (simp_all add: dec_string_def dec_uint64_def uint64_json_def ParseUint_Sprint dec_slice_def slice_field_json)

lemma struct_field_exact: "k \<in> set names \<Longrightarrow> struct_field names k = Some k"
  by (simp add: struct_field_def)

lemma dec_struct_Nil [simp]: "dec_struct fs (ObjV []) a = Some a"
  by (simp add: dec_struct_def)

lemma bind_fold_None: "fold (\<lambda>m r. Option.bind r (f m)) ms None = None"
  by (induction ms) simp_all

text \<open>The members of an object one after the other.\<close>

lemma dec_struct_Cons:
  assumes "k \<in> set (map fst fs)" and "map_of fs k = Some d"
  shows "dec_struct fs (ObjV ((k, j) # ms)) a = Option.bind (d j a) (dec_struct fs (ObjV ms))"
  using assms
  by (cases "d j a") (simp_all add: dec_struct_def dec_member_def struct_field_exact bind_fold_None)

lemma dec_array_fresh:
  assumes "\<And>x. x \<in> set xs \<Longrightarrow> d (f x) z = Some (g x)"
  shows "dec_array z d (ArrV (map f xs)) (old, []) = Some (Some (map g xs), map g xs)"
proof -
  have "map2 d (map f xs) (replicate (length xs) z) = map (\<lambda>x. d (f x) z) xs"
    by (induction xs) auto
  moreover have "those (map (\<lambda>x. d (f x) z) xs) = Some (map g xs)"
    using assms by (rule those_map_Some)
  ultimately show ?thesis by (simp add: dec_array_def)
qed

lemma dec_map_fresh:
  assumes "\<And>x. x \<in> set xs \<Longrightarrow> d (f x) z = Some (g x)" and "distinct (map k xs)"
  shows "dec_map z d (ObjV (map (\<lambda>x. (Sprint_d (unat (k x)), f x)) xs)) None = Some (Some (map (\<lambda>x. (k x, g x)) xs))"
proof -
  have "fold (\<lambda>m r. Option.bind r (dec_entry z d m)) (map (\<lambda>x. (Sprint_d (unat (k x)), f x)) xs) (Some ys) =
      Some (ys @ map (\<lambda>x. (k x, g x)) xs)" if "distinct (map fst ys @ map k xs)" for ys
    using that assms(1)
  proof (induction xs arbitrary: ys)
    case Nil
    then show ?case by simp
  next
    case (Cons x xs)
    have "AList.update (k x) (g x) ys = ys @ [(k x, g x)]"
      using Cons.prems(1) by (induction ys) auto
    with Cons show ?case by (simp add: dec_entry_def ParseUint_Sprint)
  qed
  from this [of "[]"] assms(2) show ?thesis by (simp add: dec_map_def)
qed

end
