(* ===== verification/Meta_Store.thy ===== *)
theory Meta_Store
  imports Go_Lib Go_Struct
begin

text \<open>
  The cluster metadata of \<^verbatim>\<open>internal/meta/store.go\<close>: the range map, its lookup by binary
  search and the commands the meta group applies.  A \<open>nil\<close> start key is minus infinity, a
  \<open>nil\<close> end key plus infinity.  Commands and snapshots are JSON texts.  Panics of the code (an index out of range, a write to a \<open>nil\<close>
  map) are values.
\<close>

section \<open>State\<close>

record Range =
  r_StartKey :: slice
  r_EndKey :: slice
  r_ShardID :: u64

record ShardConfig =
  sc_ID :: u64
  sc_Addrs :: "bytes list option"     \<comment> \<open>\<open>None\<close> is \<open>nil\<close>\<close>

record MetaStore =
  meta_Ranges :: "Range list"
  meta_Shards :: "(u64 \<times> ShardConfig) list option"   \<comment> \<open>a Go map without duplicates; \<open>None\<close> is a \<open>nil\<close> map\<close>

datatype panic = IndexOutOfRange | NilMapWrite

definition NewMetaStore :: MetaStore where
  "NewMetaStore = \<lparr>
     meta_Ranges = [\<lparr>r_StartKey = None, r_EndKey = None, r_ShardID = 1\<rparr>],
     meta_Shards = Some []\<rparr>"

section \<open>Lookup\<close>

text \<open>The predicate both binary searches use: the range starts after the key.\<close>

definition starts_after :: "bytes \<Rightarrow> Range \<Rightarrow> bool" where
  "starts_after key r =
     (case r_StartKey r of None \<Rightarrow> False | Some st \<Rightarrow> bytes_Compare st key > 0)"

definition GetShard :: "MetaStore \<Rightarrow> bytes \<Rightarrow> panic + u64" where
  "GetShard s key =
     (let rs = meta_Ranges s;
          idx = sort_Search (length rs) (\<lambda>i. starts_after key (rs ! i))
      in if idx = 0
         then (case rs of
                 [] \<Rightarrow> Inl IndexOutOfRange
               | r # _ \<Rightarrow> if r_StartKey r = None then Inr (r_ShardID r) else Inr 0)
         else Inr (r_ShardID (rs ! (idx - 1))))"

section \<open>Commands\<close>

record Command =
  cmd_Op :: bytes
  cmd_Range :: Range
  cmd_Shard :: ShardConfig
  cmd_SplitKey :: slice
  cmd_ShardID1 :: u64
  cmd_ShardID2 :: u64

text \<open>
  The slice surgery of the split: overwrite the target, append a zero range, move the tail
  one place up with \<^verbatim>\<open>copy\<close>, and put the second half into the gap.
\<close>

definition zero_Range :: Range where
  "zero_Range = \<lparr>r_StartKey = None, r_EndKey = None, r_ShardID = 0\<rparr>"

definition go_copy :: "'a list \<Rightarrow> nat \<Rightarrow> nat \<Rightarrow> 'a list" where
  \<comment> \<open>\<^verbatim>\<open>copy(xs[dst:], xs[src:])\<close>\<close>
  "go_copy xs dst src =
     (let n = min (length xs - dst) (length xs - src)
      in take dst xs @ take n (drop src xs) @ drop (dst + n) xs)"

definition insert_halves :: "Range list \<Rightarrow> nat \<Rightarrow> Range \<Rightarrow> Range \<Rightarrow> Range list" where
  "insert_halves rs t r1 r2 =
     (let rs1 = rs[t := r1];
          rs2 = rs1 @ [zero_Range];
          rs3 = go_copy rs2 (t + 2) (t + 1)
      in rs3[t + 1 := r2])"

definition split_range :: "MetaStore \<Rightarrow> slice \<Rightarrow> u64 \<Rightarrow> u64 \<Rightarrow> panic + MetaStore" where
  "split_range s key id1 id2 =
     (let rs = meta_Ranges s;
          idx = sort_Search (length rs) (\<lambda>i. starts_after (slice_bytes key) (rs ! i));
          targetIdx = (if idx > 0 then idx - 1 else 0)
      in if \<not> targetIdx < length rs then Inl IndexOutOfRange
         else let target = rs ! targetIdx
              in if (case r_StartKey target of
                       Some st \<Rightarrow> bytes_Compare (slice_bytes key) st \<le> 0 | None \<Rightarrow> False) then Inr s
                 else if (case r_EndKey target of
                            Some e \<Rightarrow> bytes_Compare (slice_bytes key) e \<ge> 0 | None \<Rightarrow> False) then Inr s
                 else let r1 = \<lparr>r_StartKey = r_StartKey target, r_EndKey = key, r_ShardID = id1\<rparr>;
                          r2 = \<lparr>r_StartKey = key, r_EndKey = r_EndKey target, r_ShardID = id2\<rparr>
                      in Inr (s\<lparr>meta_Ranges := insert_halves rs targetIdx r1 r2\<rparr>))"

text \<open>
  The decoding of an entry.  The state of the decoder is the command and the backing array of
  the address list.
\<close>

definition zero_ShardConfig :: ShardConfig where
  "zero_ShardConfig = \<lparr>sc_ID = 0, sc_Addrs = None\<rparr>"

definition dec_Range :: "Range decoder" where
  "dec_Range = dec_struct
     [(lit ''StartKey'', dec_field r_StartKey r_StartKey_update dec_slice),
      (lit ''EndKey'', dec_field r_EndKey r_EndKey_update dec_slice),
      (lit ''ShardID'', dec_field r_ShardID r_ShardID_update dec_uint64)]"

definition dec_ShardConfig :: "(ShardConfig \<times> bytes list) decoder" where
  "dec_ShardConfig = dec_struct
     [(lit ''ID'', dec_field (\<lambda>(c, b). sc_ID c) (\<lambda>f (c, b). (sc_ID_update f c, b)) dec_uint64),
      (lit ''Addrs'', dec_field (\<lambda>(c, b). (sc_Addrs c, b))
         (\<lambda>f (c, b). case f (sc_Addrs c, b) of (as, b') \<Rightarrow> (c\<lparr>sc_Addrs := as\<rparr>, b')) (dec_array [] dec_string))]"

definition dec_Command :: "(Command \<times> bytes list) decoder" where
  "dec_Command = dec_struct
     [(lit ''Op'', dec_field (cmd_Op \<circ> fst) (apfst \<circ> cmd_Op_update) dec_string),
      (lit ''Range'', dec_field (cmd_Range \<circ> fst) (apfst \<circ> cmd_Range_update) dec_Range),
      (lit ''Shard'', dec_field (\<lambda>(c, b). (cmd_Shard c, b))
         (\<lambda>f (c, b). case f (cmd_Shard c, b) of (sc, b') \<Rightarrow> (c\<lparr>cmd_Shard := sc\<rparr>, b')) dec_ShardConfig),
      (lit ''SplitKey'', dec_field (cmd_SplitKey \<circ> fst) (apfst \<circ> cmd_SplitKey_update) dec_slice),
      (lit ''ShardID1'', dec_field (cmd_ShardID1 \<circ> fst) (apfst \<circ> cmd_ShardID1_update) dec_uint64),
      (lit ''ShardID2'', dec_field (cmd_ShardID2 \<circ> fst) (apfst \<circ> cmd_ShardID2_update) dec_uint64)]"

definition zero_Command :: Command where
  "zero_Command = \<lparr>cmd_Op = [], cmd_Range = zero_Range, cmd_Shard = zero_ShardConfig, cmd_SplitKey = None,
     cmd_ShardID1 = 0, cmd_ShardID2 = 0\<rparr>"

definition unmarshal_Command :: "bytes \<Rightarrow> Command option" where
  "unmarshal_Command data =
     Option.bind (json_parse data) (\<lambda>j. map_option fst (dec_Command j (zero_Command, [])))"

text \<open>\<open>Apply\<close> on a decoded command; an entry that does not decode is skipped.\<close>

definition meta_apply_command :: "MetaStore \<Rightarrow> Command \<Rightarrow> panic + MetaStore" where
  "meta_apply_command s cmd =
     (if cmd_Op cmd = lit ''REGISTER_SHARD'' then
        (case meta_Shards s of
           None \<Rightarrow> Inl NilMapWrite
         | Some m \<Rightarrow> Inr (s\<lparr>meta_Shards := Some (AList.update (sc_ID (cmd_Shard cmd)) (cmd_Shard cmd) m)\<rparr>))
      else if cmd_Op cmd = lit ''UPDATE_RANGE'' then Inr s
      else if cmd_Op cmd = lit ''SPLIT_RANGE'' then
        split_range s (cmd_SplitKey cmd) (cmd_ShardID1 cmd) (cmd_ShardID2 cmd)
      else Inr s)"

definition meta_Apply :: "MetaStore \<Rightarrow> bytes \<Rightarrow> panic + MetaStore" where
  "meta_Apply s data =
     (case unmarshal_Command data of
        None \<Rightarrow> Inr s
      | Some cmd \<Rightarrow> meta_apply_command s cmd)"

text \<open>The committed entries of the meta group, applied in log order.\<close>

fun meta_run :: "MetaStore \<Rightarrow> bytes list \<Rightarrow> panic + MetaStore" where
  "meta_run s [] = Inr s"
| "meta_run s (d # ds) = (case meta_Apply s d of Inl p \<Rightarrow> Inl p | Inr s' \<Rightarrow> meta_run s' ds)"

section \<open>Snapshots\<close>

definition range_json :: "Range \<Rightarrow> json" where
  "range_json r = ObjV [(lit ''StartKey'', slice_json (r_StartKey r)), (lit ''EndKey'', slice_json (r_EndKey r)),
     (lit ''ShardID'', uint64_json (r_ShardID r))]"

definition shard_json :: "ShardConfig \<Rightarrow> json" where
  "shard_json c = ObjV [(lit ''ID'', uint64_json (sc_ID c)),
     (lit ''Addrs'', case sc_Addrs c of None \<Rightarrow> NullV | Some as \<Rightarrow> ArrV (map StrV as))]"

text \<open>The encoder sorts the members of a map by the text of their keys.\<close>

definition by_text :: "(u64 \<times> ShardConfig) list \<Rightarrow> (u64 \<times> ShardConfig) list" where
  "by_text = sort_key (\<lambda>(k, c). Sprint_d (unat k))"

text \<open>An empty list of ranges is \<open>nil\<close> here; the code never makes an empty one that is not.\<close>

definition state_json :: "MetaStore \<Rightarrow> json" where
  "state_json s = ObjV
     [(lit ''Ranges'', if meta_Ranges s = [] then NullV else ArrV (map range_json (meta_Ranges s))),
      (lit ''Shards'', case meta_Shards s of
         None \<Rightarrow> NullV
       | Some m \<Rightarrow> ObjV (map (\<lambda>(k, c). (Sprint_d (unat k), shard_json c)) (by_text m)))]"

definition meta_GetSnapshot :: "MetaStore \<Rightarrow> bytes" where
  "meta_GetSnapshot s = json_print (state_json s)"

text \<open>The decoded state: the ranges with their backing array, and the shards with theirs.\<close>

type_synonym meta_state = "(Range list option \<times> Range list) \<times> (u64 \<times> ShardConfig \<times> bytes list) list option"

definition dec_state :: "meta_state decoder" where
  "dec_state = dec_struct
     [(lit ''Ranges'', dec_field fst apfst (dec_array zero_Range dec_Range)),
      (lit ''Shards'', dec_field snd apsnd (dec_map (zero_ShardConfig, []) dec_ShardConfig))]"

definition meta_Restore :: "MetaStore \<Rightarrow> bytes \<Rightarrow> MetaStore \<times> bool" where
  "meta_Restore s data =
     (case Option.bind (json_parse data) (\<lambda>j. dec_state j ((None, []), None)) of
        None \<Rightarrow> (s, False)
      | Some ((ranges, _), shards) \<Rightarrow>
          (s\<lparr>meta_Ranges := (case ranges of None \<Rightarrow> [] | Some rs \<Rightarrow> rs),
             meta_Shards := map_option (map (\<lambda>(k, c, _). (k, c))) shards\<rparr>, True))"

section \<open>The range map is a partition\<close>

definition in_range :: "bytes \<Rightarrow> Range \<Rightarrow> bool" where
  "in_range key r \<longleftrightarrow>
     (case r_StartKey r of None \<Rightarrow> True | Some st \<Rightarrow> st \<le> key) \<and>
     (case r_EndKey r of None \<Rightarrow> True | Some e \<Rightarrow> key < e)"

definition start_less :: "slice \<Rightarrow> bytes \<Rightarrow> bool" where
  "start_less lo e = (case lo of None \<Rightarrow> True | Some st \<Rightarrow> st < e)"

text \<open>
  \<open>tiles lo rs\<close>: the ranges of \<open>rs\<close> follow one another from \<open>lo\<close> to plus infinity, each one
  starting where the one before ends, with increasing bounds.
\<close>

fun tiles :: "slice \<Rightarrow> Range list \<Rightarrow> bool" where
  "tiles lo [] = False"
| "tiles lo (r # rs) =
     (r_StartKey r = lo \<and>
      (case r_EndKey r of
         None \<Rightarrow> rs = []
       | Some e \<Rightarrow> start_less lo e \<and> tiles (Some e) rs))"

definition partition_ranges :: "Range list \<Rightarrow> bool" where
  "partition_ranges rs = tiles None rs"

lemma starts_after_iff: "starts_after key r \<longleftrightarrow> (\<exists>st. r_StartKey r = Some st \<and> key < st)"
  by (auto simp: starts_after_def split: option.splits)

lemma tiles_starts:
  "tiles lo rs \<Longrightarrow> r \<in> set rs \<Longrightarrow> r_StartKey r = lo \<or> (\<exists>st. r_StartKey r = Some st \<and> start_less lo st)"
proof (induction lo rs rule: tiles.induct)
  case (1 lo)
  then show ?case by simp
next
  case (2 lo x rs)
  show ?case
  proof (cases "r_EndKey x")
    case None
    with 2 show ?thesis by auto
  next
    case (Some e)
    with "2.prems" have "r = x \<or> r \<in> set rs" "start_less lo e" "tiles (Some e) rs" "r_StartKey x = lo" by auto
    with "2.IH" [OF Some] show ?thesis
      by (cases lo) (auto simp: start_less_def)
  qed
qed

lemma tiles_sorted: "tiles lo rs \<Longrightarrow> sorted_wrt (\<lambda>x y. starts_after key x \<longrightarrow> starts_after key y) rs"
proof (induction lo rs rule: tiles.induct)
  case (1 lo)
  then show ?case by simp
next
  case (2 lo x rs)
  show ?case
  proof (cases "r_EndKey x")
    case None
    with 2 show ?thesis by simp
  next
    case (Some e)
    with "2.prems" have x: "r_StartKey x = lo" "start_less lo e" "tiles (Some e) rs" by auto
    have "starts_after key y" if "y \<in> set rs" "starts_after key x" for y
      using tiles_starts [OF x(3) that(1)] that(2) x(1,2)
      by (auto simp: starts_after_iff start_less_def)
    with "2.IH" [OF Some x(3)] show ?thesis by simp
  qed
qed

text \<open>The last range that does not start after the key is the one that holds it.\<close>

lemma tiles_lookup:
  assumes "tiles lo rs" and "\<And>st. lo = Some st \<Longrightarrow> st \<le> key"
  shows "\<exists>pre r post. rs = pre @ r # post \<and>
    takeWhile (\<lambda>r. \<not> starts_after key r) rs = pre @ [r] \<and> in_range key r \<and>
    (\<forall>q \<in> set pre \<union> set post. \<not> in_range key q)"
  using assms
proof (induction lo rs rule: tiles.induct)
  case (1 lo)
  then show ?case by simp
next
  case (2 lo x rs)
  then have lo: "r_StartKey x = lo" by simp
  then have nx: "\<not> starts_after key x" using "2.prems"(2) by (auto simp: starts_after_iff)
  show ?case
  proof (cases "r_EndKey x")
    case None
    with 2 nx lo show ?thesis
      by (intro exI [of _ "[]"] exI [of _ x]) (auto simp: in_range_def split: option.split)
  next
    case (Some e)
    with "2.prems" have e: "start_less lo e" "tiles (Some e) rs" by auto
    show ?thesis
    proof (cases "key < e")
      case True
      have after: "starts_after key r" "\<not> in_range key r" if "r \<in> set rs" for r
        using tiles_starts [OF e(2) that] True
        by (auto simp: starts_after_iff in_range_def start_less_def)
      then have "takeWhile (\<lambda>r. \<not> starts_after key r) rs = []" by (cases rs) auto
      with nx True Some lo "2.prems"(2) after(2) show ?thesis
        by (intro exI [of _ "[]"] exI [of _ x] exI [of _ rs]) (auto simp: in_range_def split: option.split)
    next
      case False
      then have "st \<le> key" if "Some e = Some st" for st using that by simp
      from "2.IH" [OF Some e(2) this] obtain pre r post where
        IH: "rs = pre @ r # post" "takeWhile (\<lambda>r. \<not> starts_after key r) rs = pre @ [r]"
        "in_range key r" "\<forall>q \<in> set pre \<union> set post. \<not> in_range key q" by blast
      with nx False Some show ?thesis
        by (intro exI [of _ "x # pre"] exI [of _ r] exI [of _ post])
           (auto simp: in_range_def)
    qed
  qed
qed

lemma partition_lookup:
  assumes "partition_ranges rs"
  obtains pre r post where "rs = pre @ r # post"
    and "sort_Search (length rs) (\<lambda>i. starts_after key (rs ! i)) = Suc (length pre)"
    and "in_range key r" and "\<forall>q \<in> set pre \<union> set post. \<not> in_range key q"
proof -
  from assms have t: "tiles None rs" by (simp add: partition_ranges_def)
  from tiles_lookup [OF t, of key] obtain pre r post where
    "rs = pre @ r # post" "takeWhile (\<lambda>r. \<not> starts_after key r) rs = pre @ [r]"
    "in_range key r" "\<forall>q \<in> set pre \<union> set post. \<not> in_range key q" by auto
  with sort_Search_takeWhile [OF tiles_sorted [OF t, of key]] that show ?thesis by simp
qed

section \<open>Lookup and split on a partition\<close>

text \<open>The range that holds a key, by linear search.\<close>

definition owner :: "Range list \<Rightarrow> bytes \<Rightarrow> Range option" where
  "owner rs key = find (in_range key) rs"

lemma owner_split:
  "\<forall>q \<in> set pre. \<not> in_range key q \<Longrightarrow> owner (pre @ rs) key = owner rs key"
  by (induction pre) (auto simp: owner_def)

lemma partition_unique:
  assumes "partition_ranges rs"
  shows "\<exists>!i. i < length rs \<and> in_range key (rs ! i)"
proof -
  from partition_lookup [OF assms, of key] obtain pre r post where
    rs: "rs = pre @ r # post" and r: "in_range key r"
    and o: "\<forall>q \<in> set pre \<union> set post. \<not> in_range key q" by metis
  show ?thesis
  proof (rule ex1I [of _ "length pre"])
    show "length pre < length rs \<and> in_range key (rs ! length pre)" using rs r by simp
    fix i
    assume i: "i < length rs \<and> in_range key (rs ! i)"
    show "i = length pre"
    proof (rule ccontr)
      assume ne: "i \<noteq> length pre"
      then have "rs ! i \<in> set pre \<union> set post"
        using i rs by (cases "i < length pre") (auto simp: nth_append nth_Cons')
      with o i show False by blast
    qed
  qed
qed

lemma GetShard_owner:
  assumes "partition_ranges (meta_Ranges s)"
  shows "\<exists>r \<in> set (meta_Ranges s). in_range key r \<and> owner (meta_Ranges s) key = Some r \<and>
    GetShard s key = Inr (r_ShardID r)"
proof -
  from partition_lookup [OF assms, of key] obtain pre r post where
    rs: "meta_Ranges s = pre @ r # post"
    and idx: "sort_Search (length (meta_Ranges s)) (\<lambda>i. starts_after key (meta_Ranges s ! i)) = Suc (length pre)"
    and r: "in_range key r" and o: "\<forall>q \<in> set pre \<union> set post. \<not> in_range key q" .
  have "owner (meta_Ranges s) key = Some r"
    using rs r o by (simp add: owner_split) (simp add: owner_def)
  moreover have "GetShard s key = Inr (r_ShardID r)"
    unfolding GetShard_def Let_def idx by (simp add: rs)
  ultimately show ?thesis using rs r by auto
qed

lemma insert_halves_eq:
  assumes "t < length rs"
  shows "insert_halves rs t r1 r2 = take t rs @ r1 # r2 # drop (Suc t) rs"
proof -
  let ?xs = "rs[t := r1] @ [zero_Range]"
  have "take (t + 2) ?xs @ take (length ?xs - (t + 2)) (drop (t + 1) ?xs) =
      take t rs @ r1 # (take 1 (drop (Suc t) ?xs)) @ drop (Suc t) rs"
    using assms by (simp add: upd_conv_take_nth_drop take_Suc)
  then have "go_copy ?xs (t + 2) (t + 1) = take t rs @ r1 # (take 1 (drop (Suc t) ?xs)) @ drop (Suc t) rs"
    using assms by (simp add: go_copy_def Let_def)
  moreover have "length (take 1 (drop (Suc t) ?xs)) = Suc 0"
    using assms by simp
  then obtain x where "take 1 (drop (Suc t) ?xs) = [x]"
    by (metis length_0_conv length_Suc_conv)
  ultimately have "go_copy ?xs (t + 2) (t + 1) = take t rs @ r1 # x # drop (Suc t) rs"
    by (simp only: append.simps)
  then show ?thesis
    using assms unfolding insert_halves_def Let_def by (simp only:) (simp add: list_update_append)
qed

lemma tiles_split:
  assumes "tiles lo (pre @ r # post)" and "in_range k r" and "r_StartKey r \<noteq> Some k"
  shows "tiles lo (pre @ \<lparr>r_StartKey = r_StartKey r, r_EndKey = Some k, r_ShardID = a\<rparr> #
    \<lparr>r_StartKey = Some k, r_EndKey = r_EndKey r, r_ShardID = b\<rparr> # post)"
  using assms
proof (induction pre arbitrary: lo)
  case Nil
  then show ?case
    by (auto simp: in_range_def start_less_def split: option.splits)
next
  case (Cons x pre)
  then show ?case by (auto split: option.splits)
qed

lemma split_range_partition:
  assumes p: "partition_ranges (meta_Ranges s)" and own: "owner (meta_Ranges s) k = Some r"
  obtains "r_StartKey r = Some k" and "split_range s (Some k) id1 id2 = Inr s"
  | pre post where "r_StartKey r \<noteq> Some k" and "meta_Ranges s = pre @ r # post"
    and "split_range s (Some k) id1 id2 = Inr (s\<lparr>meta_Ranges := pre @
      \<lparr>r_StartKey = r_StartKey r, r_EndKey = Some k, r_ShardID = id1\<rparr> #
      \<lparr>r_StartKey = Some k, r_EndKey = r_EndKey r, r_ShardID = id2\<rparr> # post\<rparr>)"
    and "\<forall>q \<in> set pre \<union> set post. \<not> in_range k q" and "in_range k r"
proof -
  from partition_lookup [OF p, of k] obtain pre r' post where
    rs: "meta_Ranges s = pre @ r' # post"
    and idx: "sort_Search (length (meta_Ranges s)) (\<lambda>i. starts_after k (meta_Ranges s ! i)) = Suc (length pre)"
    and r': "in_range k r'" and o: "\<forall>q \<in> set pre \<union> set post. \<not> in_range k q" .
  have "r' = r" using own rs r' o by (simp add: owner_split) (simp add: owner_def)
  note rs = rs [unfolded this] and r = r' [unfolded this]
  have st: "(case r_StartKey r of Some st \<Rightarrow> bytes_Compare k st \<le> 0 | None \<Rightarrow> False) \<longleftrightarrow> r_StartKey r = Some k"
    using r by (auto simp: in_range_def split: option.splits)
  have e: "\<not> (case r_EndKey r of Some e \<Rightarrow> bytes_Compare k e \<ge> 0 | None \<Rightarrow> False)"
    using r by (auto simp: in_range_def split: option.splits)
  have t: "meta_Ranges s ! length pre = r" "length pre < length (meta_Ranges s)" by (simp_all add: rs)
  show thesis
  proof (cases "r_StartKey r = Some k")
    case True
    then have "split_range s (Some k) id1 id2 = Inr s"
      unfolding split_range_def Let_def slice_bytes_def option.case idx using t st by simp
    with True that(1) show thesis by blast
  next
    case False
    then have "split_range s (Some k) id1 id2 = Inr (s\<lparr>meta_Ranges := pre @
      \<lparr>r_StartKey = r_StartKey r, r_EndKey = Some k, r_ShardID = id1\<rparr> #
      \<lparr>r_StartKey = Some k, r_EndKey = r_EndKey r, r_ShardID = id2\<rparr> # post\<rparr>)"
      unfolding split_range_def Let_def slice_bytes_def option.case idx
      using t st e by (simp add: insert_halves_eq [OF t(2)]) (simp add: rs)
    with False rs o r that(2) show thesis by blast
  qed
qed

lemma split_keeps_partition:
  assumes "partition_ranges (meta_Ranges s)"
  shows "\<exists>s'. split_range s (Some k) id1 id2 = Inr s' \<and> partition_ranges (meta_Ranges s') \<and>
    meta_Shards s' = meta_Shards s"
proof -
  obtain r where own: "owner (meta_Ranges s) k = Some r"
    using GetShard_owner [OF assms] by blast
  show ?thesis
    by (rule split_range_partition [OF assms own, of id1 id2])
       (use assms in \<open>auto simp: partition_ranges_def intro: tiles_split\<close>)
qed

text \<open>A split key that is not \<open>nil\<close>, and a shard map that can be written.\<close>

definition meta_inv :: "MetaStore \<Rightarrow> bool" where
  "meta_inv s \<longleftrightarrow> partition_ranges (meta_Ranges s) \<and> meta_Shards s \<noteq> None"

definition split_key_given :: "Command \<Rightarrow> bool" where
  "split_key_given cmd \<longleftrightarrow> (cmd_Op cmd = lit ''SPLIT_RANGE'' \<longrightarrow> cmd_SplitKey cmd \<noteq> None)"

lemma meta_inv_New: "meta_inv NewMetaStore"
  by (simp add: meta_inv_def NewMetaStore_def partition_ranges_def)

lemma meta_apply_command_inv:
  assumes "meta_inv s" and "split_key_given cmd"
  shows "\<exists>s'. meta_apply_command s cmd = Inr s' \<and> meta_inv s'"
proof -
  have "\<exists>s'. split_range s (cmd_SplitKey cmd) (cmd_ShardID1 cmd) (cmd_ShardID2 cmd) = Inr s' \<and> meta_inv s'"
    if "cmd_SplitKey cmd = Some k" for k
    using split_keeps_partition [of s k "cmd_ShardID1 cmd" "cmd_ShardID2 cmd"] assms(1) that
    by (auto simp: meta_inv_def)
  with assms show ?thesis
    by (auto simp: meta_apply_command_def split_key_given_def meta_inv_def)
qed

lemma meta_Apply_inv:
  assumes "meta_inv s" and "\<And>cmd. unmarshal_Command d = Some cmd \<Longrightarrow> split_key_given cmd"
  shows "\<exists>s'. meta_Apply s d = Inr s' \<and> meta_inv s'"
  using assms meta_apply_command_inv by (cases "unmarshal_Command d") (auto simp: meta_Apply_def)

section \<open>Names of struct fields\<close>

lemma json_string_names [simp]:
  "json_string (lit ''StartKey'') = lit ''StartKey''" "json_string (lit ''EndKey'') = lit ''EndKey''"
  "json_string (lit ''ShardID'') = lit ''ShardID''" "json_string (lit ''ID'') = lit ''ID''"
  "json_string (lit ''Addrs'') = lit ''Addrs''" "json_string (lit ''Ranges'') = lit ''Ranges''"
  "json_string (lit ''Shards'') = lit ''Shards''" "json_string (lit ''Op'') = lit ''Op''"
  "json_string (lit ''SplitKey'') = lit ''SplitKey''"
  "json_string (lit ''ShardID1'') = lit ''ShardID1''" "json_string (lit ''ShardID2'') = lit ''ShardID2''"
  by code_simp+

lemma struct_names [simp]:
  "lit ''EndKey'' \<noteq> lit ''StartKey''" "lit ''ShardID'' \<noteq> lit ''StartKey''" "lit ''ShardID'' \<noteq> lit ''EndKey''"
  "lit ''Addrs'' \<noteq> lit ''ID''" "lit ''Shards'' \<noteq> lit ''Ranges''"
  "lit ''SplitKey'' \<noteq> lit ''Op''" "lit ''SplitKey'' \<noteq> lit ''Range''" "lit ''SplitKey'' \<noteq> lit ''Shard''"
  "lit ''ShardID1'' \<noteq> lit ''Op''" "lit ''ShardID1'' \<noteq> lit ''Range''" "lit ''ShardID1'' \<noteq> lit ''Shard''"
  "lit ''ShardID1'' \<noteq> lit ''SplitKey''"
  "lit ''ShardID2'' \<noteq> lit ''Op''" "lit ''ShardID2'' \<noteq> lit ''Range''" "lit ''ShardID2'' \<noteq> lit ''Shard''"
  "lit ''ShardID2'' \<noteq> lit ''SplitKey''" "lit ''ShardID2'' \<noteq> lit ''ShardID1''"
  by code_simp+

section \<open>Properties\<close>

text \<open>
  Lookup: when the ranges partition the key space, every key lies in exactly one range
  and \<open>GetShard\<close>'s binary search returns that range's shard, without a panic.
\<close>

theorem GetShard_unique_owner:
  assumes "partition_ranges (meta_Ranges s)"
  shows "\<exists>!i. i < length (meta_Ranges s) \<and> in_range key (meta_Ranges s ! i) \<and>
    GetShard s key = Inr (r_ShardID (meta_Ranges s ! i))"
proof -
  obtain r where r: "r \<in> set (meta_Ranges s)" "in_range key r" "GetShard s key = Inr (r_ShardID r)"
    using GetShard_owner [OF assms, of key] by blast
  then obtain i where "i < length (meta_Ranges s)" "meta_Ranges s ! i = r"
    by (auto simp: in_set_conv_nth)
  with r partition_unique [OF assms, of key] show ?thesis by metis
qed

theorem GetShard_unique_owner_witness:
  "partition_ranges (meta_Ranges NewMetaStore) \<and> GetShard NewMetaStore (lit ''abc'') = Inr 1"
proof -
  have p: "partition_ranges (meta_Ranges NewMetaStore)"
    using meta_inv_New by (simp add: meta_inv_def)
  then show ?thesis
    using GetShard_unique_owner [OF p, of "lit ''abc''"]
    by (auto simp: NewMetaStore_def)
qed

text \<open>
  (C23) Range split: on a partition, splitting at a key either finds the key to be a range start
  already and changes nothing, or divides the one range that holds it; then the keys of that
  range below the split key belong to the first new shard, its other keys to the second, and
  every key outside it keeps its shard.  The ranges partition the key space again.
\<close>

theorem split_range_correct:
  assumes "partition_ranges (meta_Ranges s)" and "owner (meta_Ranges s) k = Some r"
    and "split_range s (Some k) id1 id2 = Inr s'"
  shows "partition_ranges (meta_Ranges s') \<and>
    GetShard s' key =
      (if r_StartKey r \<noteq> Some k \<and> in_range key r then Inr (if key < k then id1 else id2)
       else GetShard s key)"
proof -
  obtain s'' where "split_range s (Some k) id1 id2 = Inr s''" "partition_ranges (meta_Ranges s'')"
    using split_keeps_partition [OF assms(1), of k id1 id2] by blast
  with assms(3) have p': "partition_ranges (meta_Ranges s')" by simp
  from split_range_partition [OF assms(1,2), of id1 id2]
  consider "r_StartKey r = Some k" "s' = s"
    | pre post where "r_StartKey r \<noteq> Some k" "meta_Ranges s = pre @ r # post"
      "meta_Ranges s' = pre @ \<lparr>r_StartKey = r_StartKey r, r_EndKey = Some k, r_ShardID = id1\<rparr> #
        \<lparr>r_StartKey = Some k, r_EndKey = r_EndKey r, r_ShardID = id2\<rparr> # post" "in_range k r"
    using assms(3) by (metis (no_types, lifting) MetaStore.select_convs(1) MetaStore.surjective
      MetaStore.update_convs(1) sum.inject(2))
  then show ?thesis
  proof cases
    case 1
    with p' show ?thesis by simp
  next
    case 2
    let ?r1 = "\<lparr>r_StartKey = r_StartKey r, r_EndKey = Some k, r_ShardID = id1\<rparr>"
    let ?r2 = "\<lparr>r_StartKey = Some k, r_EndKey = r_EndKey r, r_ShardID = id2\<rparr>"
    obtain q where q: "owner (meta_Ranges s) key = Some q" "GetShard s key = Inr (r_ShardID q)"
      using GetShard_owner [OF assms(1), of key] by blast
    obtain q' where q': "owner (meta_Ranges s') key = Some q'" "GetShard s' key = Inr (r_ShardID q')"
      using GetShard_owner [OF p', of key] by blast
    have halves: "in_range key ?r1 \<longleftrightarrow> in_range key r \<and> key < k" "in_range key ?r2 \<longleftrightarrow> in_range key r \<and> k \<le> key"
      using 2(4) by (auto simp: in_range_def split: option.splits)
    have "owner (meta_Ranges s') key =
        (case owner pre key of Some q \<Rightarrow> Some q
         | None \<Rightarrow> if in_range key r then Some (if key < k then ?r1 else ?r2) else owner post key)"
      unfolding 2(3) owner_def find_append by (auto simp: halves split: option.split)
    moreover have "owner (meta_Ranges s) key =
        (case owner pre key of Some q \<Rightarrow> Some q
         | None \<Rightarrow> if in_range key r then Some r else owner post key)"
      unfolding 2(2) owner_def by (simp add: find_append split: option.split)
    moreover have "owner pre key = None" if "in_range key r"
      using that partition_unique [OF assms(1), of key] unfolding 2(2) owner_def find_None_iff
      by (metis (no_types, lifting) in_set_conv_nth length_append nth_append nth_append_length
          trans_less_add1 less_irrefl add_less_cancel_left length_Cons zero_less_Suc add.right_neutral)
    ultimately show ?thesis
      using q q' p' 2(1) by (auto split: option.splits if_splits) (metis option.inject)
  qed
qed

theorem split_range_correct_witness:
  "\<exists>s'. split_range NewMetaStore (Some (lit ''m'')) 1 2 = Inr s' \<and>
     GetShard s' (lit ''l'') = Inr 1 \<and> GetShard s' (lit ''m'') = Inr 2"
proof -
  let ?r = "\<lparr>r_StartKey = None, r_EndKey = None, r_ShardID = 1\<rparr>"
  have p: "partition_ranges (meta_Ranges NewMetaStore)"
    using meta_inv_New by (simp add: meta_inv_def)
  have o: "owner (meta_Ranges NewMetaStore) (lit ''m'') = Some ?r"
    by (simp add: NewMetaStore_def owner_def in_range_def)
  obtain s' where s: "split_range NewMetaStore (Some (lit ''m'')) 1 2 = Inr s'"
    using split_keeps_partition [OF p] by blast
  have "lit ''l'' < lit ''m''" by code_simp
  moreover have "in_range key ?r" for key by (simp add: in_range_def)
  ultimately show ?thesis
    using s split_range_correct [OF p o s, of "lit ''l''"] split_range_correct [OF p o s, of "lit ''m''"]
    by auto
qed

text \<open>
  (C22) The metadata never breaks: from the initial store, any log of entries in which every
  split command carries a split key is applied without a panic, and the ranges partition
  the key space afterwards.
\<close>

theorem meta_log_keeps_partition:
  assumes "\<forall>d \<in> set ds. \<forall>cmd. unmarshal_Command d = Some cmd \<longrightarrow> split_key_given cmd"
  shows "\<exists>s. meta_run NewMetaStore ds = Inr s \<and> partition_ranges (meta_Ranges s)"
proof -
  have "\<exists>s'. meta_run s ds = Inr s' \<and> meta_inv s'" if "meta_inv s" for s
    using that assms
  proof (induction ds arbitrary: s)
    case Nil
    then show ?case by simp
  next
    case (Cons d ds)
    then obtain s1 where "meta_Apply s d = Inr s1" "meta_inv s1"
      using meta_Apply_inv [of s d] by auto
    with Cons show ?case by simp
  qed
  from this [OF meta_inv_New] show ?thesis by (auto simp: meta_inv_def)
qed

text \<open>Texts of split commands at a given key.\<close>

definition split_json :: "slice \<Rightarrow> json" where
  "split_json key = ObjV [(lit ''Op'', StrV (lit ''SPLIT_RANGE'')), (lit ''SplitKey'', slice_json key),
     (lit ''ShardID1'', uint64_json 1), (lit ''ShardID2'', uint64_json 2)]"

definition split_command :: "slice \<Rightarrow> Command" where
  "split_command key = zero_Command\<lparr>cmd_Op := lit ''SPLIT_RANGE'', cmd_SplitKey := key, cmd_ShardID1 := 1, cmd_ShardID2 := 2\<rparr>"

lemma unmarshal_split: "unmarshal_Command (json_print (split_json key)) = Some (split_command key)"
proof -
  have "json_fits (Suc d) (split_json key)" for d
    by (simp add: split_json_def)
  from this [of 9999] have fits: "json_fits 10000 (split_json key)" by simp
  have "json_string (lit ''SPLIT_RANGE'') = lit ''SPLIT_RANGE''" by code_simp
  then have "dec_Command (json_coerce (split_json key)) (zero_Command, []) = Some (split_command key, [])"
    by (simp add: split_json_def dec_Command_def dec_struct_Cons dec_field_def split_command_def)
  then show ?thesis by (simp add: unmarshal_Command_def json_parse_print(1) [OF fits])
qed

theorem meta_log_keeps_partition_witness:
  "\<exists>s. meta_run NewMetaStore [json_print (split_json (Some (lit ''m''))), json_print (split_json (Some (lit ''c'')))] = Inr s \<and>
     partition_ranges (meta_Ranges s)"
  by (intro meta_log_keeps_partition) (auto simp: split_key_given_def split_command_def unmarshal_split)

text \<open>
  A split without a split key corrupts the range map: applied to the initial store, a
  \<open>SPLIT_RANGE\<close> command whose split key is \<open>null\<close> in the JSON passes both bounds checks and
  leaves two ranges that each cover the whole key space.
\<close>

theorem split_nil_key_corrupts:
  "\<exists>s. meta_Apply NewMetaStore (json_print (split_json None)) = Inr s \<and>
     \<not> partition_ranges (meta_Ranges s) \<and>
     (\<forall>key. in_range key (meta_Ranges s ! 0) \<and> in_range key (meta_Ranges s ! 1) \<and>
       r_ShardID (meta_Ranges s ! 0) = 1 \<and> r_ShardID (meta_Ranges s ! 1) = 2)"
proof -
  let ?rs = "[\<lparr>r_StartKey = None, r_EndKey = None, r_ShardID = 1\<rparr>,
    \<lparr>r_StartKey = None, r_EndKey = None, r_ShardID = 2\<rparr>] :: Range list"
  have "sort_Search 1 (\<lambda>i. starts_after [] ([\<lparr>r_StartKey = None, r_EndKey = None, r_ShardID = 1\<rparr>] ! i)) = 1"
    by (rule sort_Search_eqI) (auto simp: starts_after_def)
  then have "split_range NewMetaStore None 1 2 = Inr (NewMetaStore\<lparr>meta_Ranges := ?rs\<rparr>)"
    by (simp add: split_range_def Let_def slice_bytes_def NewMetaStore_def insert_halves_eq)
  moreover have "lit ''SPLIT_RANGE'' \<noteq> lit ''REGISTER_SHARD''" "lit ''SPLIT_RANGE'' \<noteq> lit ''UPDATE_RANGE''"
    by code_simp+
  ultimately have "meta_Apply NewMetaStore (json_print (split_json None)) = Inr (NewMetaStore\<lparr>meta_Ranges := ?rs\<rparr>)"
    by (simp add: meta_Apply_def unmarshal_split meta_apply_command_def split_command_def)
  then show ?thesis
    by (simp add: partition_ranges_def in_range_def)
qed

section \<open>Snapshots come back\<close>

lemma dec_range_json: "dec_Range (json_coerce (range_json r)) r0 = Some r"
  by (simp add: dec_Range_def range_json_def dec_struct_Cons dec_field_def)

lemma dec_shard_json:
  assumes "\<forall>as. sc_Addrs c = Some as \<longrightarrow> (\<forall>a \<in> set as. utf8_valid a)"
  shows "dec_ShardConfig (json_coerce (shard_json c)) (zero_ShardConfig, []) =
    Some (c, case sc_Addrs c of None \<Rightarrow> [] | Some as \<Rightarrow> as)"
proof (cases "sc_Addrs c")
  case None
  then show ?thesis
    by (simp add: dec_ShardConfig_def shard_json_def dec_struct_Cons dec_field_def dec_array_def
        zero_ShardConfig_def)
next
  case (Some as)
  have "dec_array [] dec_string (ArrV (map (json_coerce \<circ> StrV) as)) (None, []) = Some (Some (map id as), map id as)"
    by (rule dec_array_fresh) (use assms Some in \<open>auto simp: utf8_valid_def\<close>)
  with Some show ?thesis
    by (simp add: dec_ShardConfig_def shard_json_def dec_struct_Cons dec_field_def
        zero_ShardConfig_def comp_def)
qed

lemma range_json_fits: "json_fits (Suc d) (range_json r)"
  by (simp add: range_json_def)

lemma shard_json_fits: "json_fits (Suc (Suc d)) (shard_json c)"
  by (auto simp: shard_json_def split: option.split)

lemma state_json_fits: "json_fits 10000 (state_json s)"
proof -
  have "json_fits (Suc (Suc (Suc (Suc d)))) (state_json s)" for d
    using range_json_fits [of "Suc d"] shard_json_fits [of d] by (auto simp: state_json_def split: option.split)
  from this [of 9996] show ?thesis by simp
qed

lemma json_string_Sprint [simp]: "json_string (Sprint_d n) = Sprint_d n"
proof (intro json_string_ascii ballI)
  fix c
  assume "c \<in> set (Sprint_d n)"
  then have "c \<le> 57" using Sprint_d_digits [of n] by (simp add: is_digit_def)
  then show "c < 0x80" by (rule le_less_trans) simp
qed

text \<open>The shards of a store: one configuration per identifier, with addresses that are text.\<close>

definition shards_ok :: "MetaStore \<Rightarrow> bool" where
  "shards_ok s \<longleftrightarrow> (\<forall>m. meta_Shards s = Some m \<longrightarrow> distinct (map fst m) \<and>
     (\<forall>(k, c) \<in> set m. \<forall>as. sc_Addrs c = Some as \<longrightarrow> (\<forall>a \<in> set as. utf8_valid a)))"

lemma distinct_by_text: "distinct (map fst m) \<Longrightarrow> distinct (map fst (by_text m))"
  by (simp add: by_text_def distinct_map)

lemma map_of_by_text: "distinct (map fst m) \<Longrightarrow> map_of (by_text m) = map_of m"
  using map_of_inject_set [OF distinct_by_text] by (simp add: by_text_def)

lemma dec_shards_json:
  assumes "distinct (map fst m)"
    and "\<forall>(k, c) \<in> set m. \<forall>as. sc_Addrs c = Some as \<longrightarrow> (\<forall>a \<in> set as. utf8_valid a)"
  shows "\<exists>m'. dec_map (zero_ShardConfig, []) dec_ShardConfig
      (json_coerce (ObjV (map (\<lambda>(k, c). (Sprint_d (unat k), shard_json c)) (by_text m)))) None = Some (Some m') \<and>
    map (\<lambda>(k, c, _). (k, c)) m' = by_text m"
proof -
  let ?b = "\<lambda>c. case sc_Addrs c of None \<Rightarrow> [] | Some as \<Rightarrow> as"
  have "distinct (map fst (by_text m))"
    using assms(1) by (rule distinct_by_text)
  moreover have "dec_ShardConfig (json_coerce (shard_json (snd x))) (zero_ShardConfig, []) = Some (snd x, ?b (snd x))"
    if "x \<in> set (by_text m)" for x
    using that assms(2) by (intro dec_shard_json) (auto simp: by_text_def)
  ultimately have "dec_map (zero_ShardConfig, []) dec_ShardConfig
      (ObjV (map (\<lambda>x. (Sprint_d (unat (fst x)), json_coerce (shard_json (snd x)))) (by_text m))) None =
      Some (Some (map (\<lambda>x. (fst x, snd x, ?b (snd x))) (by_text m)))"
    by (intro dec_map_fresh)
  then show ?thesis
    by (intro exI [of _ "map (\<lambda>x. (fst x, snd x, ?b (snd x))) (by_text m)"]) (simp add: comp_def case_prod_beta)
qed

lemma meta_Restore_GetSnapshot:
  assumes "shards_ok s"
  shows "meta_Restore s' (meta_GetSnapshot s) =
    (s'\<lparr>meta_Ranges := meta_Ranges s, meta_Shards := map_option by_text (meta_Shards s)\<rparr>, True)"
proof -
  have parse: "json_parse (meta_GetSnapshot s) = Some (json_coerce (state_json s))"
    by (simp add: meta_GetSnapshot_def json_parse_print(1) [OF state_json_fits])
  have "\<exists>shards. dec_map (zero_ShardConfig, []) dec_ShardConfig
      (json_coerce (case meta_Shards s of None \<Rightarrow> NullV
        | Some m \<Rightarrow> ObjV (map (\<lambda>(k, c). (Sprint_d (unat k), shard_json c)) (by_text m)))) None = Some shards \<and>
      map_option (map (\<lambda>(k, c, _). (k, c))) shards = map_option by_text (meta_Shards s)"
  proof (cases "meta_Shards s")
    case (Some m)
    then show ?thesis using dec_shards_json [of m] assms by (auto simp: shards_ok_def simp del: json_coerce.simps)
  qed (simp add: dec_map_def)
  then obtain shards where sh: "dec_map (zero_ShardConfig, []) dec_ShardConfig
      (json_coerce (case meta_Shards s of None \<Rightarrow> NullV
        | Some m \<Rightarrow> ObjV (map (\<lambda>(k, c). (Sprint_d (unat k), shard_json c)) (by_text m)))) None = Some shards"
      "map_option (map (\<lambda>(k, c, _). (k, c))) shards = map_option by_text (meta_Shards s)" by blast
  have "dec_array zero_Range dec_Range (ArrV (map (json_coerce \<circ> range_json) (meta_Ranges s))) (None, []) =
      Some (Some (map id (meta_Ranges s)), map id (meta_Ranges s))"
    by (rule dec_array_fresh) (simp add: dec_range_json)
  then have "dec_array zero_Range dec_Range
      (json_coerce (if meta_Ranges s = [] then NullV else ArrV (map range_json (meta_Ranges s)))) (None, []) =
      Some (if meta_Ranges s = [] then None else Some (meta_Ranges s), meta_Ranges s)"
    by (cases "meta_Ranges s = []") (simp_all add: dec_array_def [where j = NullV])
  then have "dec_state (json_coerce (state_json s)) ((None, []), None) =
      Some ((if meta_Ranges s = [] then None else Some (meta_Ranges s), meta_Ranges s), shards)"
    using sh(1) by (simp add: dec_state_def state_json_def dec_struct_Cons dec_field_def)
  then show ?thesis
    using parse sh(2) by (auto simp: meta_Restore_def)
qed

text \<open>
  (C25) A snapshot of the metadata restores the metadata: restoring the JSON text of a store
  over any other store succeeds and gives back its ranges, its shard configurations and so
  its answer for every key, when the shards are a Go map and their addresses well-formed
  UTF-8.
\<close>

theorem meta_snapshot_roundtrip:
  assumes "shards_ok s"
  shows "\<exists>s''. meta_Restore s' (meta_GetSnapshot s) = (s'', True) \<and> meta_Ranges s'' = meta_Ranges s \<and>
    map_option map_of (meta_Shards s'') = map_option map_of (meta_Shards s) \<and> GetShard s'' key = GetShard s key"
  using assms map_of_by_text meta_Restore_GetSnapshot [OF assms, of s']
  by (auto simp: GetShard_def shards_ok_def comp_def option.map_comp intro!: option.map_cong)

definition sample_meta :: MetaStore where
  "sample_meta = NewMetaStore\<lparr>meta_Ranges := [\<lparr>r_StartKey = None, r_EndKey = Some (lit ''m''), r_ShardID = 1\<rparr>,
     \<lparr>r_StartKey = Some (lit ''m''), r_EndKey = None, r_ShardID = 2\<rparr>],
     meta_Shards := Some [(2, \<lparr>sc_ID = 2, sc_Addrs = Some [lit ''http://b:9002'']\<rparr>), (1, \<lparr>sc_ID = 1, sc_Addrs = None\<rparr>)]\<rparr>"

theorem meta_snapshot_roundtrip_witness:
  "\<exists>s. meta_Restore NewMetaStore (meta_GetSnapshot sample_meta) = (s, True) \<and> meta_Ranges s = meta_Ranges sample_meta"
proof -
  have "utf8_valid (lit ''http://b:9002'')" unfolding utf8_valid_def by code_simp
  then have "shards_ok sample_meta" by (auto simp: shards_ok_def sample_meta_def)
  from meta_snapshot_roundtrip [OF this, of NewMetaStore] show ?thesis by blast
qed

end
