(* ===== verification/Router.thy ===== *)
theory Router
  imports Meta_Store
begin

text \<open>
  The proxy's router, \<^verbatim>\<open>internal/router/router.go\<close>: the cached range list, the linear lookup
  that duplicates the meta store's search, shard addresses, and forwarding of a statement to
  a shard.  The HTTP exchange is a parameter that takes the state of the network and the
  remote shards to a new one and a response.
\<close>

section \<open>State\<close>

record Router =
  rt_MetaURL :: bytes
  rt_ranges :: "Range list"
  rt_ShardAddrs :: "u64 \<rightharpoonup> bytes"

definition NewRouter :: "bytes \<Rightarrow> Router" where
  "NewRouter metaURL = \<lparr>
     rt_MetaURL = metaURL,
     rt_ranges = [\<lparr>r_StartKey = None, r_EndKey = None, r_ShardID = 1\<rparr>],
     rt_ShardAddrs = [1 \<mapsto> lit ''http://localhost:9001'',
                      2 \<mapsto> lit ''http://localhost:9002'',
                      3 \<mapsto> lit ''http://localhost:9003'']\<rparr>"

text \<open>\<open>Refresh\<close> does nothing yet.\<close>

definition Refresh :: "Router \<Rightarrow> Router \<times> 'e option" where
  "Refresh r = (r, None)"

section \<open>Lookup\<close>

fun scan_ranges :: "Range list \<Rightarrow> bytes \<Rightarrow> u64" where
  "scan_ranges [] key = 1"
| "scan_ranges (rng # rngs) key =
     (if (case r_StartKey rng of Some st \<Rightarrow> key < st | None \<Rightarrow> False) then scan_ranges rngs key
      else if (case r_EndKey rng of Some e \<Rightarrow> key \<ge> e | None \<Rightarrow> False) then scan_ranges rngs key
      else r_ShardID rng)"

definition GetShardID :: "Router \<Rightarrow> bytes \<Rightarrow> u64" where
  "GetShardID r key = scan_ranges (rt_ranges r) key"

text \<open>A missing address reads as the empty string.\<close>

definition Locate :: "Router \<Rightarrow> bytes \<Rightarrow> bytes" where
  "Locate r key = (case rt_ShardAddrs r (GetShardID r key) of Some a \<Rightarrow> a | None \<Rightarrow> [])"

section \<open>Forwarding\<close>

record http_response =
  resp_StatusCode :: int
  resp_Body :: "bytes option"   \<comment> \<open>\<open>None\<close>: reading the body failed\<close>

datatype route_error =
    UnknownShard u64
  | RequestFailed
  | BodyReadFailed
  | ShardError int bytes

definition ForwardRequest ::
  "(bytes \<Rightarrow> bytes \<Rightarrow> 'w \<Rightarrow> http_response option \<times> 'w) \<Rightarrow> Router \<Rightarrow> u64 \<Rightarrow> bytes \<Rightarrow> 'w \<Rightarrow>
   (route_error + bytes) \<times> 'w" where
  "ForwardRequest http_post r shardID sql w =
     (case rt_ShardAddrs r shardID of
        None \<Rightarrow> (Inl (UnknownShard shardID), w)
      | Some addr \<Rightarrow>
          (case http_post (addr @ lit ''/execute'') sql w of
             (None, w') \<Rightarrow> (Inl RequestFailed, w')
           | (Some resp, w') \<Rightarrow>
               (case resp_Body resp of
                  None \<Rightarrow> (Inl BodyReadFailed, w')
                | Some body \<Rightarrow>
                    if resp_StatusCode resp \<noteq> 200 then (Inl (ShardError (resp_StatusCode resp) body), w')
                    else (Inr body, w'))))"

section \<open>Lemmas\<close>

lemma scan_ranges_owner:
  "scan_ranges rs key = (case owner rs key of Some r \<Rightarrow> r_ShardID r | None \<Rightarrow> 1)"
  by (induction rs) (auto simp: owner_def in_range_def not_less split: option.splits)

lemma GetShardID_New [simp]: "GetShardID (NewRouter url) key = 1"
  by (simp add: GetShardID_def NewRouter_def)

section \<open>Properties\<close>

text \<open>
  (C35) Client-side routing agrees with the metadata: for a router that caches the ranges of a
  meta store that partition the key space, the linear scan of \<open>GetShardID\<close> and the binary
  search of \<open>GetShard\<close> name the same shard for every key.
\<close>

theorem router_agrees_with_meta:
  assumes "partition_ranges (meta_Ranges s)" and "rt_ranges r = meta_Ranges s"
  shows "GetShard s key = Inr (GetShardID r key)"
proof -
  obtain q where "owner (meta_Ranges s) key = Some q" "GetShard s key = Inr (r_ShardID q)"
    using GetShard_owner [OF assms(1), of key] by blast
  then show ?thesis by (simp add: GetShardID_def scan_ranges_owner assms(2))
qed

text \<open>A meta store with two ranges, split at \<open>m\<close>.\<close>

definition split_store :: MetaStore where
  "split_store = NewMetaStore\<lparr>meta_Ranges :=
     [\<lparr>r_StartKey = None, r_EndKey = Some (lit ''m''), r_ShardID = 1\<rparr>,
      \<lparr>r_StartKey = Some (lit ''m''), r_EndKey = None, r_ShardID = 2\<rparr>]\<rparr>"

theorem router_agrees_with_meta_witness:
  "let r = (NewRouter [])\<lparr>rt_ranges := meta_Ranges split_store\<rparr>
   in GetShard split_store (lit ''k'') = Inr (GetShardID r (lit ''k'')) \<and> GetShardID r (lit ''k'') = 1 \<and>
      GetShard split_store (lit ''m'') = Inr (GetShardID r (lit ''m'')) \<and> GetShardID r (lit ''m'') = 2"
proof -
  let ?r = "(NewRouter [])\<lparr>rt_ranges := meta_Ranges split_store\<rparr>"
  have p: "partition_ranges (meta_Ranges split_store)" by code_simp
  have "GetShard split_store key = Inr (GetShardID ?r key)" for key
    by (rule router_agrees_with_meta [OF p]) simp
  moreover have "GetShardID ?r (lit ''k'') = 1" "GetShardID ?r (lit ''m'') = 2" by code_simp+
  ultimately show ?thesis unfolding Let_def by (intro conjI)
qed

text \<open>
  The router of a fresh proxy sends everything to one place: since \<open>Refresh\<close> never
  fetches a routing table, every key is located at shard 1's address, whatever the
  metadata says; the addresses of shards 2 and 3 are never the location of a key.
\<close>

theorem fresh_router_single_shard:
  "Locate (fst (Refresh (NewRouter url))) key = lit ''http://localhost:9001'' \<and>
   GetShardID (fst (Refresh (NewRouter url))) key = 1"
  by (simp add: Refresh_def Locate_def) (simp add: NewRouter_def)

end
