(* ===== verification/Go_Url.thy ===== *)
theory Go_Url
  imports Go_Strings
begin

text \<open>
  The part of Go's \<^verbatim>\<open>net/url\<close> that carries arguments between the coordinator and the shards:
  \<open>QueryEscape\<close> on the sender's side, and \<^verbatim>\<open>URL.Query().Get\<close> on the receiver's side.
\<close>

section \<open>Escaping\<close>

definition unreserved :: "byte \<Rightarrow> bool" where
  "unreserved c \<longleftrightarrow>
     97 \<le> c \<and> c \<le> 122 \<or> 65 \<le> c \<and> c \<le> 90 \<or> 48 \<le> c \<and> c \<le> 57 \<or> c = 45 \<or> c = 95 \<or> c = 46 \<or> c = 126"

definition upperhex :: "nat \<Rightarrow> byte" where
  "upperhex d = (if d < 10 then of_nat (48 + d) else of_nat (55 + d))"

definition escape_byte :: "byte \<Rightarrow> bytes" where
  "escape_byte c =
     (if unreserved c then [c]
      else if c = 32 then [43]
      else [37, upperhex (unat c div 16), upperhex (unat c mod 16)])"

definition QueryEscape :: "bytes \<Rightarrow> bytes" where
  "QueryEscape s = concat (map escape_byte s)"

definition unhex :: "byte \<Rightarrow> nat option" where
  "unhex c =
     (if 48 \<le> c \<and> c \<le> 57 then Some (unat c - 48)
      else if 97 \<le> c \<and> c \<le> 102 then Some (unat c - 87)
      else if 65 \<le> c \<and> c \<le> 70 then Some (unat c - 55)
      else None)"

text \<open>Unescaping fails on a malformed \<open>%\<close> sequence.\<close>

fun QueryUnescape :: "bytes \<Rightarrow> bytes option" where
  "QueryUnescape [] = Some []"
| "QueryUnescape (c # s) =
     (if c = 37
      then case s of
             a # b # s' \<Rightarrow>
               (case (unhex a, unhex b) of
                  (Some x, Some y) \<Rightarrow> map_option ((#) (of_nat (x * 16 + y))) (QueryUnescape s')
                | _ \<Rightarrow> None)
           | _ \<Rightarrow> None
      else map_option ((#) (if c = 43 then 32 else c)) (QueryUnescape s))"

text \<open>
  \<^verbatim>\<open>Query().Get(name)\<close> on a raw query: the pairs between the ampersands, each cut at its
  first \<open>=\<close>; empty pairs, pairs with a semicolon and pairs that do not unescape are left out.
  The value of the first pair with the name, or the empty string.
\<close>

definition query_pair :: "bytes \<Rightarrow> (bytes \<times> bytes) option" where
  "query_pair p =
     (if p = [] \<or> 59 \<in> set p then None
      else let (k, v) = (case SplitN2 p 61 of [a, b] \<Rightarrow> (a, b) | _ \<Rightarrow> (p, []))
           in case (QueryUnescape k, QueryUnescape v) of
                (Some k', Some v') \<Rightarrow> Some (k', v')
              | _ \<Rightarrow> None)"

definition query_Get :: "bytes \<Rightarrow> bytes \<Rightarrow> bytes" where
  "query_Get q name =
     (case map_of (List.map_filter query_pair (Split q 38)) name of Some v \<Rightarrow> v | None \<Rightarrow> [])"

section \<open>Round trip\<close>

lemma upperhex_facts:
  assumes "d < 16"
  shows "unhex (upperhex d) = Some d" and "upperhex d \<notin> {37, 38, 43, 59, 61}"
proof -
  have "\<forall>d \<in> set [0 ..< 16]. unhex (upperhex d) = Some d \<and> upperhex d \<notin> {37, 38, 43, 59, 61}"
    by code_simp
  with assms show "unhex (upperhex d) = Some d" and "upperhex d \<notin> {37, 38, 43, 59, 61}" by auto
qed

lemma QueryUnescape_escape_byte: "QueryUnescape (escape_byte c @ s) = map_option ((#) c) (QueryUnescape s)"
proof -
  have u: "unat c div 16 < 16" using unat_byte_less [of c] by simp
  have "of_nat (unat c div 16 * 16 + unat c mod 16) = c"
    by (simp only: div_mult_mod_eq of_nat_unat ucast_id)
  then show ?thesis
    using u by (auto simp: escape_byte_def unreserved_def upperhex_facts simp del: of_nat_add of_nat_mult)
qed

lemma QueryUnescape_QueryEscape [simp]: "QueryUnescape (QueryEscape s) = Some s"
  by (induction s) (simp_all add: QueryEscape_def QueryUnescape_escape_byte)

lemma escape_byte_chars: "x \<in> set (escape_byte c) \<Longrightarrow> x \<notin> {38, 59, 61}"
proof -
  have u: "unat c div 16 < 16" using unat_byte_less [of c] by simp
  show "x \<in> set (escape_byte c) \<Longrightarrow> x \<notin> {38, 59, 61}"
    using upperhex_facts(2) [OF u] upperhex_facts(2) [of "unat c mod 16"]
    by (auto simp: escape_byte_def unreserved_def split: if_splits)
qed

lemma QueryEscape_chars: "38 \<notin> set (QueryEscape s)" "59 \<notin> set (QueryEscape s)" "61 \<notin> set (QueryEscape s)"
  using escape_byte_chars by (auto simp: QueryEscape_def)

text \<open>Words of unreserved characters need no escaping.\<close>

lemma QueryEscape_unreserved: "\<forall>c \<in> set s. unreserved c \<Longrightarrow> QueryEscape s = s"
  by (induction s) (auto simp: QueryEscape_def escape_byte_def)

definition arg :: "bytes \<Rightarrow> bytes \<Rightarrow> bytes" where
  "arg name v = name @ [61] @ QueryEscape v"

lemma query_pair_arg:
  assumes "\<forall>c \<in> set name. unreserved c" and "name \<noteq> []"
  shows "query_pair (arg name v) = Some (name, v)"
proof -
  have n: "QueryEscape name = name" using assms(1) by (rule QueryEscape_unreserved)
  have "59 \<notin> set name" "61 \<notin> set name" using QueryEscape_chars [of name] n by simp_all
  moreover have "QueryUnescape name = Some name" using QueryUnescape_QueryEscape [of name] n by simp
  ultimately show ?thesis
    using assms(2) by (simp add: query_pair_def arg_def SplitN2_append QueryEscape_chars)
qed

lemma Split_args:
  assumes "\<forall>(n, v) \<in> set as. (\<forall>c \<in> set n. unreserved c)" and "as \<noteq> []"
  shows "Split (Join (map (\<lambda>(n, v). arg n v) as) [38]) 38 = map (\<lambda>(n, v). arg n v) as"
proof (rule Split_Join)
  show "\<forall>p \<in> set (map (\<lambda>(n, v). arg n v) as). 38 \<notin> set p"
    using assms(1) QueryEscape_chars by (fastforce simp: arg_def unreserved_def)
qed (use assms(2) in simp)

lemma query_Get_args:
  assumes "\<forall>(n, v) \<in> set as. n \<noteq> [] \<and> (\<forall>c \<in> set n. unreserved c)" and "as \<noteq> []"
  shows "query_Get (Join (map (\<lambda>(n, v). arg n v) as) [38]) name =
    (case map_of as name of Some v \<Rightarrow> v | None \<Rightarrow> [])"
proof -
  have "List.map_filter query_pair (map (\<lambda>(n, v). arg n v) as) = as"
    using assms(1) by (induction as) (auto simp: map_filter_simps query_pair_arg)
  moreover have "Split (Join (map (\<lambda>(n, v). arg n v) as) [38]) 38 = map (\<lambda>(n, v). arg n v) as"
    using assms by (intro Split_args) auto
  ultimately show ?thesis by (simp add: query_Get_def)
qed

end
