(* ===== verification/Wire.thy ===== *)
theory Wire
  imports Router Go_Url
begin

text \<open>
  What travels between the coordinator and the shards: HTTP calls, the URLs of the
  transaction endpoints, and the body of a one-shot commit.
\<close>

datatype http_call = HttpGet bytes | HttpPost bytes bytes

text \<open>The JSON object of \<^verbatim>\<open>/txn/oneshot\<close>, declared alike by the sender and the receiver.\<close>

record Req =
  req_TxnID :: bytes
  req_Ts :: u64
  req_Ops :: "(bytes \<times> bytes) list"    \<comment> \<open>key and val\<close>

text \<open>The transaction name is put into the URL as it is.\<close>

definition prepare_query :: "bytes \<Rightarrow> bytes \<Rightarrow> bytes \<Rightarrow> bytes" where
  "prepare_query key val txn =
     lit ''key='' @ QueryEscape key @ lit ''&val='' @ QueryEscape val @ lit ''&txn='' @ txn"

definition commit_query :: "bytes \<Rightarrow> bytes \<Rightarrow> u64 \<Rightarrow> bytes" where
  "commit_query key txn ts =
     lit ''key='' @ QueryEscape key @ lit ''&txn='' @ txn @ lit ''&ts='' @ Sprint_d (unat ts)"

definition abort_query :: "bytes \<Rightarrow> bytes \<Rightarrow> bytes" where
  "abort_query key txn = lit ''key='' @ QueryEscape key @ lit ''&txn='' @ txn"

lemma unreserved_digits: "is_digit c \<Longrightarrow> unreserved c"
  by (simp add: is_digit_def unreserved_def)

lemma unreserved_Sprint_d: "\<forall>c \<in> set (Sprint_d n). unreserved c"
  using Sprint_d_digits [of n] unreserved_digits by blast

lemma arg_names:
  "\<forall>c \<in> set (lit ''key''). unreserved c" "\<forall>c \<in> set (lit ''val''). unreserved c"
  "\<forall>c \<in> set (lit ''txn''). unreserved c" "\<forall>c \<in> set (lit ''ts''). unreserved c"
  by (simp_all add: lit_def unreserved_def)

lemma lit_names [simp]:
  "lit ''key'' \<noteq> []" "lit ''val'' \<noteq> []" "lit ''txn'' \<noteq> []" "lit ''ts'' \<noteq> []"
  "lit ''key'' \<noteq> lit ''val''" "lit ''key'' \<noteq> lit ''txn''" "lit ''key'' \<noteq> lit ''ts''"
  "lit ''val'' \<noteq> lit ''txn''" "lit ''txn'' \<noteq> lit ''ts''"
  by (simp_all add: lit_def)

lemma query_roundtrip:
  assumes "\<forall>c \<in> set txn. unreserved c"
  shows "query_Get (prepare_query key val txn) (lit ''key'') = key \<and>
    query_Get (prepare_query key val txn) (lit ''val'') = val \<and>
    query_Get (prepare_query key val txn) (lit ''txn'') = txn \<and>
    query_Get (commit_query key txn ts) (lit ''key'') = key \<and>
    query_Get (commit_query key txn ts) (lit ''txn'') = txn \<and>
    query_Get (commit_query key txn ts) (lit ''ts'') = Sprint_d (unat ts) \<and>
    query_Get (abort_query key txn) (lit ''key'') = key \<and>
    query_Get (abort_query key txn) (lit ''txn'') = txn"
proof -
  let ?a = "\<lambda>as. Join (map (\<lambda>(n, v). arg n v) as) [38]"
  have t: "QueryEscape txn = txn" using assms by (rule QueryEscape_unreserved)
  have d: "QueryEscape (Sprint_d (unat ts)) = Sprint_d (unat ts)"
    using unreserved_Sprint_d by (rule QueryEscape_unreserved)
  have p: "prepare_query key val txn = ?a [(lit ''key'', key), (lit ''val'', val), (lit ''txn'', txn)]"
    by (simp add: prepare_query_def arg_def t) (simp add: lit_def)
  have c: "commit_query key txn ts = ?a [(lit ''key'', key), (lit ''txn'', txn), (lit ''ts'', Sprint_d (unat ts))]"
    by (simp add: commit_query_def arg_def t d) (simp add: lit_def)
  have a: "abort_query key txn = ?a [(lit ''key'', key), (lit ''txn'', txn)]"
    by (simp add: abort_query_def arg_def t) (simp add: lit_def)
  note names = arg_names lit_names
  have gp: "query_Get (prepare_query key val txn) n =
      (case map_of [(lit ''key'', key), (lit ''val'', val), (lit ''txn'', txn)] n of Some v \<Rightarrow> v | None \<Rightarrow> [])" for n
    unfolding p by (rule query_Get_args) (use names in auto)
  have gc: "query_Get (commit_query key txn ts) n =
      (case map_of [(lit ''key'', key), (lit ''txn'', txn), (lit ''ts'', Sprint_d (unat ts))] n of Some v \<Rightarrow> v | None \<Rightarrow> [])" for n
    unfolding c by (rule query_Get_args) (use names in auto)
  have ga: "query_Get (abort_query key txn) n =
      (case map_of [(lit ''key'', key), (lit ''txn'', txn)] n of Some v \<Rightarrow> v | None \<Rightarrow> [])" for n
    unfolding a by (rule query_Get_args) (use names in auto)
  show ?thesis by (simp add: gp gc ga lit_names [symmetric])
qed

text \<open>
  The shard receives what the coordinator sends: reading the query of a prepare, commit or
  abort URL gives back the key, the value, the transaction name and the timestamp, for any
  bytes in key and value and any transaction name of unreserved characters.
\<close>

theorem txn_query_roundtrip:
  assumes "\<forall>c \<in> set txn. unreserved c"
  shows "query_Get (prepare_query key val txn) (lit ''key'') = key \<and>
    query_Get (prepare_query key val txn) (lit ''val'') = val \<and>
    query_Get (prepare_query key val txn) (lit ''txn'') = txn \<and>
    query_Get (commit_query key txn ts) (lit ''key'') = key \<and>
    query_Get (commit_query key txn ts) (lit ''txn'') = txn \<and>
    Sscan_d (query_Get (commit_query key txn ts) (lit ''ts'')) = ts \<and>
    query_Get (abort_query key txn) (lit ''key'') = key \<and>
    query_Get (abort_query key txn) (lit ''txn'') = txn"
  using query_roundtrip [OF assms, of key val ts] by simp

theorem txn_query_roundtrip_witness:
  "query_Get (prepare_query (lit ''t:a b'') (lit ''x&y=100%'') (lit ''txn-17'')) (lit ''val'') = lit ''x&y=100%''"
  using txn_query_roundtrip [of "lit ''txn-17''" "lit ''t:a b''" "lit ''x&y=100%''" 0]
  by (simp add: lit_def unreserved_def)

end
