(* ===== verification/Sql_Plan.thy ===== *)
theory Sql_Plan
  imports Go_Strings
begin

text \<open>
  Plans and their construction: \<^verbatim>\<open>internal/sql/plan.go\<close>, \<^verbatim>\<open>internal/sql/parser.go\<close> and the
  routing planner of \<^verbatim>\<open>internal/planner/planner.go\<close>.  The SQL parser is the package
  \<^verbatim>\<open>vitess-sqlparser\<close>, which is not part of the repository: the operations the code calls
  are the record \<open>sqlparser\<close>, and the syntax tree is seen only through the node types the
  code asks for, every other node being opaque (type \<open>'x\<close>).
\<close>

section \<open>The syntax tree as the code sees it\<close>

datatype 'x Expr =
    ComparisonExpr (cmp_Operator: bytes) (cmp_Left: "'x Expr") (cmp_Right: "'x Expr")
  | ColName 'x
  | SQLVal (sval_Val: bytes)
  | OtherExpr 'x

datatype 'x TableExpr = AliasedTableExpr 'x | OtherTableExpr 'x

datatype 'x SelectExpr = AliasedExpr "'x Expr" | StarExpr | OtherSelectExpr 'x

datatype 'x InsertRows = Values "'x Expr list list" | OtherRows 'x

record 'x Select =
  sel_From :: "'x TableExpr list"
  sel_Where :: "'x Expr option"
  sel_SelectExprs :: "'x SelectExpr list"

record 'x Insert =
  ins_Table :: 'x
  ins_Columns :: "'x list"
  ins_Rows :: "'x InsertRows"

datatype 'x Statement = SelectStmt "'x Select" | InsertStmt "'x Insert" | OtherStatement 'x

text \<open>
  \<open>Walk e\<close> is the sequence of expressions that \<^verbatim>\<open>sqlparser.Walk\<close> visits below a \<open>WHERE\<close>
  clause \<open>e\<close>, in its order, with a visitor that never stops it.
\<close>

record ('x, 'pe) sqlparser =
  Parse :: "bytes \<Rightarrow> 'pe + 'x Statement"
  String_Expr :: "'x Expr \<Rightarrow> bytes"
  String_Table :: "'x \<Rightarrow> bytes"
  String_Col :: "'x \<Rightarrow> bytes"
  Walk :: "'x Expr \<Rightarrow> 'x Expr list"

abbreviation EqualStr :: bytes where
  "EqualStr \<equiv> lit ''=''"

section \<open>Plan nodes\<close>

datatype NodeType = NodeScan | NodeFilter | NodeProject | NodeInsert

datatype PlanNode =
    ScanNode (scan_Table: bytes)
  | PointGetNode (pget_Table: bytes) (pget_Key: bytes)
  | InsertNode (insn_Table: bytes) (insn_Columns: "bytes list") (insn_Values: "bytes list")
  | ProjectNode (proj_Input: PlanNode) (proj_Columns: "bytes list")
  | FilterNode (filt_Input: PlanNode) (filt_Expr: bytes)

fun node_Type :: "PlanNode \<Rightarrow> NodeType" where
  "node_Type (ScanNode _) = NodeScan"
| "node_Type (PointGetNode _ _) = NodeScan"
| "node_Type (InsertNode _ _ _) = NodeInsert"
| "node_Type (ProjectNode _ _) = NodeProject"
| "node_Type (FilterNode _ _) = NodeFilter"

text \<open>\<^verbatim>\<open>%v\<close> of a string slice is its elements in brackets, separated by blanks.\<close>

fun node_String :: "PlanNode \<Rightarrow> bytes" where
  "node_String (ScanNode t) = lit ''Scan('' @ t @ lit '')''"
| "node_String (PointGetNode t k) = lit ''PointGet('' @ t @ lit '', '' @ k @ lit '')''"
| "node_String (InsertNode t _ _) = lit ''Insert('' @ t @ lit '')''"
| "node_String (ProjectNode _ cols) = lit ''Project(['' @ Join cols (lit '' '') @ lit ''])''"
| "node_String (FilterNode _ e) = lit ''Filter('' @ e @ lit '')''"

fun Children :: "PlanNode \<Rightarrow> PlanNode list" where
  "Children (ProjectNode inp _) = [inp]"
| "Children (FilterNode inp _) = [inp]"
| "Children _ = []"

section \<open>ParseToPlan\<close>

datatype 'pe plan_error =
    ParseError 'pe
  | UnsupportedStatement
  | SelectWithoutFrom
  | ComplexFrom
  | InsertFromSelect

text \<open>The test for a point lookup, an equality between a column and a value.\<close>

fun col_eq_val :: "'x Expr \<Rightarrow> bytes option" where
  "col_eq_val (ComparisonExpr operator (ColName _) (SQLVal v)) = (if operator = EqualStr then Some v else None)"
| "col_eq_val _ = None"

fun select_cols :: "('x, 'pe) sqlparser \<Rightarrow> 'x SelectExpr list \<Rightarrow> bytes list" where
  "select_cols P [] = []"
| "select_cols P (AliasedExpr e # es) = String_Expr P e # select_cols P es"
| "select_cols P (StarExpr # es) = lit ''*'' # select_cols P es"
| "select_cols P (OtherSelectExpr _ # es) = select_cols P es"

definition buildSelectPlan :: "('x, 'pe) sqlparser \<Rightarrow> 'x Select \<Rightarrow> 'pe plan_error + PlanNode" where
  "buildSelectPlan P stmt =
     (case sel_From stmt of
        [] \<Rightarrow> Inl SelectWithoutFrom
      | OtherTableExpr _ # _ \<Rightarrow> Inl ComplexFrom
      | AliasedTableExpr t # _ \<Rightarrow>
          let tableNameStr = String_Table P t;
              node = ScanNode tableNameStr;
              cols = select_cols P (sel_SelectExprs stmt)
          in case sel_Where stmt of
               None \<Rightarrow> Inr (ProjectNode node cols)
             | Some expr \<Rightarrow>
                 (case col_eq_val expr of
                    Some v \<Rightarrow> Inr (PointGetNode tableNameStr v)
                  | None \<Rightarrow> Inr (ProjectNode (FilterNode node (String_Expr P expr)) cols)))"

fun value_bytes :: "('x, 'pe) sqlparser \<Rightarrow> 'x Expr \<Rightarrow> bytes" where
  "value_bytes P (SQLVal v) = v"
| "value_bytes P e = String_Expr P e"

definition buildInsertPlan :: "('x, 'pe) sqlparser \<Rightarrow> 'x Insert \<Rightarrow> 'pe plan_error + PlanNode" where
  "buildInsertPlan P stmt =
     (let tableNameStr = String_Table P (ins_Table stmt);
          cols = map (String_Col P) (ins_Columns stmt)
      in case ins_Rows stmt of
           OtherRows _ \<Rightarrow> Inl InsertFromSelect
         | Values rowsVals \<Rightarrow>
             let values = (case rowsVals of [] \<Rightarrow> [] | row # _ \<Rightarrow> map (value_bytes P) row)
             in Inr (InsertNode tableNameStr cols values))"

definition ParseToPlan :: "('x, 'pe) sqlparser \<Rightarrow> bytes \<Rightarrow> 'pe plan_error + PlanNode" where
  "ParseToPlan P sql =
     (case Parse P sql of
        Inl err \<Rightarrow> Inl (ParseError err)
      | Inr (SelectStmt s) \<Rightarrow> buildSelectPlan P s
      | Inr (InsertStmt s) \<Rightarrow> buildInsertPlan P s
      | Inr (OtherStatement _) \<Rightarrow> Inl UnsupportedStatement)"

section \<open>The routing planner\<close>

datatype PlanType = PlanSingle | PlanBroadcast

record Plan =
  plan_Type :: PlanType
  plan_RoutingKey :: bytes

datatype 'pe route_plan_error = PlannerParseError 'pe | InsertWithoutValues | EmptyRow

definition analyzeInsert :: "('x, 'pe) sqlparser \<Rightarrow> 'x Insert \<Rightarrow> 'pe route_plan_error + Plan" where
  "analyzeInsert P stmt =
     (case ins_Rows stmt of
        OtherRows _ \<Rightarrow> Inl InsertWithoutValues
      | Values [] \<Rightarrow> Inl InsertWithoutValues
      | Values ([] # _) \<Rightarrow> Inl EmptyRow
      | Values ((valExpr # _) # _) \<Rightarrow>
          let keyStr = String_Expr P valExpr
          in case valExpr of
               SQLVal v \<Rightarrow> Inr \<lparr>plan_Type = PlanSingle, plan_RoutingKey = v\<rparr>
             | _ \<Rightarrow> Inr \<lparr>plan_Type = PlanSingle, plan_RoutingKey = keyStr\<rparr>)"

text \<open>The visitor of \<open>analyzeSelect\<close> closes over \<open>foundKey\<close> and \<open>found\<close>; it continues below a node while nothing is found.\<close>

definition analyze_visit :: "'x Expr \<Rightarrow> bytes \<times> bool \<Rightarrow> bool \<times> (bytes \<times> bool)" where
  "analyze_visit node st =
     (case st of (foundKey, found) \<Rightarrow>
        if found then (False, st)
        else case col_eq_val node of
               Some v \<Rightarrow> (False, (v, True))
             | None \<Rightarrow> (True, st))"

definition analyzeSelect :: "('x, 'pe) sqlparser \<Rightarrow> 'x Select \<Rightarrow> 'pe route_plan_error + Plan" where
  "analyzeSelect P stmt =
     (case sel_Where stmt of
        None \<Rightarrow> Inr \<lparr>plan_Type = PlanBroadcast, plan_RoutingKey = []\<rparr>
      | Some w \<Rightarrow>
          (case iterate analyze_visit (Walk P w) ([], False) of (foundKey, found) \<Rightarrow>
             if found then Inr \<lparr>plan_Type = PlanSingle, plan_RoutingKey = foundKey\<rparr>
             else Inr \<lparr>plan_Type = PlanBroadcast, plan_RoutingKey = []\<rparr>))"

definition Analyze :: "('x, 'pe) sqlparser \<Rightarrow> bytes \<Rightarrow> 'pe route_plan_error + Plan" where
  "Analyze P sql =
     (case Parse P sql of
        Inl err \<Rightarrow> Inl (PlannerParseError err)
      | Inr (SelectStmt s) \<Rightarrow> analyzeSelect P s
      | Inr (InsertStmt s) \<Rightarrow> analyzeInsert P s
      | Inr (OtherStatement _) \<Rightarrow> Inr \<lparr>plan_Type = PlanSingle, plan_RoutingKey = lit ''default''\<rparr>)"

section \<open>Properties\<close>

lemma iterate_analyze_visit:
  "iterate analyze_visit es ([], False) =
     (case List.map_filter col_eq_val es of [] \<Rightarrow> ([], False) | v # _ \<Rightarrow> (v, True))"
  by (induction es) (auto simp: analyze_visit_def map_filter_simps split: option.split)

lemma buildSelectPlan_PointGet:
  "buildSelectPlan P s = Inr (PointGetNode t k) \<Longrightarrow> \<exists>e. sel_Where s = Some e \<and> col_eq_val e = Some k"
  by (auto simp: buildSelectPlan_def Let_def split: list.splits TableExpr.splits option.splits)

lemma buildInsertPlan_not_PointGet: "buildInsertPlan P s \<noteq> Inr (PointGetNode t k)"
  by (auto simp: buildInsertPlan_def Let_def split: InsertRows.splits)

lemma buildSelectPlan_not_Insert: "buildSelectPlan P s \<noteq> Inr (InsertNode t cols vs)"
  by (auto simp: buildSelectPlan_def Let_def split: list.splits TableExpr.splits option.splits)

text \<open>
  (C34) Consistent routing: the routing planner sends a point lookup and an \<open>INSERT\<close> of a row
  to the shard of the same key that the shard's own plan uses, the value compared with and
  the first value of the row; the walk is only assumed to visit the root of a clause first.
\<close>

theorem statement_routed_by_plan_key:
  assumes "\<forall>e. \<exists>rest. Walk P e = e # rest"
  shows "(ParseToPlan P sql = Inr (PointGetNode t k) \<longrightarrow>
      Analyze P sql = Inr \<lparr>plan_Type = PlanSingle, plan_RoutingKey = k\<rparr>) \<and>
    (ParseToPlan P sql = Inr (InsertNode t cols (k # vs)) \<longrightarrow>
      Analyze P sql = Inr \<lparr>plan_Type = PlanSingle, plan_RoutingKey = k\<rparr>)"
proof (intro conjI impI)
  assume "ParseToPlan P sql = Inr (PointGetNode t k)"
  then obtain s where s: "Parse P sql = Inr (SelectStmt s)" "buildSelectPlan P s = Inr (PointGetNode t k)"
    by (auto simp: ParseToPlan_def buildInsertPlan_not_PointGet split: sum.splits Statement.splits)
  then obtain e rest where "sel_Where s = Some e" "col_eq_val e = Some k" "Walk P e = e # rest"
    using buildSelectPlan_PointGet assms by blast
  with s(1) show "Analyze P sql = Inr \<lparr>plan_Type = PlanSingle, plan_RoutingKey = k\<rparr>"
    by (simp add: Analyze_def analyzeSelect_def analyze_visit_def)
next
  assume "ParseToPlan P sql = Inr (InsertNode t cols (k # vs))"
  then obtain s where s: "Parse P sql = Inr (InsertStmt s)"
      "buildInsertPlan P s = Inr (InsertNode t cols (k # vs))"
    by (auto simp: ParseToPlan_def buildSelectPlan_not_Insert split: sum.splits Statement.splits)
  then show "Analyze P sql = Inr \<lparr>plan_Type = PlanSingle, plan_RoutingKey = k\<rparr>"
    by (auto simp: Analyze_def analyzeInsert_def buildInsertPlan_def Let_def
        split: InsertRows.splits list.splits Expr.splits)
qed

text \<open>A parser of one statement, for the witnesses.\<close>

definition fixed_parser :: "'x Statement \<Rightarrow> ('x, unit) sqlparser" where
  "fixed_parser st = \<lparr>Parse = (\<lambda>_. Inr st), String_Expr = (\<lambda>_. []), String_Table = (\<lambda>_. lit ''t''),
     String_Col = (\<lambda>_. []), Walk = (\<lambda>e. [e])\<rparr>"

definition select_where :: "unit Expr option \<Rightarrow> unit Statement" where
  "select_where w = SelectStmt
     \<lparr>sel_From = [AliasedTableExpr ()], sel_Where = w, sel_SelectExprs = [StarExpr]\<rparr>"

theorem statement_routed_by_plan_key_witness:
  "ParseToPlan (fixed_parser (select_where (Some (ComparisonExpr EqualStr (ColName ()) (SQLVal (lit ''a'')))))) []
     = Inr (PointGetNode (lit ''t'') (lit ''a'')) \<and>
   Analyze (fixed_parser (select_where (Some (ComparisonExpr EqualStr (ColName ()) (SQLVal (lit ''a'')))))) []
     = Inr \<lparr>plan_Type = PlanSingle, plan_RoutingKey = lit ''a''\<rparr>"
proof -
  let ?P = "fixed_parser (select_where (Some (ComparisonExpr EqualStr (ColName ()) (SQLVal (lit ''a'')))))"
  have "ParseToPlan ?P [] = Inr (PointGetNode (lit ''t'') (lit ''a''))"
    by (simp add: ParseToPlan_def fixed_parser_def select_where_def buildSelectPlan_def)
  with statement_routed_by_plan_key [of ?P "[]" "lit ''t''" "lit ''a''"] show ?thesis
    by (simp add: fixed_parser_def)
qed

text \<open>
  The route of a \<open>SELECT\<close>: it goes to a single shard exactly when some node of its
  \<open>WHERE\<close> clause is an equality between a column and a value, and then to the shard of the
  first one in the order of the walk, whatever connectives stand above it; otherwise it is
  broadcast.
\<close>

theorem select_route:
  "analyzeSelect P s =
     (case sel_Where s of
        None \<Rightarrow> Inr \<lparr>plan_Type = PlanBroadcast, plan_RoutingKey = []\<rparr>
      | Some w \<Rightarrow>
          (case List.map_filter col_eq_val (Walk P w) of
             [] \<Rightarrow> Inr \<lparr>plan_Type = PlanBroadcast, plan_RoutingKey = []\<rparr>
           | v # _ \<Rightarrow> Inr \<lparr>plan_Type = PlanSingle, plan_RoutingKey = v\<rparr>))"
  by (simp add: analyzeSelect_def iterate_analyze_visit split: option.split list.split)

end
