(* ===== verification/Engine.thy ===== *)
theory Engine
  imports Store_Machine Range_Scan
begin

text \<open>
  The interface \<open>Engine\<close> of \<^verbatim>\<open>internal/storage/engine.go\<close> through which the SQL executor
  and the replicated state machine use the store: a record of operations, the contract they
  promise as a locale over the abstract multi-version store, and the memory store as its
  provider.
\<close>

section \<open>The interface\<close>

text \<open>
  \<open>eng_Scan\<close> gives the error of the scan and the pairs it offers to a handler that never
  stops; a handler is run over them by \<open>iterate\<close>.
\<close>

record 'e Engine =
  eng_Put :: "'e \<Rightarrow> bytes \<Rightarrow> slice \<Rightarrow> 'e \<times> store_error option"
  eng_Get :: "'e \<Rightarrow> bytes \<Rightarrow> store_error + slice"
  eng_Scan :: "'e \<Rightarrow> bytes \<Rightarrow> slice \<Rightarrow> store_error option \<times> (bytes \<times> slice) list"
  eng_GetTxn :: "'e \<Rightarrow> bytes \<Rightarrow> u64 \<Rightarrow> store_error + slice"
  eng_Prepare :: "'e \<Rightarrow> bytes \<Rightarrow> slice \<Rightarrow> bytes \<Rightarrow> 'e \<times> store_error option"
  eng_Commit :: "'e \<Rightarrow> bytes \<Rightarrow> bytes \<Rightarrow> u64 \<Rightarrow> 'e \<times> store_error option"
  eng_Abort :: "'e \<Rightarrow> bytes \<Rightarrow> bytes \<Rightarrow> 'e \<times> store_error option"
  eng_Close :: "'e \<Rightarrow> 'e \<times> store_error option"

definition memory_engine :: "'t btree_ops \<Rightarrow> 't MemoryStore Engine" where
  "memory_engine B = \<lparr>
     eng_Put = Put B,
     eng_Get = Get B,
     eng_Scan = (\<lambda>s start end.
       case Scan B s start end (\<lambda>k v xs. (True, xs @ [(k, v)])) [] of (xs, err) \<Rightarrow> (err, xs)),
     eng_GetTxn = GetTxn B,
     eng_Prepare = Prepare,
     eng_Commit = Commit B,
     eng_Abort = Abort,
     eng_Close = Close\<rparr>"

text \<open>Running a handler over the offered pairs is what \<open>Scan\<close> does with it.\<close>

lemma fold_snoc: "fold (\<lambda>x xs. xs @ [f x]) ys xs = xs @ map f ys"
  by (induction ys arbitrary: xs) auto

lemma iterate_map: "iterate f (map g xs) s = iterate (\<lambda>x. f (g x)) xs s"
  by (induction xs arbitrary: s) (auto split: prod.split)

lemma memory_engine_Scan:
  "eng_Scan (memory_engine B) s start end = (None, map entry (scan_items B s start end))"
  by (simp add: memory_engine_def Scan_items iterate_all fold_snoc entry_def [abs_def])

lemma memory_engine_Scan_iter:
  "Scan B s start end iter x =
     (case eng_Scan (memory_engine B) s start end of
        (err, xs) \<Rightarrow> (iterate (\<lambda>(k, v). iter k v) xs x, err))"
  by (simp add: memory_engine_Scan Scan_items iterate_map entry_def [abs_def])

section \<open>The contract\<close>

text \<open>The keys of which the abstract store holds versions, and when a read or a scan is exact.\<close>

definition stored_keys :: "mvcc_state \<Rightarrow> bytes set" where
  "stored_keys m = {k. \<exists>ts. versions m k ts \<noteq> None}"

definition readable :: "mvcc_state \<Rightarrow> bytes \<Rightarrow> bool" where
  "readable m key \<longleftrightarrow> (\<forall>k ts. versions m k ts \<noteq> None \<longrightarrow> prefix key (EncodeKey k ts) \<longrightarrow> k = key)"

definition scannable :: "mvcc_state \<Rightarrow> bytes \<Rightarrow> bool" where
  "scannable m start \<longleftrightarrow>
     prefix_free (stored_keys m) \<and> (\<forall>k \<in> stored_keys m. \<not> strict_prefix k start)"

locale mvcc_engine =
  fixes E :: "'e Engine" and einv :: "'e \<Rightarrow> bool" and abs :: "'e \<Rightarrow> mvcc_state"
  assumes Prepare_law: "einv e \<Longrightarrow> eng_Prepare E e key v txn = (e', err) \<Longrightarrow>
      einv e' \<and> abs e' = spec_cmd (abs e) (CPrepare key v txn) \<and>
      (err = None \<longleftrightarrow> available (abs e) key txn)"
    and Commit_law: "einv e \<Longrightarrow> eng_Commit E e key txn ts = (e', err) \<Longrightarrow>
      einv e' \<and> abs e' = spec_cmd (abs e) (CCommit key txn ts) \<and>
      (err = None \<longleftrightarrow> holds_intent (abs e) key txn)"
    and Abort_law: "einv e \<Longrightarrow> eng_Abort E e key txn = (e', err) \<Longrightarrow>
      einv e' \<and> abs e' = spec_cmd (abs e) (CAbort key txn) \<and>
      (err = None \<longleftrightarrow> available (abs e) key txn)"
    and GetTxn_locked_law: "intents (abs e) key = Some l \<Longrightarrow>
      eng_GetTxn E e key ts = Inl (LockedBy key (lock_TxnID l))"
    and GetTxn_law: "einv e \<Longrightarrow> intents (abs e) key = None \<Longrightarrow> readable (abs e) key \<Longrightarrow>
      eng_GetTxn E e key ts =
        Inr (case newest (versions (abs e) key) ts of Some v \<Rightarrow> v | None \<Rightarrow> None)"
    and Scan_law: "einv e \<Longrightarrow> eng_Scan E e start end = (err, xs) \<Longrightarrow>
      err = None \<and> sorted_wrt (\<lambda>x y. fst x < fst y) xs \<and>
      (\<forall>raw v. (raw, v) \<in> set xs \<longrightarrow> (\<exists>key ts. raw = EncodeKey key ts \<and> versions (abs e) key ts = Some v \<and> (\<forall>en. end = Some en \<longrightarrow> key < en)))"
    and Scan_complete_law: "einv e \<Longrightarrow> eng_Scan E e start (Some en) = (err, xs) \<Longrightarrow>
      scannable (abs e) start \<Longrightarrow> versions (abs e) key ts = Some v \<Longrightarrow>
      start \<le> key \<Longrightarrow> key < en \<Longrightarrow> (EncodeKey key ts, v) \<in> set xs"
begin

text \<open>An intent placed and committed by one transaction becomes a version.\<close>

lemma Prepare_Commit:
  assumes "einv e" and "available (abs e) key txn"
    and "eng_Prepare E e key v txn = (e1, err1)" and "eng_Commit E e1 key txn ts = (e2, err2)"
  shows "err1 = None \<and> err2 = None \<and> einv e2 \<and>
    abs e2 = spec_release key (spec_add_version key ts v (abs e))"
proof -
  have p: "einv e1" "abs e1 = spec_cmd (abs e) (CPrepare key v txn)" "err1 = None"
    using Prepare_law [OF assms(1,3)] assms(2) by auto
  have c: "einv e2" "abs e2 = spec_cmd (abs e1) (CCommit key txn ts)"
    "err2 = None \<longleftrightarrow> holds_intent (abs e1) key txn"
    using Commit_law [OF p(1) assms(4)] by auto
  show ?thesis
    using p c assms(2) by (simp add: holds_intent_def spec_release_def spec_add_version_def)
qed

lemma readable_add: "readable (spec_release key (spec_add_version key ts v m)) key \<longleftrightarrow> readable m key"
  by (auto simp: readable_def spec_release_def spec_add_version_def)

end

section \<open>The memory store keeps the contract\<close>

lemma stored_keys_view:
  assumes "btree_api B tinv" and "store_inv B tinv s"
  shows "stored_keys (view B s) = user_keys B s"
proof -
  have "\<exists>ts. raw = EncodeKey (fst (DecodeKey raw)) ts" if "raw \<in> dom (tree_map B (ms_tree s))" for raw
    using btree_api.stored_rawE [OF assms, of raw] that by (metis DecodeKey_EncodeKey domD fst_conv)
  then have "\<exists>ts. EncodeKey (fst (DecodeKey raw)) ts \<in> dom (tree_map B (ms_tree s))"
    if "raw \<in> dom (tree_map B (ms_tree s))" for raw
    using that by metis
  then show ?thesis
    by (force simp: stored_keys_def user_keys_def image_iff)
qed

lemma readable_view:
  assumes "btree_api B tinv" and "store_inv B tinv s" and "readable (view B s) key"
  shows "unshadowed B s key"
  using assms(3) btree_api.stored_rawE [OF assms(1,2)]
  unfolding unshadowed_def readable_def by (metis DecodeKey_EncodeKey domD fst_conv option.distinct(1) view_sel(1))

lemma scannable_view:
  assumes "btree_api B tinv" and "store_inv B tinv s" and "scannable (view B s) start"
    and "tree_map B (ms_tree s) (EncodeKey key ts) = Some v" and "start \<le> key" and "key < e"
  shows "(EncodeKey key ts, v) \<in> set (map entry (scan_items B s start (Some e)))"
proof -
  have sc: "prefix_free (user_keys B s)" "\<forall>k \<in> user_keys B s. \<not> strict_prefix k start"
    using assms(3) by (simp_all add: scannable_def stored_keys_view [OF assms(1,2)])
  have "EncodeKey key ts \<in> item_key ` set (scan_items B s start (Some e))"
    unfolding btree_api.scan_items_exact [OF assms(1,2) sc] using assms(4-6) by auto
  then obtain i where i: "i \<in> set (scan_items B s start (Some e))" "item_key i = EncodeKey key ts"
    by auto
  with btree_api.scan_items_set(1) [OF assms(1) btree_api.store_invD(1) [OF assms(1,2)] i(1)] assms(4)
  have "entry i = (EncodeKey key ts, v)" by (simp add: entry_def)
  with i show ?thesis by force
qed

lemma memory_Prepare_law:
  assumes "store_inv B tinv s" and "btree_api B tinv" and "Prepare s key v txn = (s', err)"
  shows "store_inv B tinv s' \<and> view B s' = spec_cmd (view B s) (CPrepare key v txn) \<and>
    (err = None \<longleftrightarrow> available (view B s) key txn)"
proof (intro conjI)
  show "store_inv B tinv s'"
    using btree_api.store_inv_Prepare [OF assms(2,1), of key v txn] assms(3) by simp
  show "view B s' = spec_cmd (view B s) (CPrepare key v txn)"
    using btree_api.exec_cmd_refines [OF assms(2,1), of "CPrepare key v txn"] assms(3) by (simp del: spec_cmd.simps)
  show "err = None \<longleftrightarrow> available (view B s) key txn"
    using assms(3) by (auto simp: Prepare_def available_def Let_def split: option.splits if_splits)
qed

lemma memory_Commit_law:
  assumes "store_inv B tinv s" and "btree_api B tinv" and "Commit B s key txn ts = (s', err)"
  shows "store_inv B tinv s' \<and> view B s' = spec_cmd (view B s) (CCommit key txn ts) \<and>
    (err = None \<longleftrightarrow> holds_intent (view B s) key txn)"
proof (intro conjI)
  show "store_inv B tinv s'"
    using btree_api.store_inv_Commit [OF assms(2,1), of key txn ts] assms(3) by simp
  show "view B s' = spec_cmd (view B s) (CCommit key txn ts)"
    using btree_api.exec_cmd_refines [OF assms(2,1), of "CCommit key txn ts"] assms(3) by (simp del: spec_cmd.simps)
  show "err = None \<longleftrightarrow> holds_intent (view B s) key txn"
    using assms(3) by (auto simp: Commit_def holds_intent_def Let_def split: option.splits if_splits)
qed

lemma memory_Abort_law:
  assumes "store_inv B tinv s" and "btree_api B tinv" and "Abort s key txn = (s', err)"
  shows "store_inv B tinv s' \<and> view B s' = spec_cmd (view B s) (CAbort key txn) \<and>
    (err = None \<longleftrightarrow> available (view B s) key txn)"
proof (intro conjI)
  show "store_inv B tinv s'"
    using btree_api.store_inv_Abort [OF assms(2,1), of key txn] assms(3) by simp
  show "view B s' = spec_cmd (view B s) (CAbort key txn)"
    using btree_api.exec_cmd_refines [OF assms(2,1), of "CAbort key txn"] assms(3) by (simp del: spec_cmd.simps)
  show "err = None \<longleftrightarrow> available (view B s) key txn"
    using assms(3) by (auto simp: Abort_def available_def Let_def split: option.splits if_splits)
qed

lemma memory_GetTxn_law:
  assumes "store_inv B tinv s" and "btree_api B tinv" and "ms_locks s key = None"
    and "readable (view B s) key"
  shows "GetTxn B s key ts = Inr (case newest (versions (view B s) key) ts of Some v \<Rightarrow> v | None \<Rightarrow> None)"
  using btree_api.mvccGetLocked_unshadowed [OF assms(2,1) readable_view [OF assms(2,1,4)], of ts] assms(3)
  by (simp add: GetTxn_def split: option.split)

lemma memory_Scan_law:
  assumes "store_inv B tinv s" and "btree_api B tinv"
  shows "sorted_wrt (\<lambda>x y. fst x < fst y) (map entry (scan_items B s start end))"
    and "(raw, v) \<in> set (map entry (scan_items B s start end)) \<Longrightarrow>
      \<exists>key ts. raw = EncodeKey key ts \<and> versions (view B s) key ts = Some v \<and> (\<forall>en. end = Some en \<longrightarrow> key < en)"
proof -
  note t = btree_api.store_invD(1) [OF assms(2,1)]
  show "sorted_wrt (\<lambda>x y. fst x < fst y) (map entry (scan_items B s start end))"
    using btree_api.scan_items_sorted [OF assms(2) t, of start "end"]
    by (simp add: sorted_wrt_map entry_def item_Less_iff [abs_def])
  assume "(raw, v) \<in> set (map entry (scan_items B s start end))"
  then have raw: "tree_map B (ms_tree s) raw = Some v" and before: "before_end end (mk_item raw v)"
    using btree_api.scan_items_set [OF assms(2) t, of "mk_item raw v" start "end"]
    by (simp_all add: entry_image)
  obtain key ts where "raw = EncodeKey key ts" using btree_api.stored_rawE [OF assms(2,1) raw] .
  with raw before show "\<exists>key ts. raw = EncodeKey key ts \<and> versions (view B s) key ts = Some v \<and>
      (\<forall>en. end = Some en \<longrightarrow> key < en)"
    by (auto simp: before_end_def split: option.splits)
qed

lemma memory_engine_sel [simp]:
  "eng_GetTxn (memory_engine B) = GetTxn B"
  "eng_Prepare (memory_engine B) = Prepare"
  "eng_Commit (memory_engine B) = Commit B"
  "eng_Abort (memory_engine B) = Abort"
  by (simp_all add: memory_engine_def)

sublocale btree_api < engine_impl: mvcc_engine "memory_engine B" "store_inv B tinv" "view B"
proof (unfold_locales, goal_cases)
  case (1 e key v txn e' err)
  then show ?case using memory_Prepare_law [OF _ btree_api_axioms] by (metis memory_engine_sel(2))
next
  case (2 e key txn ts e' err)
  then show ?case using memory_Commit_law [OF _ btree_api_axioms] by (metis memory_engine_sel(3))
next
  case (3 e key txn e' err)
  then show ?case using memory_Abort_law [OF _ btree_api_axioms] by (metis memory_engine_sel(4))
next
  case (4 e key l ts)
  then show ?case by (simp add: GetTxn_def)
next
  case (5 e key ts)
  then show ?case using memory_GetTxn_law [OF _ btree_api_axioms] by simp
next
  case (6 e start en err xs)
  then have "err = None" "xs = map entry (scan_items B e start en)"
    by (simp_all add: memory_engine_Scan)
  then show ?case
    by (simp only:) (intro conjI allI impI refl memory_Scan_law [OF 6(1) btree_api_axioms])
next
  case (7 e start en err xs key ts v)
  then have xs: "xs = map entry (scan_items B e start (Some en))"
    by (simp add: memory_engine_Scan)
  from 7 show ?case
    unfolding xs by (intro scannable_view [OF btree_api_axioms]) simp_all
qed

context btree_api
begin

lemma memory_engine_laws: "mvcc_engine (memory_engine B) (store_inv B tinv) (view B)"
  by unfold_locales

end

end
