(* ===== verification/Sql_Exec.thy ===== *)
theory Sql_Exec
  imports Sql_Plan Engine
begin

text \<open>
  The SQL executor of \<^verbatim>\<open>internal/sql/executor.go\<close> over the engine interface.  A result is
  an error or the rows; \<open>None\<close> stands for a \<open>nil\<close> slice of rows.  Only \<open>executeInsert\<close>
  changes the engine.
\<close>

section \<open>The executor\<close>

type_synonym Row = "bytes list"

datatype exec_error =
    UnsupportedPlanNode
  | UnknownNodeType
  | ProjectChildren
  | EngineError store_error

type_synonym result = "exec_error + Row list option"

definition userKey :: "bytes \<Rightarrow> bytes \<Rightarrow> bytes" where
  "userKey tab k = tab @ lit '':'' @ k"

definition auto_txn :: "u64 \<Rightarrow> bytes" where
  "auto_txn ts = lit ''auto-'' @ Sprint_d (unat ts)"

definition executeInsert ::
  "'e Engine \<Rightarrow> bytes \<Rightarrow> bytes list \<Rightarrow> 'e \<Rightarrow> u64 \<Rightarrow> 'e \<times> result" where
  "executeInsert E tab vals e commitTs =
     (case vals of
        [] \<Rightarrow> (e, Inr None)
      | pk # _ \<Rightarrow>
          let valStr = Join vals (lit '','');
              key = userKey tab pk;
              txnID = auto_txn commitTs
          in case eng_Prepare E e key (Some valStr) txnID of
               (e1, Some err) \<Rightarrow> (e1, Inl (EngineError err))
             | (e1, None) \<Rightarrow>
                 (case eng_Commit E e1 key txnID commitTs of
                    (e2, Some err) \<Rightarrow> (e2, Inl (EngineError err))
                  | (e2, None) \<Rightarrow> (e2, Inr (Some [[lit ''Inserted 1 row'']]))))"

definition executePointGet :: "'e Engine \<Rightarrow> bytes \<Rightarrow> bytes \<Rightarrow> 'e \<Rightarrow> u64 \<Rightarrow> result" where
  "executePointGet E tab key e readTs =
     (case eng_GetTxn E e (userKey tab key) readTs of
        Inl err \<Rightarrow> Inl (EngineError err)
      | Inr None \<Rightarrow> Inr (Some [])
      | Inr (Some val) \<Rightarrow> Inr (Some [[key, val]]))"

text \<open>
  The callback of \<open>executeScan\<close> closes over \<open>rows\<close> and \<open>seenKeys\<close>.
\<close>

definition scan_row_visit ::
  "bytes \<Rightarrow> u64 \<Rightarrow> bytes \<times> slice \<Rightarrow> Row list option \<times> bytes set \<Rightarrow> bool \<times> (Row list option \<times> bytes set)" where
  "scan_row_visit pre readTs kv st =
     (case kv of (k, v) \<Rightarrow> case st of (rows, seenKeys) \<Rightarrow>
        case DecodeKey k of (decodedKey, decodedTs) \<Rightarrow>
          if \<not> HasPrefix decodedKey pre then (True, st)
          else if decodedKey \<in> seenKeys then (True, st)
          else if decodedTs \<le> readTs
          then let realKey = (case SplitN2 decodedKey 58 of [_, b] \<Rightarrow> b | _ \<Rightarrow> decodedKey)
               in (True, (Some ((case rows of None \<Rightarrow> [] | Some rs \<Rightarrow> rs) @ [[realKey, slice_bytes v]]),
                          insert decodedKey seenKeys))
          else (True, st))"

definition executeScan :: "'e Engine \<Rightarrow> bytes \<Rightarrow> 'e \<Rightarrow> u64 \<Rightarrow> result" where
  "executeScan E tab e readTs =
     (let pre = tab @ lit '':'';
          en = pre @ [0xFF]
      in case eng_Scan E e pre (Some en) of
           (err, kvs) \<Rightarrow>
             (case iterate (scan_row_visit pre readTs) kvs (None, {}) of
                (rows, _) \<Rightarrow> (case err of Some x \<Rightarrow> Inl (EngineError x) | None \<Rightarrow> Inr rows)))"

text \<open>\<open>executeFilter\<close> and \<open>executeProject\<close> run their input and hand its rows on.\<close>

fun executeAny :: "'e Engine \<Rightarrow> PlanNode \<Rightarrow> 'e \<Rightarrow> u64 \<Rightarrow> result" where
  "executeAny E (ScanNode tab) e ts = executeScan E tab e ts"
| "executeAny E (FilterNode inp _) e ts =
     (case executeAny E inp e ts of Inl err \<Rightarrow> Inl err | Inr rows \<Rightarrow> Inr rows)"
| "executeAny E (ProjectNode inp cols) e ts =
     (if length (Children (ProjectNode inp cols)) \<noteq> 1 then Inl ProjectChildren
      else case executeAny E inp e ts of Inl err \<Rightarrow> Inl err | Inr rows \<Rightarrow> Inr rows)"
| "executeAny E (PointGetNode tab key) e ts = executePointGet E tab key e ts"
| "executeAny E (InsertNode _ _ _) e ts = Inl UnknownNodeType"

text \<open>A plan is an interface value and may be \<open>nil\<close>.\<close>

definition Execute :: "'e Engine \<Rightarrow> PlanNode option \<Rightarrow> 'e \<Rightarrow> u64 \<Rightarrow> 'e \<times> result" where
  "Execute E plan e readTs =
     (case plan of
        Some (InsertNode tab _ vals) \<Rightarrow> executeInsert E tab vals e readTs
      | Some (PointGetNode tab key) \<Rightarrow> (e, executePointGet E tab key e readTs)
      | Some (ProjectNode inp cols) \<Rightarrow> (e, executeAny E (ProjectNode inp cols) e readTs)
      | _ \<Rightarrow> (e, Inl UnsupportedPlanNode))"

section \<open>Scans\<close>

text \<open>The pairs a scan turns into rows: the first visible one of every key with the prefix.\<close>

fun visible_rows :: "bytes \<Rightarrow> u64 \<Rightarrow> (bytes \<times> slice) list \<Rightarrow> bytes set \<Rightarrow> (bytes \<times> slice) list" where
  "visible_rows pre ts [] seen = []"
| "visible_rows pre ts ((raw, v) # kvs) seen =
     (case DecodeKey raw of (k, t) \<Rightarrow>
        if HasPrefix k pre \<and> k \<notin> seen \<and> t \<le> ts
        then (k, v) # visible_rows pre ts kvs (insert k seen)
        else visible_rows pre ts kvs seen)"

definition row_of :: "bytes \<times> slice \<Rightarrow> Row" where
  "row_of kv = [case SplitN2 (fst kv) 58 of [_, b] \<Rightarrow> b | _ \<Rightarrow> fst kv, slice_bytes (snd kv)]"

lemma iterate_scan_row_visit:
  "fst (iterate (scan_row_visit pre ts) kvs (rows, seen)) =
     (case visible_rows pre ts kvs seen of
        [] \<Rightarrow> rows
      | vs \<Rightarrow> Some ((case rows of None \<Rightarrow> [] | Some rs \<Rightarrow> rs) @ map row_of vs))"
proof (induction kvs arbitrary: rows seen)
  case Nil
  then show ?case by simp
next
  case (Cons kv kvs)
  then show ?case
    by (cases kv) (auto simp: scan_row_visit_def row_of_def Let_def split: prod.splits list.split)
qed

lemma fst_visible_rows:
  "(k, v) \<in> set (visible_rows pre ts kvs seen) \<Longrightarrow> k \<notin> seen \<and> HasPrefix k pre"
  by (induction pre ts kvs seen rule: visible_rows.induct) (auto split: prod.splits if_splits)

lemma distinct_visible_rows: "distinct (map fst (visible_rows pre ts kvs seen))"
  by (induction pre ts kvs seen rule: visible_rows.induct)
     (auto split: prod.splits dest: fst_visible_rows)

text \<open>In a list of pairs in the order of the raw keys, the first visible pair of a key is its newest visible version.\<close>

lemma visible_rows_newest:
  assumes "sorted_wrt (\<lambda>x y. fst x < fst y) kvs"
    and "\<forall>raw v. (raw, v) \<in> set kvs \<longrightarrow> (\<exists>k t. raw = EncodeKey k t)"
  shows "(k, v) \<in> set (visible_rows pre ts kvs seen) \<longleftrightarrow>
    HasPrefix k pre \<and> k \<notin> seen \<and>
    (\<exists>t \<le> ts. (EncodeKey k t, v) \<in> set kvs \<and>
       (\<forall>t' v'. t < t' \<longrightarrow> t' \<le> ts \<longrightarrow> (EncodeKey k t', v') \<notin> set kvs))"
  using assms
proof (induction pre ts kvs seen rule: visible_rows.induct)
  case (1 pre ts seen)
  then show ?case by simp
next
  case (2 pre ts raw w kvs seen)
  obtain k0 t0 where raw: "raw = EncodeKey k0 t0" using "2.prems"(2) by fastforce
  then have dec: "(k0, t0) = DecodeKey raw" by simp
  have rest: "EncodeKey k0 t0 < r" if "(r, x) \<in> set kvs" for r x
    using "2.prems"(1) that by (auto simp: raw)
  have older: "t < t0" if "(EncodeKey k0 t, x) \<in> set kvs" for t x
    using rest [OF that] by simp
  have prems: "sorted_wrt (\<lambda>x y. fst x < fst y) kvs"
    "\<forall>raw v. (raw, v) \<in> set kvs \<longrightarrow> (\<exists>k t. raw = EncodeKey k t)"
    using "2.prems" by auto
  show ?case
  proof (cases "HasPrefix k0 pre \<and> k0 \<notin> seen \<and> t0 \<le> ts")
    case True
    then have IH: "(k, v) \<in> set (visible_rows pre ts kvs (insert k0 seen)) \<longleftrightarrow>
        HasPrefix k pre \<and> k \<notin> insert k0 seen \<and> (\<exists>t \<le> ts. (EncodeKey k t, v) \<in> set kvs \<and>
          (\<forall>t' v'. t < t' \<longrightarrow> t' \<le> ts \<longrightarrow> (EncodeKey k t', v') \<notin> set kvs))"
      using "2.IH"(1) [OF dec True prems] by simp
    show ?thesis
    proof (cases "k = k0")
      case k: True
      have "(k0, v) \<notin> set (visible_rows pre ts kvs (insert k0 seen))"
        by (auto dest: fst_visible_rows)
      then show ?thesis using True older by (auto simp: raw k) (metis not_less_iff_gr_or_eq)+
    next
      case False
      then show ?thesis using True IH by (auto simp: raw)
    qed
  next
    case False
    then have IH: "(k, v) \<in> set (visible_rows pre ts kvs seen) \<longleftrightarrow>
        HasPrefix k pre \<and> k \<notin> seen \<and> (\<exists>t \<le> ts. (EncodeKey k t, v) \<in> set kvs \<and>
          (\<forall>t' v'. t < t' \<longrightarrow> t' \<le> ts \<longrightarrow> (EncodeKey k t', v') \<notin> set kvs))"
      using "2.IH"(2) [OF dec False prems] by simp
    then show ?thesis using False by (auto simp: raw)
  qed
qed

section \<open>The executor over any engine that keeps the contract\<close>

lemma userKey_inject [simp]: "userKey tab a = userKey tab b \<longleftrightarrow> a = b"
  by (simp add: userKey_def)

lemma row_of_userKey: "58 \<notin> set tab \<Longrightarrow> row_of (userKey tab k, v) = [k, slice_bytes v]"
  by (simp add: row_of_def userKey_def lit_def SplitN2_append)

lemma HasPrefix_userKey: "HasPrefix k (tab @ lit '':'') \<longleftrightarrow> (\<exists>x. k = userKey tab x)"
  by (auto simp: HasPrefix_iff prefix_def userKey_def)

context mvcc_engine
begin

lemma executeInsert_ok:
  assumes "einv e" and "available (abs e) (userKey tab pk) (auto_txn ts)"
    and "executeInsert E tab (pk # vs) e ts = (e', r)"
  shows "r = Inr (Some [[lit ''Inserted 1 row'']]) \<and> einv e' \<and>
    abs e' = spec_release (userKey tab pk)
      (spec_add_version (userKey tab pk) ts (Some (Join (pk # vs) (lit '',''))) (abs e))"
proof -
  let ?k = "userKey tab pk" and ?v = "Some (Join (pk # vs) (lit '',''))"
  obtain e1 err1 where p: "eng_Prepare E e ?k ?v (auto_txn ts) = (e1, err1)" by fastforce
  obtain e2 err2 where c: "eng_Commit E e1 ?k (auto_txn ts) ts = (e2, err2)" by fastforce
  show ?thesis
    using Prepare_Commit [OF assms(1,2) p c] assms(3) p c
    by (auto simp: executeInsert_def Let_def simp del: Join.simps)
qed

lemma executeInsert_refused:
  assumes "einv e" and "\<not> available (abs e) (userKey tab pk) (auto_txn ts)"
    and "executeInsert E tab (pk # vs) e ts = (e', r)"
  shows "(\<exists>err. r = Inl (EngineError err)) \<and> einv e' \<and> abs e' = abs e"
proof -
  let ?k = "userKey tab pk" and ?v = "Some (Join (pk # vs) (lit '',''))"
  obtain e1 err1 where p: "eng_Prepare E e ?k ?v (auto_txn ts) = (e1, err1)" by fastforce
  show ?thesis
    using Prepare_law [OF assms(1) p] assms(2,3) p
    by (auto simp: executeInsert_def Let_def simp del: Join.simps)
qed

lemma executePointGet_newest:
  assumes "einv e" and "intents (abs e) (userKey tab k) = None" and "readable (abs e) (userKey tab k)"
  shows "executePointGet E tab k e ts =
    Inr (Some (case newest (versions (abs e) (userKey tab k)) ts of
                 Some (Some v) \<Rightarrow> [[k, v]] | _ \<Rightarrow> []))"
  using GetTxn_law [OF assms, of ts]
  by (simp add: executePointGet_def split: option.split)

lemma insert_point_get:
  assumes "einv e" and "available (abs e) (userKey tab pk) (auto_txn ts)"
    and "readable (abs e) (userKey tab pk)" and "ts \<le> readTs"
    and "\<forall>t. ts < t \<longrightarrow> t \<le> readTs \<longrightarrow> versions (abs e) (userKey tab pk) t = None"
    and "executeInsert E tab (pk # vs) e ts = (e', r)"
  shows "executePointGet E tab pk e' readTs = Inr (Some [[pk, Join (pk # vs) (lit '','')]])"
proof -
  let ?k = "userKey tab pk" and ?v = "Some (Join (pk # vs) (lit '',''))"
  have e': "einv e'" "abs e' = spec_release ?k (spec_add_version ?k ts ?v (abs e))"
    using executeInsert_ok [OF assms(1,2,6)] by auto
  have "intents (abs e') ?k = None"
    by (simp add: e'(2) spec_release_def)
  moreover have "readable (abs e') ?k"
    by (simp add: e'(2) readable_add assms(3))
  moreover have "newest (versions (abs e') ?k) readTs = Some ?v"
    using assms(4,5) by (simp add: e'(2) spec_release_def spec_add_version_def newest_add)
  ultimately show ?thesis
    by (simp add: executePointGet_newest [OF e'(1)] del: Join.simps)
qed

lemma executeScan_exact:
  assumes inv: "einv e" and sc: "scannable (abs e) (tab @ lit '':'')"
  shows "\<exists>vs. executeScan E tab e ts = Inr (if vs = [] then None else Some (map row_of vs)) \<and>
    distinct (map fst vs) \<and>
    set vs = {(userKey tab x, v) | x v. x < [0xFF] \<and> newest (versions (abs e) (userKey tab x)) ts = Some v}"
proof -
  let ?pre = "tab @ lit '':''"
  let ?en = "?pre @ [0xFF]"
  obtain err kvs where scan: "eng_Scan E e ?pre (Some ?en) = (err, kvs)" by fastforce
  note law = Scan_law [OF inv scan]
  have in_kvs: "(EncodeKey (userKey tab x) t, v) \<in> set kvs \<longleftrightarrow> versions (abs e) (userKey tab x) t = Some v"
    if "x < [0xFF]" for x t v
    using law Scan_complete_law [OF inv scan sc, of "userKey tab x" t v] that
    by (fastforce simp: userKey_def)
  have sorted: "sorted_wrt (\<lambda>x y. fst x < fst y) kvs"
    and enc: "\<forall>raw v. (raw, v) \<in> set kvs \<longrightarrow> (\<exists>k t. raw = EncodeKey k t)"
    using law by blast+
  have bound: "x < [0xFF]" if "(EncodeKey (userKey tab x) t, v) \<in> set kvs" for x t v
    using law that by (fastforce simp: userKey_def)
  let ?vs = "visible_rows ?pre ts kvs {}"
  have key: "(\<exists>t \<le> ts. (EncodeKey (userKey tab x) t, v) \<in> set kvs \<and>
      (\<forall>t' v'. t < t' \<longrightarrow> t' \<le> ts \<longrightarrow> (EncodeKey (userKey tab x) t', v') \<notin> set kvs)) \<longleftrightarrow>
      x < [0xFF] \<and> newest (versions (abs e) (userKey tab x)) ts = Some v" for x v
  proof (cases "x < [0xFF]")
    case True
    then show ?thesis by (simp add: in_kvs newest_eq_Some_iff)
  next
    case False
    then show ?thesis by (auto dest: bound)
  qed
  have mem: "(k, v) \<in> set ?vs \<longleftrightarrow>
      (\<exists>x. k = userKey tab x \<and> x < [0xFF] \<and> newest (versions (abs e) (userKey tab x)) ts = Some v)" for k v
    unfolding visible_rows_newest [OF sorted enc] HasPrefix_userKey using key by auto
  have "set ?vs = {(userKey tab x, v) | x v. x < [0xFF] \<and> newest (versions (abs e) (userKey tab x)) ts = Some v}"
    by (rule set_eqI) (auto simp: mem)
  moreover have "executeScan E tab e ts = Inr (if ?vs = [] then None else Some (map row_of ?vs))"
    using iterate_scan_row_visit [of ?pre ts kvs None "{}"] law scan
    by (cases ?vs) (simp_all add: executeScan_def Let_def case_prod_beta)
  ultimately show ?thesis
    using distinct_visible_rows [of ?pre ts kvs "{}"] by blast
qed

end

text \<open>A scan on a memory store, with the keys stripped of the table.\<close>

lemma scan_rows_exact:
  assumes "btree_api B tinv" and "store_inv B tinv s"
    and "scannable (view B s) (tab @ lit '':'')" and "58 \<notin> set tab"
  shows "\<exists>rows kvs. snd (Execute (memory_engine B) (Some (ProjectNode (ScanNode tab) cols)) s ts) = Inr rows \<and>
    (case rows of None \<Rightarrow> kvs = [] | Some rs \<Rightarrow> rs = map (\<lambda>(k, v). [k, slice_bytes v]) kvs) \<and>
    distinct (map fst kvs) \<and>
    set kvs = {(k, v). k < [0xFF] \<and> newest (versions (view B s) (userKey tab k)) ts = Some v}"
proof -
  note eng = btree_api.memory_engine_laws [OF assms(1)]
  obtain vs where vs: "executeScan (memory_engine B) tab s ts = Inr (if vs = [] then None else Some (map row_of vs))"
    "distinct (map fst vs)"
    "set vs = {(userKey tab x, v) | x v. x < [0xFF] \<and> newest (versions (view B s) (userKey tab x)) ts = Some v}"
    using mvcc_engine.executeScan_exact [OF eng assms(2,3), of ts] by blast
  define kvs where "kvs = map (\<lambda>(k, v). (drop (Suc (length tab)) k, v)) vs"
  have strip: "drop (Suc (length tab)) (userKey tab x) = x" for x
    by (simp add: userKey_def lit_def)
  have "map row_of vs = map (\<lambda>(k, v). [k, slice_bytes v]) kvs"
    unfolding kvs_def using vs(3) by (auto simp: row_of_userKey [OF assms(4)] strip)
  moreover have "set kvs = {(k, v). k < [0xFF] \<and> newest (versions (view B s) (userKey tab k)) ts = Some v}"
    unfolding kvs_def set_map vs(3) by (force simp: strip image_iff)
  moreover have "distinct (map fst kvs)"
  proof -
    have "inj_on (drop (Suc (length tab))) (fst ` set vs)"
      unfolding vs(3) by (rule inj_onI) (auto simp: strip)
    with vs(2) have "distinct (map (drop (Suc (length tab))) (map fst vs))"
      by (simp add: distinct_map comp_inj_on)
    then show ?thesis by (simp add: kvs_def comp_def split_def)
  qed
  ultimately show ?thesis
    using vs(1) by (intro exI [of _ "if vs = [] then None else Some (map row_of vs)"] exI [of _ kvs])
      (auto simp: Execute_def kvs_def)
qed

section \<open>Properties\<close>

text \<open>
  An inserted row is found: on a memory store whose key is free and not shadowed, an
  \<open>INSERT\<close> at \<open>ts\<close> reports one row, and a point lookup of its first value at any later
  timestamp up to the next version returns that value and all values joined by commas.
\<close>

theorem insert_then_select:
  assumes "btree_api B tinv" and "store_inv B tinv s"
    and "available (view B s) (userKey tab pk) (auto_txn ts)" and "readable (view B s) (userKey tab pk)"
    and "ts \<le> readTs"
    and "\<forall>t. ts < t \<longrightarrow> t \<le> readTs \<longrightarrow> versions (view B s) (userKey tab pk) t = None"
    and "Execute (memory_engine B) (Some (InsertNode tab cols (pk # vs))) s ts = (s', r)"
  shows "r = Inr (Some [[lit ''Inserted 1 row'']]) \<and> store_inv B tinv s' \<and>
    snd (Execute (memory_engine B) (Some (PointGetNode tab pk)) s' readTs) =
      Inr (Some [[pk, Join (pk # vs) (lit '','')]])"
proof -
  note eng = btree_api.memory_engine_laws [OF assms(1)]
  have ins: "executeInsert (memory_engine B) tab (pk # vs) s ts = (s', r)"
    using assms(7) by (simp add: Execute_def)
  show ?thesis
    using mvcc_engine.executeInsert_ok [OF eng assms(2,3) ins]
      mvcc_engine.insert_point_get [OF eng assms(2-6) ins] by (simp add: Execute_def)
qed

theorem insert_then_select_witness:
  "snd (Execute (memory_engine sl_btree) (Some (PointGetNode (lit ''t'') (lit ''a'')))
     (fst (Execute (memory_engine sl_btree) (Some (InsertNode (lit ''t'') [] [lit ''a'', lit ''b'']))
       (NewMemoryStore sl_btree) 100)) 150) = Inr (Some [[lit ''a'', lit ''a,b'']])"
proof -
  have v: "versions (view sl_btree (NewMemoryStore sl_btree)) k t = None"
    "intents (view sl_btree (NewMemoryStore sl_btree)) k = None" for k t
    by (simp_all add: sl.view_New del: view_sel)
  have "Join [lit ''a'', lit ''b''] (lit '','') = lit ''a,b''" by code_simp
  then show ?thesis
    using insert_then_select [OF sl.btree_api_axioms sl.store_inv_New, of "lit ''t''" "lit ''a''" 100 150 "[]" "[lit ''b'']"]
    by (simp add: available_def readable_def v prod_eq_iff del: view_sel Join.simps)
qed

text \<open>
  (C26) A table scan is a consistent snapshot: for a table whose name has no \<open>':'\<close>, in a store
  where no stored key extends another one or is a proper prefix of the table's prefix,
  \<open>SELECT\<close> without \<open>WHERE\<close> returns exactly one row for each primary key of the table that is
  below \<open>0xFF\<close> and has a version at or before the read timestamp: a row of two columns, the
  key and the newest such version.  Keys that begin with \<open>0xFF\<close> are outside the scanned range.
\<close>

theorem select_scan_exact:
  assumes "btree_api B tinv" and "store_inv B tinv s"
    and "scannable (view B s) (tab @ lit '':'')" and "58 \<notin> set tab"
  shows "\<exists>rows kvs. snd (Execute (memory_engine B) (Some (ProjectNode (ScanNode tab) cols)) s ts) = Inr rows \<and>
    (case rows of None \<Rightarrow> kvs = [] | Some rs \<Rightarrow> rs = map (\<lambda>(k, v). [k, slice_bytes v]) kvs) \<and>
    distinct (map fst kvs) \<and>
    set kvs = {(k, v). k < [0xFF] \<and> newest (versions (view B s) (userKey tab k)) ts = Some v}"
  using scan_rows_exact [OF assms] .

text \<open>The store of \<^verbatim>\<open>executor_test.go\<close>: one row inserted at timestamp 10.\<close>

definition alice_store :: "item list MemoryStore" where
  "alice_store = fst (Execute (memory_engine sl_btree)
     (Some (InsertNode (lit ''users'') [lit ''name'', lit ''age''] [lit ''alice'', lit ''30''])) (NewMemoryStore sl_btree) 10)"

lemma alice_store_keys: "stored_keys (view sl_btree alice_store) = {lit ''users:alice''}"
proof -
  have "ms_tree alice_store = [mk_item (EncodeKey (lit ''users:alice'') 10) (Some (lit ''alice,30''))]"
    by code_simp
  then show ?thesis by (auto simp: stored_keys_def tree_map_def entry_def)
qed

theorem select_scan_exact_witness:
  "\<exists>rows kvs. snd (Execute (memory_engine sl_btree) (Some (ProjectNode (ScanNode (lit ''users'')) [lit ''name''])) alice_store 15) = Inr rows \<and>
     rows = Some [[lit ''alice'', lit ''alice,30'']] \<and>
     (case rows of None \<Rightarrow> kvs = [] | Some rs \<Rightarrow> rs = map (\<lambda>(k, v). [k, slice_bytes v]) kvs) \<and>
     set kvs = {(k, v). k < [0xFF] \<and> newest (versions (view sl_btree alice_store) (userKey (lit ''users'') k)) 15 = Some v}"
proof -
  have inv: "store_inv sl_btree sl_inv alice_store" by code_simp
  have colon: "58 \<notin> set (lit ''users'')" by code_simp
  have "\<not> strict_prefix (lit ''users:alice'') (lit ''users'' @ lit '':'')" by code_simp
  then have sc: "scannable (view sl_btree alice_store) (lit ''users'' @ lit '':'')"
    by (simp add: scannable_def prefix_free_def alice_store_keys)
  let ?r = "snd (Execute (memory_engine sl_btree) (Some (ProjectNode (ScanNode (lit ''users'')) [lit ''name''])) alice_store 15)"
  have r: "?r = Inr (Some [[lit ''alice'', lit ''alice,30'']])" by code_simp
  obtain rows kvs where "?r = Inr rows"
    and "case rows of None \<Rightarrow> kvs = [] | Some rs \<Rightarrow> rs = map (\<lambda>(k, v). [k, slice_bytes v]) kvs"
    and "set kvs = {(k, v). k < [0xFF] \<and> newest (versions (view sl_btree alice_store) (userKey (lit ''users'') k)) 15 = Some v}"
    using select_scan_exact [OF sl.btree_api_axioms inv sc colon, of "[lit ''name'']" 15] by (elim exE conjE)
  moreover from this(1) r have "rows = Some [[lit ''alice'', lit ''alice,30'']]" by (simp only: sum.inject)
  ultimately show ?thesis by (intro exI conjI)
qed

text \<open>
  Every plan can be run: whatever statement the parser accepts and the planner turns into
  a plan, the executor does not reject the plan; it only fails with an error of the engine.
\<close>

theorem planned_statement_executes:
  assumes "ParseToPlan P sql = Inr plan" and "snd (Execute E (Some plan) e ts) = Inl err"
  shows "\<exists>x. err = EngineError x"
proof -
  have scan: "\<exists>x. err = EngineError x" if "executeScan E tab e ts = Inl err" for tab
    using that by (auto simp: executeScan_def Let_def split: prod.splits option.splits)
  have get: "\<exists>x. err = EngineError x" if "executePointGet E tab k e ts = Inl err" for tab k
    using that by (auto simp: executePointGet_def split: sum.splits option.splits)
  have ins: "\<exists>x. err = EngineError x" if "snd (executeInsert E tab vs e ts) = Inl err" for tab vs
    using that by (auto simp: executeInsert_def Let_def split: list.splits prod.splits option.splits)
  consider t k where "plan = PointGetNode t k" | t c v where "plan = InsertNode t c v"
    | t c where "plan = ProjectNode (ScanNode t) c" | t x c where "plan = ProjectNode (FilterNode (ScanNode t) x) c"
    using assms(1)
    by (auto simp: ParseToPlan_def buildSelectPlan_def buildInsertPlan_def Let_def
        split: sum.splits Statement.splits list.splits TableExpr.splits option.splits InsertRows.splits)
  then show ?thesis
    using assms(2) scan get ins by cases (auto simp: Execute_def split: sum.splits)
qed

theorem planned_statement_executes_witness:
  "snd (Execute (memory_engine sl_btree) (Some (PointGetNode (lit ''t'') (lit ''a'')))
     (fst (Prepare (NewMemoryStore sl_btree) (lit ''t:a'') None (lit ''x''))) 5) =
       Inl (EngineError (LockedBy (lit ''t:a'') (lit ''x''))) \<and>
   (\<exists>x. EngineError (LockedBy (lit ''t:a'') (lit ''x'')) = EngineError x)"
proof -
  let ?P = "fixed_parser (select_where (Some (ComparisonExpr EqualStr (ColName ()) (SQLVal (lit ''a'')))))"
  have p: "ParseToPlan ?P [] = Inr (PointGetNode (lit ''t'') (lit ''a''))"
    by (simp add: ParseToPlan_def fixed_parser_def select_where_def buildSelectPlan_def)
  have r: "snd (Execute (memory_engine sl_btree) (Some (PointGetNode (lit ''t'') (lit ''a'')))
     (fst (Prepare (NewMemoryStore sl_btree) (lit ''t:a'') None (lit ''x''))) 5) =
       Inl (EngineError (LockedBy (lit ''t:a'') (lit ''x'')))"
    by code_simp
  show ?thesis using r planned_statement_executes [OF p r] by blast
qed

text \<open>
  A \<open>WHERE\<close> clause that is not a point lookup does not filter: a \<open>SELECT\<close> with it returns
  on every engine what the same \<open>SELECT\<close> without it returns.
\<close>

theorem where_clause_ignored:
  assumes "sel_Where s = Some w" and "col_eq_val w = None"
    and "buildSelectPlan P s = Inr plan" and "buildSelectPlan P (s\<lparr>sel_Where := None\<rparr>) = Inr plan'"
  shows "Execute E (Some plan) e ts = Execute E (Some plan') e ts"
  using assms
  by (auto simp: buildSelectPlan_def Execute_def Let_def split: list.splits TableExpr.splits sum.splits)

theorem where_clause_ignored_witness:
  "Execute (memory_engine sl_btree) (Some (ProjectNode (FilterNode (ScanNode (lit ''t'')) []) [lit ''*''])) sample_store 5 =
   Execute (memory_engine sl_btree) (Some (ProjectNode (ScanNode (lit ''t'')) [lit ''*''])) sample_store 5"
proof -
  let ?w = "ComparisonExpr (lit ''>'') (ColName ()) (SQLVal (lit ''a''))"
  let ?s = "\<lparr>sel_From = [AliasedTableExpr ()], sel_Where = Some ?w, sel_SelectExprs = [StarExpr]\<rparr>"
  have "lit ''>'' \<noteq> EqualStr" by (simp add: lit_def)
  then show ?thesis
    by (intro where_clause_ignored [where s = ?s and w = ?w and P = "fixed_parser (select_where None)"])
       (simp_all add: buildSelectPlan_def fixed_parser_def)
qed

end
