(* ===== verification/Wire_Json.thy ===== *)
theory Wire_Json
  imports Go_Struct Wire Sql_Exec
begin

text \<open>
  The JSON bodies that the servers exchange: the one-shot request that the coordinator
  marshals and the shard unmarshals, and the rows that a shard encodes and the proxy
  decodes.  The shard ignores the decoder's error: values of the wrong type leave the fields
  as they are.
\<close>

section \<open>The one-shot request\<close>

definition op_json :: "bytes \<times> bytes \<Rightarrow> json" where
  "op_json kv = ObjV [(lit ''key'', StrV (fst kv)), (lit ''val'', StrV (snd kv))]"

definition req_json :: "Req \<Rightarrow> json" where
  "req_json r = ObjV
     [(lit ''txn'', StrV (req_TxnID r)),
      (lit ''ts'', NumV (Sprint_d (unat (req_Ts r)))),
      (lit ''ops'', ArrV (map op_json (req_Ops r)))]"

definition marshal_Req :: "Req \<Rightarrow> bytes" where
  "marshal_Req r = json_print (req_json r)"

definition op_member :: "bytes \<times> json \<Rightarrow> bytes \<times> bytes \<Rightarrow> bytes \<times> bytes" where
  "op_member m kv =
     (case struct_field [lit ''key'', lit ''val''] (fst m) of
        None \<Rightarrow> kv
      | Some f \<Rightarrow>
          if f = lit ''key'' then (string_field (fst kv) (snd m), snd kv)
          else (fst kv, string_field (snd kv) (snd m)))"

definition decode_op :: "bytes \<times> bytes \<Rightarrow> json \<Rightarrow> bytes \<times> bytes" where
  "decode_op old j = (case j of ObjV ms \<Rightarrow> fold op_member ms old | _ \<Rightarrow> old)"

text \<open>
  An array is decoded into the elements that the backing array of the slice already has, and
  into zero values after them; the rest of the backing array stays.  The state of the decoder
  is the name, the timestamp, the backing array and the length of the slice.
\<close>

definition decode_ops :: "(bytes \<times> bytes) list \<Rightarrow> json list \<Rightarrow> (bytes \<times> bytes) list" where
  "decode_ops backing js =
     (if js = [] then []
      else map2 decode_op (backing @ replicate (length js) ([], [])) js @ drop (length js) backing)"

definition req_member ::
  "bytes \<times> json \<Rightarrow> bytes \<times> u64 \<times> (bytes \<times> bytes) list \<times> nat \<Rightarrow> bytes \<times> u64 \<times> (bytes \<times> bytes) list \<times> nat" where
  "req_member m st =
     (case st of (txn, ts, ops, n) \<Rightarrow>
        (case struct_field [lit ''txn'', lit ''ts'', lit ''ops''] (fst m) of
           None \<Rightarrow> st
         | Some f \<Rightarrow>
             if f = lit ''txn'' then (string_field txn (snd m), ts, ops, n)
             else if f = lit ''ts'' then (txn, uint64_field ts (snd m), ops, n)
             else (case snd m of
                     ArrV js \<Rightarrow> (txn, ts, decode_ops ops js, length js)
                   | NullV \<Rightarrow> (txn, ts, [], 0)
                   | _ \<Rightarrow> st)))"

text \<open>The error is ignored by the caller; a text that is not JSON leaves the zero value.\<close>

definition unmarshal_Req :: "bytes \<Rightarrow> Req" where
  "unmarshal_Req data =
     (case json_parse data of
        Some (ObjV ms) \<Rightarrow>
          (case fold req_member ms ([], 0, [], 0) of
             (txn, ts, ops, n) \<Rightarrow> \<lparr>req_TxnID = txn, req_Ts = ts, req_Ops = take n ops\<rparr>)
      | _ \<Rightarrow> \<lparr>req_TxnID = [], req_Ts = 0, req_Ops = []\<rparr>)"

section \<open>Rows\<close>

definition rows_json :: "Row list option \<Rightarrow> json" where
  "rows_json rows = (case rows of None \<Rightarrow> NullV | Some rs \<Rightarrow> ArrV (map (\<lambda>r. ArrV (map StrV r)) rs))"

text \<open>\<^verbatim>\<open>Encoder.Encode\<close> ends the text with a newline.\<close>

definition encode_rows :: "Row list option \<Rightarrow> bytes" where
  "encode_rows rows = json_print (rows_json rows) @ [10]"

definition string_elem :: "json \<Rightarrow> bytes option" where
  "string_elem j = (case j of StrV s \<Rightarrow> Some s | NullV \<Rightarrow> Some [] | _ \<Rightarrow> None)"

definition row_elem :: "json \<Rightarrow> Row option" where
  "row_elem j = (case j of ArrV js \<Rightarrow> those (map string_elem js) | NullV \<Rightarrow> Some [] | _ \<Rightarrow> None)"

text \<open>\<^verbatim>\<open>json.Unmarshal\<close> into \<^verbatim>\<open>[][]string\<close>; \<open>None\<close> is an error.\<close>

definition unmarshal_rows :: "bytes \<Rightarrow> Row list option" where
  "unmarshal_rows data =
     (case json_parse data of
        Some (ArrV js) \<Rightarrow> those (map row_elem js)
      | Some NullV \<Rightarrow> Some []
      | _ \<Rightarrow> None)"

section \<open>Round trips\<close>

lemma unmarshal_encode_rows:
  "unmarshal_rows (encode_rows rows) = Some (map (map json_string) (case rows of None \<Rightarrow> [] | Some rs \<Rightarrow> rs))"
proof -
  have "json_fits (Suc (Suc d)) (rows_json rows)" for d
    by (auto simp: rows_json_def split: option.split)
  from this [of 9998] have fits: "json_fits 10000 (rows_json rows)" by simp
  have row: "row_elem (json_coerce (ArrV (map StrV r))) = Some (map json_string r)" for r
    by (simp add: row_elem_def comp_def string_elem_def those_map_Some)
  have "json_parse (encode_rows rows) = Some (json_coerce (rows_json rows))"
    by (simp add: encode_rows_def json_parse_print(2) [OF fits])
  with row show ?thesis
    by (cases rows) (simp_all add: unmarshal_rows_def rows_json_def comp_def those_map_Some)
qed

definition coerce_Req :: "Req \<Rightarrow> Req" where
  "coerce_Req r = \<lparr>req_TxnID = json_string (req_TxnID r), req_Ts = req_Ts r,
     req_Ops = map (\<lambda>(k, v). (json_string k, json_string v)) (req_Ops r)\<rparr>"

lemma field_names:
  "struct_field [lit ''key'', lit ''val''] (lit ''key'') = Some (lit ''key'')"
  "struct_field [lit ''key'', lit ''val''] (lit ''val'') = Some (lit ''val'')"
  "struct_field [lit ''txn'', lit ''ts'', lit ''ops''] (lit ''txn'') = Some (lit ''txn'')"
  "struct_field [lit ''txn'', lit ''ts'', lit ''ops''] (lit ''ts'') = Some (lit ''ts'')"
  "struct_field [lit ''txn'', lit ''ts'', lit ''ops''] (lit ''ops'') = Some (lit ''ops'')"
  "lit ''ops'' \<noteq> lit ''txn''" "lit ''ops'' \<noteq> lit ''ts''" "lit ''ts'' \<noteq> lit ''txn''" "lit ''val'' \<noteq> lit ''key''"
  "json_string (lit ''key'') = lit ''key''" "json_string (lit ''val'') = lit ''val''"
  "json_string (lit ''txn'') = lit ''txn''" "json_string (lit ''ts'') = lit ''ts''" "json_string (lit ''ops'') = lit ''ops''"
  by code_simp+

lemma decode_op_json: "decode_op old (json_coerce (op_json kv)) = (json_string (fst kv), json_string (snd kv))"
  by (simp add: decode_op_def op_json_def op_member_def field_names string_field_def)

lemma map2_fresh: "(\<And>x. f z (g x) = h x) \<Longrightarrow> map2 f (replicate (length xs) z) (map g xs) = map h xs"
  by (induction xs) auto

lemma unmarshal_marshal_Req: "unmarshal_Req (marshal_Req r) = coerce_Req r"
proof -
  have "json_fits (Suc (Suc (Suc d))) (req_json r)" for d
    by (auto simp: req_json_def op_json_def Sprint_d_plain)
  from this [of 9997] have fits: "json_fits 10000 (req_json r)" by simp
  have ops: "decode_ops [] (map (json_coerce \<circ> op_json) xs) = map (\<lambda>(k, v). (json_string k, json_string v)) xs" for xs
    using map2_fresh [of decode_op "([], [])" "json_coerce \<circ> op_json" "\<lambda>(k, v). (json_string k, json_string v)" xs]
    by (auto simp: decode_ops_def decode_op_json split: prod.split)
  show ?thesis
    by (simp add: unmarshal_Req_def marshal_Req_def json_parse_print(1) [OF fits])
       (simp add: req_json_def req_member_def field_names string_field_def uint64_field_Sprint ops coerce_Req_def)
qed

text \<open>
  (C13) JSON between the servers: the shard decodes from a one-shot body exactly the name, the
  timestamp and the operations that the coordinator put in, and the proxy decodes from a
  shard's answer exactly its rows, when all strings are well-formed UTF-8; other strings
  arrive with every stray byte replaced by U+FFFD.
\<close>

theorem json_bodies_roundtrip:
  "unmarshal_Req (marshal_Req r) = coerce_Req r \<and>
   unmarshal_rows (encode_rows (Some rows)) = Some (map (map json_string) rows) \<and>
   (utf8_valid (req_TxnID r) \<and> (\<forall>(k, v) \<in> set (req_Ops r). utf8_valid k \<and> utf8_valid v) \<longrightarrow>
      unmarshal_Req (marshal_Req r) = r) \<and>
   ((\<forall>row \<in> set rows. \<forall>s \<in> set row. utf8_valid s) \<longrightarrow> unmarshal_rows (encode_rows (Some rows)) = Some rows)"
proof -
  have "coerce_Req r = r" if "utf8_valid (req_TxnID r)" "\<forall>(k, v) \<in> set (req_Ops r). utf8_valid k \<and> utf8_valid v"
    using that by (cases r) (auto simp: coerce_Req_def utf8_valid_def intro!: map_idI)
  moreover have "map (map json_string) rows = rows" if "\<forall>row \<in> set rows. \<forall>s \<in> set row. utf8_valid s"
    using that by (auto simp: utf8_valid_def intro!: map_idI)
  ultimately show ?thesis
    using unmarshal_marshal_Req [of r] unmarshal_encode_rows [of "Some rows"] by simp
qed

theorem json_bodies_roundtrip_witness:
  "unmarshal_Req (marshal_Req \<lparr>req_TxnID = lit ''txn-7'', req_Ts = 9, req_Ops = [(lit ''t:a'', lit ''<b>'')]\<rparr>) =
     \<lparr>req_TxnID = lit ''txn-7'', req_Ts = 9, req_Ops = [(lit ''t:a'', lit ''<b>'')]\<rparr>"
proof -
  let ?r = "\<lparr>req_TxnID = lit ''txn-7'', req_Ts = 9, req_Ops = [(lit ''t:a'', lit ''<b>'')]\<rparr>"
  have "utf8_valid (lit ''txn-7'')" "utf8_valid (lit ''t:a'')" "utf8_valid (lit ''<b>'')"
    unfolding utf8_valid_def by code_simp+
  then show ?thesis
    using json_bodies_roundtrip [of ?r "[]", THEN conjunct2, THEN conjunct2, THEN conjunct1] by simp
qed

end
