(* ===== verification/Coordinator.thy ===== *)
theory Coordinator
  imports Wire_Json "HOL-Library.AList" "HOL-Library.Multiset"
begin

text \<open>
  The transaction coordinator of \<^verbatim>\<open>internal/txn/coordinator.go\<close>: buffered writes, the
  one-phase path for a single shard and two-phase commit for several.  The HTTP exchange is a
  parameter that takes the state of the network and the shards to a response, if any, and a
  new state; the calls that the code starts in goroutines are returned as a list, to be run
  later in any order.  \<open>ord1\<close> and \<open>ord2\<close> are the orders in which the two loops visit the map
  of writes by shard, and \<open>now\<close> is the clock.
\<close>

section \<open>State\<close>

datatype TxnState = StateActive | StateCommitted | StateAborted

record WriteIntent =
  wi_Key :: bytes
  wi_Value :: bytes

record Transaction =
  tx_ID :: bytes
  tx_State :: TxnState
  tx_StartTime :: u64
  tx_Writes :: "WriteIntent list"

record Coordinator =
  co_transactions :: "bytes \<rightharpoonup> Transaction"
  co_router :: Router

datatype send_error = SendFailed | StatusError int

datatype txn_error =
    NotActive
  | UnknownTxn
  | OneShotFailed send_error
  | PrepareFailed bytes bytes send_error

definition NewCoordinator :: "Router \<Rightarrow> Coordinator" where
  "NewCoordinator r = \<lparr>co_transactions = Map.empty, co_router = r\<rparr>"

definition Begin :: "u64 \<Rightarrow> Coordinator \<Rightarrow> Coordinator \<times> bytes" where
  "Begin now c =
     (let id = lit ''txn-'' @ Sprint_d (unat now);
          txn = \<lparr>tx_ID = id, tx_State = StateActive, tx_StartTime = now, tx_Writes = []\<rparr>
      in (c\<lparr>co_transactions := (co_transactions c)(id \<mapsto> txn)\<rparr>, id))"

definition AddWrite :: "bytes \<Rightarrow> bytes \<Rightarrow> bytes \<Rightarrow> Coordinator \<Rightarrow> Coordinator \<times> txn_error option" where
  "AddWrite txnID key value c =
     (case co_transactions c txnID of
        None \<Rightarrow> (c, Some NotActive)
      | Some txn \<Rightarrow>
          if tx_State txn \<noteq> StateActive then (c, Some NotActive)
          else (c\<lparr>co_transactions := (co_transactions c)(txnID \<mapsto>
                 txn\<lparr>tx_Writes := tx_Writes txn @ [\<lparr>wi_Key = key, wi_Value = value\<rparr>]\<rparr>)\<rparr>, None))"

section \<open>Calls to the shards\<close>

type_synonym 'w http = "http_call \<Rightarrow> 'w \<Rightarrow> http_response option \<times> 'w"

definition prepare_call :: "bytes \<Rightarrow> bytes \<Rightarrow> bytes \<Rightarrow> bytes \<Rightarrow> http_call" where
  "prepare_call shard key val txnID = HttpGet (shard @ lit ''/txn/prepare?'' @ prepare_query key val txnID)"

definition commit_call :: "bytes \<Rightarrow> bytes \<Rightarrow> bytes \<Rightarrow> u64 \<Rightarrow> http_call" where
  "commit_call shard key txnID ts = HttpGet (shard @ lit ''/txn/commit?'' @ commit_query key txnID ts)"

definition abort_call :: "bytes \<Rightarrow> bytes \<Rightarrow> bytes \<Rightarrow> http_call" where
  "abort_call shard key txnID = HttpGet (shard @ lit ''/txn/abort?'' @ abort_query key txnID)"

definition oneshot_call :: "bytes \<Rightarrow> WriteIntent list \<Rightarrow> bytes \<Rightarrow> u64 \<Rightarrow> http_call" where
  "oneshot_call shard ws txnID ts =
     HttpPost (shard @ lit ''/txn/oneshot'')
       (marshal_Req \<lparr>req_TxnID = txnID, req_Ts = ts, req_Ops = map (\<lambda>w. (wi_Key w, wi_Value w)) ws\<rparr>)"

text \<open>\<open>sendPrepare\<close> and \<open>sendOneShot\<close> wait for the answer and want status 200.\<close>

definition send :: "'w http \<Rightarrow> http_call \<Rightarrow> 'w \<Rightarrow> send_error option \<times> 'w" where
  "send http call w =
     (case http call w of
        (None, w') \<Rightarrow> (Some SendFailed, w')
      | (Some resp, w') \<Rightarrow>
          if resp_StatusCode resp \<noteq> 200 then (Some (StatusError (resp_StatusCode resp)), w') else (None, w'))"

definition sendPrepare :: "'w http \<Rightarrow> bytes \<Rightarrow> bytes \<Rightarrow> bytes \<Rightarrow> bytes \<Rightarrow> 'w \<Rightarrow> send_error option \<times> 'w" where
  "sendPrepare http shard key val txnID = send http (prepare_call shard key val txnID)"

definition sendOneShot ::
  "'w http \<Rightarrow> bytes \<Rightarrow> WriteIntent list \<Rightarrow> bytes \<Rightarrow> u64 \<Rightarrow> 'w \<Rightarrow> send_error option \<times> 'w" where
  "sendOneShot http shard ws txnID ts = send http (oneshot_call shard ws txnID ts)"

section \<open>Abort and Commit\<close>

definition set_state :: "bytes \<Rightarrow> TxnState \<Rightarrow> Coordinator \<Rightarrow> Coordinator" where
  "set_state txnID st c =
     c\<lparr>co_transactions := (co_transactions c)(txnID := map_option (tx_State_update (\<lambda>_. st)) (co_transactions c txnID))\<rparr>"

text \<open>The results of \<open>Abort\<close>: the coordinator, the calls started, the error.\<close>

definition coord_Abort :: "bytes \<Rightarrow> Coordinator \<Rightarrow> Coordinator \<times> http_call list \<times> txn_error option" where
  "coord_Abort txnID c =
     (case co_transactions c txnID of
        None \<Rightarrow> (c, [], Some UnknownTxn)
      | Some txn \<Rightarrow>
          (set_state txnID StateAborted c,
           map (\<lambda>w. abort_call (Locate (co_router c) (wi_Key w)) (wi_Key w) txnID) (tx_Writes txn),
           None))"

type_synonym groups = "(bytes \<times> WriteIntent list) list"

definition add_group :: "Router \<Rightarrow> WriteIntent \<Rightarrow> groups \<Rightarrow> groups" where
  "add_group r w m =
     (let shardAddr = Locate r (wi_Key w)
      in AList.update shardAddr ((case map_of m shardAddr of None \<Rightarrow> [] | Some ws \<Rightarrow> ws) @ [w]) m)"

definition group_by_shard :: "Router \<Rightarrow> WriteIntent list \<Rightarrow> groups" where
  "group_by_shard r writes = fold (add_group r) writes []"

text \<open>The pairs of shard and write that the nested loops over a map visit.\<close>

definition flatten :: "groups \<Rightarrow> (bytes \<times> WriteIntent) list" where
  "flatten gs = concat (map (\<lambda>(shard, ws). map (Pair shard) ws) gs)"

fun prepare_loop ::
  "'w http \<Rightarrow> bytes \<Rightarrow> (bytes \<times> WriteIntent) list \<Rightarrow> 'w \<Rightarrow> txn_error option \<times> 'w" where
  "prepare_loop http txnID [] w = (None, w)"
| "prepare_loop http txnID ((shard, x) # rest) w =
     (case sendPrepare http shard (wi_Key x) (wi_Value x) txnID w of
        (Some err, w') \<Rightarrow> (Some (PrepareFailed shard (wi_Key x) err), w')
      | (None, w') \<Rightarrow> prepare_loop http txnID rest w')"

text \<open>The results of \<open>Commit\<close>: the coordinator, the calls started, the network, the error.\<close>

definition coord_Commit ::
  "'w http \<Rightarrow> (groups \<Rightarrow> groups) \<Rightarrow> (groups \<Rightarrow> groups) \<Rightarrow> u64 \<Rightarrow> bytes \<Rightarrow> Coordinator \<Rightarrow> 'w \<Rightarrow>
   Coordinator \<times> http_call list \<times> 'w \<times> txn_error option" where
  "coord_Commit http ord1 ord2 now txnID c w =
     (case co_transactions c txnID of
        None \<Rightarrow> (c, [], w, Some NotActive)
      | Some txn \<Rightarrow>
          if tx_State txn \<noteq> StateActive then (c, [], w, Some NotActive)
          else
            let writes = tx_Writes txn
            in if writes = [] then (c, [], w, None)
               else
                 let shardWrites = group_by_shard (co_router c) writes
                 in case shardWrites of
                      [(shard, ws)] \<Rightarrow>
                        (case sendOneShot http shard ws txnID now w of
                           (Some err, w') \<Rightarrow>
                             (case coord_Abort txnID c of (c', calls, _) \<Rightarrow> (c', calls, w', Some (OneShotFailed err)))
                         | (None, w') \<Rightarrow> (set_state txnID StateCommitted c, [], w', None))
                    | _ \<Rightarrow>
                        (case prepare_loop http txnID (flatten (ord1 shardWrites)) w of
                           (Some err, w') \<Rightarrow>
                             (case coord_Abort txnID c of (c', calls, _) \<Rightarrow> (c', calls, w', Some err))
                         | (None, w') \<Rightarrow>
                             (set_state txnID StateCommitted c,
                              map (\<lambda>(shard, x). commit_call shard (wi_Key x) txnID now) (flatten (ord2 shardWrites)),
                              w', None)))"

section \<open>Grouping\<close>

lemma update_conv_fresh: "k \<notin> fst ` set m \<Longrightarrow> AList.update k v m = m @ [(k, v)]"
  by (induction m) auto

lemma mset_flatten_update:
  assumes "map_of m k = Some ws"
  shows "mset (flatten (AList.update k (ws @ [x]) m)) = mset (flatten m) + {#(k, x)#}"
  using assms by (induction m) (auto simp: flatten_def split: if_splits)

lemma flatten_append: "flatten (xs @ ys) = flatten xs @ flatten ys"
  by (simp add: flatten_def)

lemma mset_flatten_add_group:
  "mset (flatten (add_group r w m)) = mset (flatten m) + {#(Locate r (wi_Key w), w)#}"
proof (cases "map_of m (Locate r (wi_Key w))")
  case None
  then have "Locate r (wi_Key w) \<notin> fst ` set m" by (simp add: map_of_eq_None_iff)
  with None show ?thesis
    by (simp add: add_group_def Let_def update_conv_fresh flatten_append) (simp add: flatten_def)
next
  case (Some ws)
  then show ?thesis by (simp add: add_group_def Let_def mset_flatten_update)
qed

text \<open>Grouping keeps every write exactly once, with the shard of its key.\<close>

lemma mset_flatten_group:
  "mset (flatten (group_by_shard r writes)) = mset (map (\<lambda>w. (Locate r (wi_Key w), w)) writes)"
proof -
  have "mset (flatten (fold (add_group r) writes m)) =
      mset (flatten m) + mset (map (\<lambda>w. (Locate r (wi_Key w), w)) writes)" for m
    by (induction writes arbitrary: m) (simp_all add: mset_flatten_add_group)
  from this [of "[]"] show ?thesis by (simp add: group_by_shard_def flatten_def)
qed

lemma mset_flatten_sum:
  "mset (flatten gs) = sum_mset (image_mset (\<lambda>(shard, ws). mset (map (Pair shard) ws)) (mset gs))"
  by (induction gs) (auto simp: flatten_def)

lemma mset_flatten_perm: "mset gs = mset hs \<Longrightarrow> mset (flatten gs) = mset (flatten hs)"
  by (simp only: mset_flatten_sum)

lemma group_by_shard_not_Nil: "writes \<noteq> [] \<Longrightarrow> group_by_shard r writes \<noteq> []"
  using mset_flatten_group [of r writes] by (auto simp: flatten_def)

lemma set_flatten_group:
  "set (flatten (group_by_shard r writes)) = (\<lambda>w. (Locate r (wi_Key w), w)) ` set writes"
  using arg_cong [OF mset_flatten_group [of r writes], of set_mset] by simp

text \<open>In one group every write has the shard of the group, and the writes keep their order.\<close>

lemma group_single:
  assumes "group_by_shard r writes = [(shard, ws)]"
  shows "mset ws = mset writes" and "\<forall>w \<in> set writes. Locate r (wi_Key w) = shard"
proof -
  have m: "mset (map (Pair shard) ws) = mset (map (\<lambda>w. (Locate r (wi_Key w), w)) writes)"
    using mset_flatten_group [of r writes] by (simp add: assms flatten_def)
  from arg_cong [OF m, of "image_mset snd"] show "mset ws = mset writes"
    by (simp flip: mset_map add: comp_def del: mset_map)
  from arg_cong [OF m, of set_mset] show "\<forall>w \<in> set writes. Locate r (wi_Key w) = shard"
    by auto
qed

lemma group_keys:
  "distinct (map fst (group_by_shard r writes)) \<and>
   fst ` set (group_by_shard r writes) = (\<lambda>w. Locate r (wi_Key w)) ` set writes"
proof -
  have "distinct (map fst m) \<Longrightarrow> distinct (map fst (fold (add_group r) writes m)) \<and>
      fst ` set (fold (add_group r) writes m) = fst ` set m \<union> (\<lambda>w. Locate r (wi_Key w)) ` set writes" for m
  proof (induction writes arbitrary: m)
    case Nil
    then show ?case by simp
  next
    case (Cons w writes)
    have "distinct (map fst (add_group r w m))"
      using Cons.prems by (simp add: add_group_def Let_def distinct_update)
    moreover have "fst ` set (add_group r w m) = insert (Locate r (wi_Key w)) (fst ` set m)"
      by (simp add: add_group_def Let_def dom_update)
    ultimately show ?case using Cons.IH [of "add_group r w m"] by auto
  qed
  from this [of "[]"] show ?thesis by (simp add: group_by_shard_def)
qed

lemma group_single_iff:
  assumes "writes \<noteq> []"
  shows "(\<exists>g. group_by_shard r writes = [g]) \<longleftrightarrow> (\<exists>shard. \<forall>w \<in> set writes. Locate r (wi_Key w) = shard)"
proof
  assume "\<exists>g. group_by_shard r writes = [g]"
  then show "\<exists>shard. \<forall>w \<in> set writes. Locate r (wi_Key w) = shard"
    using group_single(2) by (metis surj_pair)
next
  assume "\<exists>shard. \<forall>w \<in> set writes. Locate r (wi_Key w) = shard"
  then obtain shard where "\<forall>w \<in> set writes. Locate r (wi_Key w) = shard" by blast
  then have "set (map fst (group_by_shard r writes)) \<subseteq> {shard}"
    using group_keys [of r writes] by auto
  moreover have "distinct (map fst (group_by_shard r writes))" using group_keys by blast
  moreover have "map fst (group_by_shard r writes) \<noteq> []"
    using group_by_shard_not_Nil [OF assms] by simp
  ultimately have "map fst (group_by_shard r writes) = [shard]"
    by (cases "map fst (group_by_shard r writes)"; cases "tl (map fst (group_by_shard r writes))") auto
  then show "\<exists>g. group_by_shard r writes = [g]" by (cases "group_by_shard r writes") auto
qed

lemma group_several:
  assumes "\<not> (\<exists>shard. \<forall>w \<in> set ws. Locate r (wi_Key w) = shard)"
  shows "ws \<noteq> [] \<and> (\<exists>g1 g2 gs. group_by_shard r ws = g1 # g2 # gs)"
proof -
  have ne: "ws \<noteq> []" using assms by auto
  moreover have "\<nexists>x. group_by_shard r ws = [x]" using assms group_single_iff [OF ne] by blast
  ultimately show ?thesis
    using group_by_shard_not_Nil [OF ne, of r] by (metis list.exhaust)
qed

text \<open>A loop over the groups in any order reaches every write exactly once.\<close>

lemma mset_map_flatten_group:
  assumes "\<forall>g. mset (ord g) = mset g"
  shows "mset (map f (flatten (ord (group_by_shard r ws)))) = mset (map (\<lambda>x. f (Locate r (wi_Key x), x)) ws)"
proof -
  have "mset (flatten (ord (group_by_shard r ws))) = mset (map (\<lambda>w. (Locate r (wi_Key w), w)) ws)"
    using mset_flatten_perm [of "ord (group_by_shard r ws)"] assms mset_flatten_group by metis
  from arg_cong [OF this, of "image_mset f"] show ?thesis
    by (simp add: comp_def flip: mset_map del: mset_map)
qed

lemma set_flatten_perm_group:
  assumes "\<forall>g. mset (ord g) = mset g"
  shows "set (flatten (ord (group_by_shard r ws))) = (\<lambda>w. (Locate r (wi_Key w), w)) ` set ws"
  using arg_cong [OF mset_map_flatten_group [OF assms, of id r ws], of set_mset] by simp

section \<open>Properties\<close>

text \<open>The network with a record of the calls made and the responses they got.\<close>

type_synonym exchange = "http_call \<times> http_response option"

definition logged :: "'w http \<Rightarrow> (exchange list \<times> 'w) http" where
  "logged http call tw = (case http call (snd tw) of (resp, w') \<Rightarrow> (resp, (fst tw @ [(call, resp)], w')))"

definition ok_response :: "http_response option \<Rightarrow> bool" where
  "ok_response r \<longleftrightarrow> (\<exists>resp. r = Some resp \<and> resp_StatusCode resp = 200)"

text \<open>The error that \<open>send\<close> makes of a response that is not OK.\<close>

definition response_error :: "http_response option \<Rightarrow> send_error" where
  "response_error r = (case r of None \<Rightarrow> SendFailed | Some resp \<Rightarrow> StatusError (resp_StatusCode resp))"

lemma prepare_loop_logged_Cons:
  assumes "http (prepare_call shard (wi_Key x) (wi_Value x) txnID) w = (r, w1)"
  shows "prepare_loop (logged http) txnID ((shard, x) # ps) (tr, w) =
    (let tr1 = tr @ [(prepare_call shard (wi_Key x) (wi_Value x) txnID, r)] in
     if ok_response r then prepare_loop (logged http) txnID ps (tr1, w1)
     else (Some (PrepareFailed shard (wi_Key x) (response_error r)), (tr1, w1)))"
  using assms
  by (cases r) (auto simp: sendPrepare_def send_def logged_def ok_response_def response_error_def Let_def)

text \<open>A loop that ends without an error has made every call, and every response was OK.\<close>

lemma prepare_loop_logged_None:
  "prepare_loop (logged http) txnID ps (tr, w) = (None, (tr', w')) \<Longrightarrow>
   \<exists>new. tr' = tr @ new \<and>
     map fst new = map (\<lambda>(shard, x). prepare_call shard (wi_Key x) (wi_Value x) txnID) ps \<and>
     (\<forall>r \<in> snd ` set new. ok_response r)"
proof (induction ps arbitrary: tr w)
  case Nil
  then show ?case by simp
next
  case (Cons p ps)
  obtain shard x where p: "p = (shard, x)" by fastforce
  let ?call = "prepare_call shard (wi_Key x) (wi_Value x) txnID"
  obtain r w1 where h: "http ?call w = (r, w1)" by fastforce
  have "ok_response r" and "prepare_loop (logged http) txnID ps (tr @ [(?call, r)], w1) = (None, (tr', w'))"
    using Cons.prems by (simp_all add: p prepare_loop_logged_Cons [where http = http, OF h] Let_def
      del: prepare_loop.simps split: if_splits)
  moreover from Cons.IH [OF this(2)] obtain new where "tr' = (tr @ [(?call, r)]) @ new"
    "map fst new = map (\<lambda>(shard, x). prepare_call shard (wi_Key x) (wi_Value x) txnID) ps"
    "\<forall>r \<in> snd ` set new. ok_response r" by blast
  ultimately show ?case by (intro exI [of _ "(?call, r) # new"]) (simp add: p)
qed

text \<open>A loop that ends with an error has stopped at the first response that was not OK.\<close>

lemma prepare_loop_logged_Some:
  "prepare_loop (logged http) txnID ps (tr, w) = (Some err, (tr', w')) \<Longrightarrow>
   \<exists>pre shard x rest new r. ps = pre @ (shard, x) # rest \<and>
     tr' = tr @ new @ [(prepare_call shard (wi_Key x) (wi_Value x) txnID, r)] \<and>
     map fst new = map (\<lambda>(shard, x). prepare_call shard (wi_Key x) (wi_Value x) txnID) pre \<and>
     (\<forall>r \<in> snd ` set new. ok_response r) \<and> \<not> ok_response r \<and>
     err = PrepareFailed shard (wi_Key x) (response_error r)"
proof (induction ps arbitrary: tr w)
  case Nil
  then show ?case by simp
next
  case (Cons p ps)
  obtain shard x where p: "p = (shard, x)" by fastforce
  let ?call = "prepare_call shard (wi_Key x) (wi_Value x) txnID"
  obtain r w1 where h: "http ?call w = (r, w1)" by fastforce
  note step = prepare_loop_logged_Cons [where http = http, OF h]
  show ?case
  proof (cases "ok_response r")
    case True
    then have "prepare_loop (logged http) txnID ps (tr @ [(?call, r)], w1) = (Some err, (tr', w'))"
      using Cons.prems by (simp add: p step Let_def del: prepare_loop.simps)
    from Cons.IH [OF this] obtain pre sh y rest new r' where "ps = pre @ (sh, y) # rest"
      "tr' = (tr @ [(?call, r)]) @ new @ [(prepare_call sh (wi_Key y) (wi_Value y) txnID, r')]"
      "map fst new = map (\<lambda>(shard, x). prepare_call shard (wi_Key x) (wi_Value x) txnID) pre"
      "\<forall>r \<in> snd ` set new. ok_response r" "\<not> ok_response r'"
      "err = PrepareFailed sh (wi_Key y) (response_error r')" by blast
    with True show ?thesis
      by (intro exI [of _ "p # pre"] exI [of _ sh] exI [of _ y] exI [of _ rest] exI [of _ "(?call, r) # new"]
          exI [of _ r']) (simp add: p)
  next
    case False
    then have "tr' = tr @ [] @ [(?call, r)]" and "err = PrepareFailed shard (wi_Key x) (response_error r)"
      using Cons.prems by (simp_all add: p step Let_def del: prepare_loop.simps)
    with False show ?thesis
      by (intro exI [of _ "[]"] exI [of _ shard] exI [of _ x] exI [of _ ps] exI [of _ r]) (simp add: p)
  qed
qed

definition txn_state :: "Coordinator \<Rightarrow> bytes \<Rightarrow> TxnState option" where
  "txn_state c txnID = map_option tx_State (co_transactions c txnID)"

lemma txn_state_set [simp]:
  "co_transactions c txnID = Some txn \<Longrightarrow> txn_state (set_state txnID st c) txnID = Some st"
  by (simp add: txn_state_def set_state_def)

lemma coord_Abort_Some:
  "co_transactions c txnID = Some txn \<Longrightarrow> coord_Abort txnID c =
    (set_state txnID StateAborted c,
     map (\<lambda>w. abort_call (Locate (co_router c) (wi_Key w)) (wi_Key w) txnID) (tx_Writes txn), None)"
  by (simp add: coord_Abort_def)

text \<open>
  (C7) Two-phase commit over several shards: for an active transaction whose writes live on
  more than one shard, \<open>Commit\<close> succeeds exactly when every response it got was OK (an answer
  with status 200); then it has made one prepare call for every write, the transaction is
  committed and exactly one commit call per write is started, all with the same timestamp.
  Otherwise it stopped at the first prepare call of one of the writes whose response was
  missing or not 200, the error names the shard, the key and that response, the transaction is
  aborted, exactly one abort call per write is started, and no commit call at all.  The calls
  and responses are those of the network, whatever it answers, and the two loops may visit the
  shards in any order.
\<close>

theorem two_phase_commit:
  assumes "co_transactions c txnID = Some txn" and "tx_State txn = StateActive"
    and "\<not> (\<exists>shard. \<forall>w \<in> set (tx_Writes txn). Locate (co_router c) (wi_Key w) = shard)"
    and "\<forall>g. mset (ord1 g) = mset g" and "\<forall>g. mset (ord2 g) = mset g"
    and "coord_Commit (logged http) ord1 ord2 now txnID c ([], w) = (c', calls, (trace, w'), err)"
  shows "let loc = (\<lambda>x. Locate (co_router c) (wi_Key x));
             prepare = (\<lambda>x. prepare_call (loc x) (wi_Key x) (wi_Value x) txnID);
             prepares = map prepare (tx_Writes txn)
    in (err = None \<longleftrightarrow> (\<forall>r \<in> snd ` set trace. ok_response r)) \<and>
       (case err of
         None \<Rightarrow> txn_state c' txnID = Some StateCommitted \<and> mset (map fst trace) = mset prepares \<and>
           mset calls = mset (map (\<lambda>x. commit_call (loc x) (wi_Key x) txnID now) (tx_Writes txn))
       | Some e \<Rightarrow> txn_state c' txnID = Some StateAborted \<and> mset (map fst trace) \<subseteq># mset prepares \<and>
           (\<exists>before x r. x \<in> set (tx_Writes txn) \<and> trace = before @ [(prepare x, r)] \<and>
              (\<forall>q \<in> snd ` set before. ok_response q) \<and> \<not> ok_response r \<and>
              e = PrepareFailed (loc x) (wi_Key x) (response_error r)) \<and>
           calls = map (\<lambda>x. abort_call (loc x) (wi_Key x) txnID) (tx_Writes txn))"
proof -
  let ?ws = "tx_Writes txn" and ?r = "co_router c"
  let ?g = "group_by_shard ?r ?ws"
  let ?pc = "\<lambda>(shard, x). prepare_call shard (wi_Key x) (wi_Value x) txnID"
  obtain g1 g2 gs where g: "?g = g1 # g2 # gs" and ne: "?ws \<noteq> []" using group_several [OF assms(3)] by blast
  obtain e tr w1 where loop: "prepare_loop (logged http) txnID (flatten (ord1 ?g)) ([], w) = (e, (tr, w1))"
    by (metis surj_pair)
  show ?thesis
  proof (cases e)
    case None
    then obtain new where "tr = [] @ new" "map fst new = map ?pc (flatten (ord1 ?g))"
      "\<forall>r \<in> snd ` set new. ok_response r"
      using prepare_loop_logged_None [of http txnID _ "[]" w tr w1] loop by blast
    then show ?thesis
      using assms(1,2,6) ne g loop None mset_map_flatten_group [OF assms(4), of ?pc ?r ?ws]
        mset_map_flatten_group [OF assms(5), of "\<lambda>(shard, x). commit_call shard (wi_Key x) txnID now" ?r ?ws]
      by (auto simp: coord_Commit_def Let_def simp flip: mset_map simp del: mset_map)
  next
    case (Some err1)
    then obtain pre shard x rest new r where ps: "flatten (ord1 ?g) = pre @ (shard, x) # rest"
      and tr: "tr = [] @ new @ [(?pc (shard, x), r)]" and new: "map fst new = map ?pc pre"
      and resp: "\<forall>r \<in> snd ` set new. ok_response r" "\<not> ok_response r"
      and err1: "err1 = PrepareFailed shard (wi_Key x) (response_error r)"
      using prepare_loop_logged_Some [of http txnID _ "[]" w err1 tr w1] loop by (simp add: prod.case) blast
    have x: "x \<in> set ?ws" "shard = Locate ?r (wi_Key x)"
      using set_flatten_perm_group [OF assms(4), of ?r ?ws] ps by auto
    have sub: "mset (map fst tr) \<subseteq># mset (map ?pc (flatten (ord1 ?g)))"
      by (simp add: tr new ps del: mset_map)
    have res: "c' = set_state txnID StateAborted c" "trace = tr" "err = Some err1"
      "calls = map (\<lambda>w. abort_call (Locate ?r (wi_Key w)) (wi_Key w) txnID) ?ws"
      using assms(1,2,6) ne g loop Some by (auto simp: coord_Commit_def Let_def coord_Abort_Some)
    show ?thesis
      using sub x resp err1 tr assms(1) mset_map_flatten_group [OF assms(4), of ?pc ?r ?ws]
      by (auto simp: res Let_def simp del: mset_map)
  qed
qed

text \<open>A router over two shards, a transaction with a write on each, and a network where every call succeeds.\<close>

definition sample_router :: Router where
  "sample_router = \<lparr>rt_MetaURL = [],
     rt_ranges = [\<lparr>r_StartKey = None, r_EndKey = Some (lit ''m''), r_ShardID = 1\<rparr>,
                  \<lparr>r_StartKey = Some (lit ''m''), r_EndKey = None, r_ShardID = 2\<rparr>],
     rt_ShardAddrs = [1 \<mapsto> lit ''s1'', 2 \<mapsto> lit ''s2'']\<rparr>"

definition sample_coordinator :: Coordinator where
  "sample_coordinator =
     fst (AddWrite (lit ''txn-7'') (lit ''z'') (lit ''2'')
       (fst (AddWrite (lit ''txn-7'') (lit ''a'') (lit ''1'') (fst (Begin 7 (NewCoordinator sample_router))))))"

definition always_ok :: "unit http" where
  "always_ok call w = (Some \<lparr>resp_StatusCode = 200, resp_Body = Some []\<rparr>, w)"

lemma sample_txn:
  "co_transactions sample_coordinator (lit ''txn-7'') =
     Some \<lparr>tx_ID = lit ''txn-7'', tx_State = StateActive, tx_StartTime = 7,
       tx_Writes = [\<lparr>wi_Key = lit ''a'', wi_Value = lit ''1''\<rparr>, \<lparr>wi_Key = lit ''z'', wi_Value = lit ''2''\<rparr>]\<rparr>"
  by code_simp

lemma sample_locate:
  "Locate (co_router sample_coordinator) (lit ''a'') = lit ''s1''"
  "Locate (co_router sample_coordinator) (lit ''z'') = lit ''s2''"
  by code_simp+

lemma result_split:
  obtains c' calls trace err
  where "(r :: Coordinator \<times> http_call list \<times> (exchange list \<times> unit) \<times> txn_error option) = (c', calls, (trace, ()), err)"
  by (cases r) auto

theorem two_phase_commit_witness:
  "case coord_Commit (logged always_ok) id id 9 (lit ''txn-7'') sample_coordinator ([], ()) of
     (c', calls, (trace, _), err) \<Rightarrow>
       err = None \<and> txn_state c' (lit ''txn-7'') = Some StateCommitted \<and>
         mset calls = {#commit_call (lit ''s1'') (lit ''a'') (lit ''txn-7'') 9, commit_call (lit ''s2'') (lit ''z'') (lit ''txn-7'') 9#}"
proof -
  obtain c' calls trace err where r:
    "coord_Commit (logged always_ok) id id 9 (lit ''txn-7'') sample_coordinator ([], ()) = (c', calls, (trace, ()), err)"
    using result_split by blast
  have "snd (snd (snd (coord_Commit (logged always_ok) id id 9 (lit ''txn-7'') sample_coordinator ([], ())))) = None"
    by code_simp
  then have err: "err = None" by (simp add: r)
  have ne: "lit ''s1'' \<noteq> lit ''s2''" by (simp add: lit_def)
  show ?thesis
    using two_phase_commit [OF sample_txn _ _ _ _ r] ne
    by (auto simp: r err sample_locate Let_def)
qed

text \<open>
  One-phase commit for a single shard: when all writes of an active transaction live on one
  shard, \<open>Commit\<close> makes exactly one call, a one-shot commit that carries all the writes; it
  prepares nothing and starts no other call unless that call fails, and then the transaction
  is aborted and one abort call per write is started.
\<close>

theorem single_shard_one_phase:
  assumes "co_transactions c txnID = Some txn" and "tx_State txn = StateActive" and "tx_Writes txn \<noteq> []"
    and "\<forall>w \<in> set (tx_Writes txn). Locate (co_router c) (wi_Key w) = shard"
    and "coord_Commit (logged http) ord1 ord2 now txnID c ([], w) = (c', calls, (trace, w'), err)"
  shows "(\<exists>ws r. mset ws = mset (tx_Writes txn) \<and> trace = [(oneshot_call shard ws txnID now, r)] \<and>
      (err = None \<longleftrightarrow> ok_response r)) \<and>
    (case err of
       None \<Rightarrow> txn_state c' txnID = Some StateCommitted \<and> calls = []
     | Some e \<Rightarrow> txn_state c' txnID = Some StateAborted \<and>
         calls = map (\<lambda>x. abort_call shard (wi_Key x) txnID) (tx_Writes txn))"
proof -
  let ?ws = "tx_Writes txn" and ?r = "co_router c"
  obtain g where "group_by_shard ?r ?ws = [g]" using group_single_iff [OF assms(3)] assms(4) by blast
  moreover obtain sh ws where "g = (sh, ws)" by fastforce
  ultimately have g: "group_by_shard ?r ?ws = [(sh, ws)]" by simp
  then have ws: "mset ws = mset ?ws" and "\<forall>w \<in> set ?ws. Locate ?r (wi_Key w) = sh"
    using group_single by blast+
  then have sh: "sh = shard" using assms(3,4) by (cases ?ws) auto
  have ab: "map (\<lambda>w. abort_call (Locate ?r (wi_Key w)) (wi_Key w) txnID) ?ws =
      map (\<lambda>x. abort_call shard (wi_Key x) txnID) ?ws"
    using assms(4) by simp
  obtain res w1 where h: "http (oneshot_call shard ws txnID now) w = (res, w1)" by fastforce
  have send: "sendOneShot (logged http) shard ws txnID now ([], w) =
      (if ok_response res then None
       else Some (response_error res), ([(oneshot_call shard ws txnID now, res)], w1))"
    using h by (cases res) (auto simp: sendOneShot_def send_def logged_def ok_response_def response_error_def)
  show ?thesis
    using assms(1,2,3,5) g sh send ws ab
    by (cases "ok_response res") (auto simp: coord_Commit_def Let_def coord_Abort_Some)
qed

theorem single_shard_one_phase_witness:
  "\<exists>ws trace. map fst trace = [oneshot_call (lit ''http://localhost:9001'') ws (lit ''txn-7'') 9] \<and>
     fst (fst (snd (snd (coord_Commit (logged always_ok) id id 9 (lit ''txn-7'')
       (fst (AddWrite (lit ''txn-7'') (lit ''a'') (lit ''1'') (fst (Begin 7 (NewCoordinator (NewRouter [])))))) ([], ()))))) = trace"
proof -
  let ?c = "fst (AddWrite (lit ''txn-7'') (lit ''a'') (lit ''1'') (fst (Begin 7 (NewCoordinator (NewRouter [])))))"
  have t: "co_transactions ?c (lit ''txn-7'') = Some \<lparr>tx_ID = lit ''txn-7'', tx_State = StateActive, tx_StartTime = 7,
       tx_Writes = [\<lparr>wi_Key = lit ''a'', wi_Value = lit ''1''\<rparr>]\<rparr>"
    by code_simp
  have l: "Locate (co_router ?c) (lit ''a'') = lit ''http://localhost:9001''" by code_simp
  obtain c' calls trace err where r:
    "coord_Commit (logged always_ok) id id 9 (lit ''txn-7'') ?c ([], ()) = (c', calls, (trace, ()), err)"
    using result_split by blast
  show ?thesis
    using single_shard_one_phase [OF t _ _ _ r, where shard = "lit ''http://localhost:9001''"] l
    by (auto simp: r)
qed

text \<open>
  Commits that do nothing: committing an unknown or a finished transaction is refused and
  changes nothing, and committing a transaction without writes reports success, makes no call
  and leaves the transaction active, so that it can still be written to.
\<close>

theorem commit_without_effect:
  "(txn_state c txnID \<noteq> Some StateActive \<longrightarrow>
      coord_Commit http ord1 ord2 now txnID c w = (c, [], w, Some NotActive)) \<and>
   (co_transactions c txnID = Some txn \<and> tx_State txn = StateActive \<and> tx_Writes txn = [] \<longrightarrow>
      coord_Commit http ord1 ord2 now txnID c w = (c, [], w, None) \<and>
      snd (AddWrite txnID key v (fst (coord_Commit http ord1 ord2 now txnID c w))) = None)"
  by (auto simp: coord_Commit_def txn_state_def AddWrite_def split: option.splits)

theorem commit_without_effect_witness:
  "coord_Commit always_ok id id 9 (lit ''no'') (NewCoordinator sample_router) () =
     (NewCoordinator sample_router, [], (), Some NotActive)"
  using commit_without_effect [where c = "NewCoordinator sample_router" and txnID = "lit ''no''"]
  by (simp add: txn_state_def NewCoordinator_def)

text \<open>
  An abort overrides a commit: \<open>Abort\<close> does not look at the state, so aborting a committed
  transaction succeeds, marks it aborted and starts an abort call for every write, which
  remove the intents that commit calls still under way have not reached.
\<close>

theorem abort_after_commit:
  assumes "co_transactions c txnID = Some txn" and "tx_State txn = StateCommitted"
  shows "coord_Abort txnID c =
      (set_state txnID StateAborted c,
       map (\<lambda>w. abort_call (Locate (co_router c) (wi_Key w)) (wi_Key w) txnID) (tx_Writes txn), None) \<and>
    txn_state (fst (coord_Abort txnID c)) txnID = Some StateAborted"
  using assms by (simp add: coord_Abort_Some)

theorem abort_after_commit_witness:
  "txn_state (set_state (lit ''txn-7'') StateCommitted sample_coordinator) (lit ''txn-7'') = Some StateCommitted \<and>
   txn_state (fst (coord_Abort (lit ''txn-7'') (set_state (lit ''txn-7'') StateCommitted sample_coordinator))) (lit ''txn-7'') =
     Some StateAborted"
proof -
  let ?c = "set_state (lit ''txn-7'') StateCommitted sample_coordinator"
  obtain txn where t: "co_transactions ?c (lit ''txn-7'') = Some txn" "tx_State txn = StateCommitted"
    by (simp add: set_state_def sample_txn)
  then have "txn_state ?c (lit ''txn-7'') = Some StateCommitted" by (simp add: txn_state_def)
  with abort_after_commit [OF t] show ?thesis by blast
qed

end
