(* ===== verification/Txn_Network.thy ===== *)
theory Txn_Network
  imports Coordinator Store_Machine
begin

text \<open>
  What the coordinator needs from the shards.  The abstract state of the whole system is one
  multi-version store per shard address; a transaction call acts on one key of one store.
  The locale \<open>txn_network\<close> is the interface between the coordinator and the network of
  shards, and the lemmas inside it are what the coordinator's \<open>Commit\<close> and \<open>Abort\<close> achieve
  on any network that keeps it.
\<close>

section \<open>The abstract state of the system\<close>

type_synonym net_state = "bytes \<rightharpoonup> mvcc_state"

text \<open>The versions and the intent of one key.\<close>

type_synonym cell = "(u64 \<rightharpoonup> slice) \<times> Lock option"

definition cell_of :: "net_state \<Rightarrow> bytes \<Rightarrow> bytes \<Rightarrow> cell option" where
  "cell_of M a key = map_option (\<lambda>m. (versions m key, intents m key)) (M a)"

definition may_take :: "bytes \<Rightarrow> Lock option \<Rightarrow> bool" where
  "may_take txn i \<longleftrightarrow> (\<forall>l. i = Some l \<longrightarrow> lock_TxnID l = txn)"

fun cmd_key :: "store_cmd \<Rightarrow> bytes option" where
  "cmd_key (CPrepare key _ _) = Some key"
| "cmd_key (CCommit key _ _) = Some key"
| "cmd_key (CAbort key _) = Some key"
| "cmd_key _ = None"

fun cell_cmd :: "store_cmd \<Rightarrow> cell \<Rightarrow> cell" where
  "cell_cmd (CPrepare _ v txn) (vs, i) =
     (vs, if may_take txn i then Some \<lparr>lock_TxnID = txn, lock_Value = v\<rparr> else i)"
| "cell_cmd (CCommit _ txn ts) (vs, i) =
     (case i of
        Some l \<Rightarrow> if lock_TxnID l = txn then (vs(ts \<mapsto> lock_Value l), None) else (vs, i)
      | None \<Rightarrow> (vs, i))"
| "cell_cmd (CAbort _ txn) (vs, i) =
     (vs, case i of Some l \<Rightarrow> if lock_TxnID l = txn then None else i | None \<Rightarrow> None)"
| "cell_cmd _ c = c"

definition spec_op :: "bytes \<times> store_cmd \<Rightarrow> net_state \<Rightarrow> net_state" where
  "spec_op op M = M(fst op := map_option (\<lambda>m. spec_cmd m (snd op)) (M (fst op)))"

lemma spec_cmd_cell:
  assumes "cmd_key c = Some key"
  shows "(versions (spec_cmd m c) k, intents (spec_cmd m c) k) =
    (if k = key then cell_cmd c (versions m k, intents m k) else (versions m k, intents m k))"
  using assms
  by (cases c)
     (auto simp: available_def may_take_def holds_intent_def spec_release_def spec_add_version_def split: option.splits)

lemma cell_spec_op:
  assumes "cmd_key c = Some key"
  shows "cell_of (spec_op (a, c) M) a' k =
    (if a' = a \<and> k = key then map_option (cell_cmd c) (cell_of M a key) else cell_of M a' k)"
  using spec_cmd_cell [OF assms]
  by (auto simp: cell_of_def spec_op_def option.map_comp comp_def simp del: spec_cmd.simps cell_cmd.simps
      intro!: option.map_cong)

text \<open>Commands on different cells do not interfere, so their order does not matter.\<close>

lemma cell_spec_ops:
  assumes "\<forall>op \<in> set ops. cmd_key (snd op) \<noteq> None" and "distinct (map (\<lambda>op. (fst op, cmd_key (snd op))) ops)"
  shows "cell_of (fold spec_op ops M) a k =
    (case map_of (map (\<lambda>op. ((fst op, cmd_key (snd op)), snd op)) ops) (a, Some k) of
       Some c \<Rightarrow> map_option (cell_cmd c) (cell_of M a k)
     | None \<Rightarrow> cell_of M a k)"
  using assms
proof (induction ops arbitrary: M)
  case Nil
  then show ?case by simp
next
  case (Cons op ops)
  obtain b c where op: "op = (b, c)" by fastforce
  obtain key where key: "cmd_key c = Some key" using Cons.prems(1) op by auto
  have fresh: "map_of (map (\<lambda>op. ((fst op, cmd_key (snd op)), snd op)) ops) (b, Some key) = None"
    using Cons.prems(2) op key by (force simp: map_of_eq_None_iff)
  have "cell_of (fold spec_op (op # ops) M) a k = cell_of (fold spec_op ops (spec_op (b, c) M)) a k"
    by (simp add: op)
  also have "\<dots> = (case map_of (map (\<lambda>op. ((fst op, cmd_key (snd op)), snd op)) ops) (a, Some k) of
       Some c' \<Rightarrow> map_option (cell_cmd c') (cell_of (spec_op (b, c) M) a k)
     | None \<Rightarrow> cell_of (spec_op (b, c) M) a k)"
    using Cons.IH Cons.prems by simp
  finally show ?case
    using fresh key by (auto simp: cell_spec_op op split: option.split)
qed

section \<open>Two phases on the abstract state\<close>

abbreviation prepare_op :: "bytes \<Rightarrow> bytes \<times> WriteIntent \<Rightarrow> bytes \<times> store_cmd" where
  "prepare_op txn p \<equiv> (fst p, CPrepare (wi_Key (snd p)) (Some (wi_Value (snd p))) txn)"

abbreviation commit_op :: "bytes \<Rightarrow> u64 \<Rightarrow> bytes \<times> WriteIntent \<Rightarrow> bytes \<times> store_cmd" where
  "commit_op txn ts p \<equiv> (fst p, CCommit (wi_Key (snd p)) txn ts)"

abbreviation abort_op :: "bytes \<Rightarrow> bytes \<times> WriteIntent \<Rightarrow> bytes \<times> store_cmd" where
  "abort_op txn p \<equiv> (fst p, CAbort (wi_Key (snd p)) txn)"

text \<open>What a committed write does to its cell: nothing when another transaction holds the key.\<close>

definition cell_write :: "bytes \<Rightarrow> bytes \<Rightarrow> u64 \<Rightarrow> cell \<Rightarrow> cell" where
  "cell_write txn v ts c =
     (if may_take txn (snd c) then ((fst c)(ts \<mapsto> Some v), None) else c)"

lemma cell_write_two_phases:
  "cell_cmd (CCommit key txn ts) (cell_cmd (CPrepare key (Some v) txn) c) = cell_write txn v ts c"
  by (cases c) (auto simp: cell_write_def may_take_def split: option.splits)

lemma map_of_cells:
  assumes "distinct (map (\<lambda>p. wi_Key (snd p)) ps)" and "\<And>p. cmd_key (f p) = Some (wi_Key (snd p))"
  shows "distinct (map (\<lambda>op. (fst op, cmd_key (snd op))) (map (\<lambda>p. (fst p, f p)) ps))"
    and "p \<in> set ps \<Longrightarrow> map_of (map (\<lambda>op. ((fst op, cmd_key (snd op)), snd op)) (map (\<lambda>p. (fst p, f p)) ps))
      (fst p, Some (wi_Key (snd p))) = Some (f p)"
    and "(\<forall>p \<in> set ps. (fst p, wi_Key (snd p)) \<noteq> (a, k)) \<Longrightarrow>
      map_of (map (\<lambda>op. ((fst op, cmd_key (snd op)), snd op)) (map (\<lambda>p. (fst p, f p)) ps)) (a, Some k) = None"
proof -
  show d: "distinct (map (\<lambda>op. (fst op, cmd_key (snd op))) (map (\<lambda>p. (fst p, f p)) ps))"
    using assms by (induction ps) (auto simp: image_iff)
  show "map_of (map (\<lambda>op. ((fst op, cmd_key (snd op)), snd op)) (map (\<lambda>p. (fst p, f p)) ps))
      (fst p, Some (wi_Key (snd p))) = Some (f p)" if "p \<in> set ps"
    using d that assms(2) by (intro map_of_is_SomeI) (auto simp: comp_def)
  show "map_of (map (\<lambda>op. ((fst op, cmd_key (snd op)), snd op)) (map (\<lambda>p. (fst p, f p)) ps)) (a, Some k) = None"
    if "\<forall>p \<in> set ps. (fst p, wi_Key (snd p)) \<noteq> (a, k)"
    using that assms(2) by (auto simp: map_of_eq_None_iff)
qed

text \<open>The effect of one command per write on every cell.\<close>

lemma cells_of_ops:
  assumes "distinct (map (\<lambda>p. wi_Key (snd p)) ps)" and "\<And>p. cmd_key (f p) = Some (wi_Key (snd p))"
  shows "p \<in> set ps \<Longrightarrow> cell_of (fold spec_op (map (\<lambda>p. (fst p, f p)) ps) M) (fst p) (wi_Key (snd p)) =
      map_option (cell_cmd (f p)) (cell_of M (fst p) (wi_Key (snd p)))"
    and "\<forall>p \<in> set ps. (fst p, wi_Key (snd p)) \<noteq> (a, k) \<Longrightarrow>
      cell_of (fold spec_op (map (\<lambda>p. (fst p, f p)) ps) M) a k = cell_of M a k"
  using cell_spec_ops [OF _ map_of_cells(1) [OF assms], of M] map_of_cells(2,3) [OF assms] assms(2)
  by (simp_all add: comp_def)

lemma two_phase_cells:
  assumes "distinct (map (\<lambda>p. wi_Key (snd p)) ps)" and "mset qs = mset ps"
  shows "p \<in> set ps \<Longrightarrow>
      cell_of (fold spec_op (map (commit_op txn ts) qs) (fold spec_op (map (prepare_op txn) ps) M)) (fst p) (wi_Key (snd p)) =
      map_option (cell_write txn (wi_Value (snd p)) ts) (cell_of M (fst p) (wi_Key (snd p)))"
    and "\<forall>p \<in> set ps. (fst p, wi_Key (snd p)) \<noteq> (a, k) \<Longrightarrow>
      cell_of (fold spec_op (map (commit_op txn ts) qs) (fold spec_op (map (prepare_op txn) ps) M)) a k = cell_of M a k"
proof -
  have set: "set qs = set ps" using assms(2) by (rule mset_eq_setD)
  have "mset (map (\<lambda>p. wi_Key (snd p)) qs) = mset (map (\<lambda>p. wi_Key (snd p)) ps)" using assms(2) by simp
  then have d: "distinct (map (\<lambda>p. wi_Key (snd p)) qs)" using assms(1) mset_eq_imp_distinct_iff by blast
  note pr = cells_of_ops [OF assms(1), of "\<lambda>p. CPrepare (wi_Key (snd p)) (Some (wi_Value (snd p))) txn"]
  note co = cells_of_ops [OF d, of "\<lambda>p. CCommit (wi_Key (snd p)) txn ts"]
  show "p \<in> set ps \<Longrightarrow>
      cell_of (fold spec_op (map (commit_op txn ts) qs) (fold spec_op (map (prepare_op txn) ps) M)) (fst p) (wi_Key (snd p)) =
      map_option (cell_write txn (wi_Value (snd p)) ts) (cell_of M (fst p) (wi_Key (snd p)))"
    using co(1) [of p] pr(1) [of p] set
    by (simp add: option.map_comp comp_def cell_write_two_phases del: cell_cmd.simps)
  show "\<forall>p \<in> set ps. (fst p, wi_Key (snd p)) \<noteq> (a, k) \<Longrightarrow>
      cell_of (fold spec_op (map (commit_op txn ts) qs) (fold spec_op (map (prepare_op txn) ps) M)) a k = cell_of M a k"
    using co(2) [of a k] pr(2) [of a k] set by simp
qed

section \<open>The interface of the network\<close>

text \<open>
  The calls that goroutines make, one after the other, with internal steps of the network
  (\<open>tau\<close>) in between.
\<close>

inductive net_exec :: "'w http \<Rightarrow> ('w \<Rightarrow> 'w \<Rightarrow> bool) \<Rightarrow> http_call list \<Rightarrow> 'w \<Rightarrow> 'w \<Rightarrow> bool"
  for http tau where
  exec_done: "net_exec http tau [] w w"
| exec_tau: "tau w w1 \<Longrightarrow> net_exec http tau cs w1 w2 \<Longrightarrow> net_exec http tau cs w w2"
| exec_call: "net_exec http tau cs (snd (http c w)) w2 \<Longrightarrow> net_exec http tau (c # cs) w w2"

lemma spec_op_dom: "spec_op op M a = None \<longleftrightarrow> M a = None"
  by (auto simp: spec_op_def)

lemma fold_spec_op_dom: "fold spec_op ops M a = None \<longleftrightarrow> M a = None"
  by (induction ops arbitrary: M) (simp_all add: spec_op_dom)

lemma mset_eq_map: "mset cs = mset (map f xs) \<Longrightarrow> \<exists>ys. mset ys = mset xs \<and> cs = map f ys"
proof (induction cs arbitrary: xs)
  case Nil
  then show ?case by (intro exI [of _ "[]"]) simp
next
  case (Cons c cs)
  have "c \<in> set (map f xs)" using mset_eq_setD [OF Cons.prems] by auto
  then obtain x where x: "x \<in> set xs" "c = f x" by auto
  have "mset (map f xs) = mset (f x # map f (remove1 x xs))"
    using x(1) by (simp flip: image_mset_add_mset)
  then have "mset cs = mset (map f (remove1 x xs))" using Cons.prems x(2) by simp
  then obtain ys where "mset ys = mset (remove1 x xs)" "cs = map f ys" using Cons.IH by blast
  with x show ?case by (intro exI [of _ "x # ys"]) simp
qed

text \<open>The writes of a transaction with the shards of their keys.\<close>

definition located :: "Router \<Rightarrow> WriteIntent list \<Rightarrow> (bytes \<times> WriteIntent) list" where
  "located r ws = map (\<lambda>w. (Locate r (wi_Key w), w)) ws"

lemma fst_located: "p \<in> set (located r ws) \<Longrightarrow> fst p = Locate r (wi_Key (snd p)) \<and> snd p \<in> set ws"
  by (auto simp: located_def)

lemma several_groups:
  assumes "\<not> (\<exists>shard. \<forall>x \<in> set ws. Locate r (wi_Key x) = shard)"
  obtains g1 g2 gs where "ws \<noteq> []" and "group_by_shard r ws = g1 # g2 # gs"
proof -
  have ne: "ws \<noteq> []" using assms by auto
  moreover have "\<nexists>g. group_by_shard r ws = [g]" using assms group_single_iff [OF ne] by blast
  ultimately show ?thesis
    using that group_by_shard_not_Nil [OF ne, of r] by (metis list.exhaust)
qed

lemma mset_visited:
  "\<forall>g. mset (ord g) = mset g \<Longrightarrow> mset (flatten (ord (group_by_shard r ws))) = mset (located r ws)"
  using mset_flatten_perm [of "ord (group_by_shard r ws)" "group_by_shard r ws"] mset_flatten_group [of r ws]
  by (simp add: located_def)

lemma distinct_located:
  assumes "mset ps = mset (located r ws)" and "distinct (map wi_Key ws)"
  shows "distinct (map (\<lambda>p. wi_Key (snd p)) ps)"
proof -
  have "mset (map (\<lambda>p. wi_Key (snd p)) ps) = mset (map wi_Key ws)"
    using arg_cong [OF assms(1), of "image_mset (\<lambda>p. wi_Key (snd p))"]
    by (simp add: located_def comp_def flip: mset_map del: mset_map)
  then show ?thesis using assms(2) mset_eq_imp_distinct_iff by blast
qed

lemma coord_Commit_prepared:
  assumes "co_transactions c txnID = Some txn" and "tx_State txn = StateActive"
    and "\<not> (\<exists>shard. \<forall>x \<in> set (tx_Writes txn). Locate (co_router c) (wi_Key x) = shard)"
    and "prepare_loop http txnID (flatten (ord1 (group_by_shard (co_router c) (tx_Writes txn)))) w = (None, w0)"
  shows "coord_Commit http ord1 ord2 now txnID c w = (set_state txnID StateCommitted c,
      map (\<lambda>p. commit_call (fst p) (wi_Key (snd p)) txnID now)
        (flatten (ord2 (group_by_shard (co_router c) (tx_Writes txn)))), w0, None)"
proof -
  obtain g1 g2 gs where g: "tx_Writes txn \<noteq> []" "group_by_shard (co_router c) (tx_Writes txn) = g1 # g2 # gs"
    using several_groups [OF assms(3)] .
  with assms(1,2,4) show ?thesis by (auto simp: coord_Commit_def)
qed

locale txn_network =
  fixes http :: "'w http" and tau :: "'w \<Rightarrow> 'w \<Rightarrow> bool"
    and winv :: "'w \<Rightarrow> bool" and state :: "'w \<Rightarrow> net_state"
    and addr_ok :: "bytes \<Rightarrow> bool" and arg_ok :: "bytes \<Rightarrow> bool" and txn_ok :: "bytes \<Rightarrow> bool"
  assumes tau_law: "winv w \<Longrightarrow> tau w w' \<Longrightarrow> winv w' \<and> state w' = state w"
    and prepare_law: "winv w \<Longrightarrow> addr_ok a \<Longrightarrow> state w a \<noteq> None \<Longrightarrow> arg_ok key \<Longrightarrow> arg_ok v \<Longrightarrow> txn_ok txn \<Longrightarrow>
      http (prepare_call a key v txn) w = (r, w') \<Longrightarrow>
      ok_response r \<and> winv w' \<and> state w' = spec_op (a, CPrepare key (Some v) txn) (state w)"
    and commit_law: "winv w \<Longrightarrow> addr_ok a \<Longrightarrow> state w a \<noteq> None \<Longrightarrow> arg_ok key \<Longrightarrow> txn_ok txn \<Longrightarrow>
      http (commit_call a key txn ts) w = (r, w') \<Longrightarrow>
      winv w' \<and> state w' = spec_op (a, CCommit key txn ts) (state w)"
    and abort_law: "winv w \<Longrightarrow> addr_ok a \<Longrightarrow> state w a \<noteq> None \<Longrightarrow> arg_ok key \<Longrightarrow> txn_ok txn \<Longrightarrow>
      http (abort_call a key txn) w = (r, w') \<Longrightarrow>
      winv w' \<and> state w' = spec_op (a, CAbort key txn) (state w)"
begin

lemma prepare_loop_effect:
  assumes "winv w" and "txn_ok txn"
    and "\<forall>p \<in> set ps. addr_ok (fst p) \<and> state w (fst p) \<noteq> None \<and> arg_ok (wi_Key (snd p)) \<and> arg_ok (wi_Value (snd p))"
    and "prepare_loop http txn ps w = (e, w')"
  shows "e = None \<and> winv w' \<and> state w' = fold spec_op (map (prepare_op txn) ps) (state w)"
  using assms
proof (induction ps arbitrary: w)
  case Nil
  then show ?case by simp
next
  case (Cons p ps)
  obtain a x where p: "p = (a, x)" by fastforce
  obtain r w1 where h: "http (prepare_call a (wi_Key x) (wi_Value x) txn) w = (r, w1)" by fastforce
  have eff: "ok_response r" "winv w1" "state w1 = spec_op (prepare_op txn p) (state w)"
    using prepare_law [OF Cons.prems(1) _ _ _ _ Cons.prems(2) h] Cons.prems(3) p by simp_all
  then have "sendPrepare http a (wi_Key x) (wi_Value x) txn w = (None, w1)"
    using h by (auto simp: sendPrepare_def send_def ok_response_def split: option.splits)
  then have "prepare_loop http txn ps w1 = (e, w')" using Cons.prems(4) p by simp
  with Cons.IH [OF eff(2) Cons.prems(2)] Cons.prems(3) eff(3) show ?case
    by (simp add: p spec_op_dom)
qed

lemma exec_effect:
  assumes "net_exec http tau cs w w'" and "cs = map call qs" and "winv w"
    and "\<And>p w r w'. p \<in> set qs \<Longrightarrow> winv w \<Longrightarrow> state w (fst (op p)) \<noteq> None \<Longrightarrow> http (call p) w = (r, w') \<Longrightarrow>
      winv w' \<and> state w' = spec_op (op p) (state w)"
    and "\<forall>p \<in> set qs. state w (fst (op p)) \<noteq> None"
  shows "winv w' \<and> state w' = fold spec_op (map op qs) (state w)"
  using assms
proof (induction arbitrary: qs rule: net_exec.induct)
  case (exec_done w)
  then show ?case by simp
next
  case (exec_tau w w1 cs w2)
  have t: "winv w1" "state w1 = state w" using tau_law [OF exec_tau.prems(2) exec_tau.hyps(1)] by blast+
  have "winv w2 \<and> state w2 = fold spec_op (map op qs) (state w1)"
    by (rule exec_tau.IH [OF exec_tau.prems(1) t(1) exec_tau.prems(3)]) (use exec_tau.prems(4) t(2) in simp_all)
  with t(2) show ?case by simp
next
  case (exec_call cs c w w2)
  obtain p ps where qs: "qs = p # ps" "c = call p" "cs = map call ps"
    using exec_call.prems(1) by (cases qs) auto
  obtain r w1 where h: "http (call p) w = (r, w1)" by fastforce
  have p: "p \<in> set qs" "state w (fst (op p)) \<noteq> None" using exec_call.prems(4) qs(1) by auto
  have s1: "winv w1 \<and> state w1 = spec_op (op p) (state w)"
    by (rule exec_call.prems(3) [OF p(1) exec_call.prems(2) p(2) h])
  have "winv w2 \<and> state w2 = fold spec_op (map op ps) (state (snd (http c w)))"
  proof (rule exec_call.IH [OF qs(3)])
    show "winv (snd (http c w))" using s1 h qs(2) by simp
    show "winv w' \<and> state w' = spec_op (op q) (state v)"
      if "q \<in> set ps" "winv v" "state v (fst (op q)) \<noteq> None" "http (call q) v = (r', w')" for q v r' w'
      by (rule exec_call.prems(3) [OF _ that(2-4)]) (use that(1) qs(1) in simp)
    show "\<forall>q \<in> set ps. state (snd (http c w)) (fst (op q)) \<noteq> None"
      using exec_call.prems(4) s1 h qs by (simp add: spec_op_dom)
  qed
  then show ?case using s1 h qs by simp
qed

lemma exec_commits:
  assumes "net_exec http tau (map (\<lambda>p. commit_call (fst p) (wi_Key (snd p)) txn ts) qs) w w'" and "winv w" and "txn_ok txn"
    and ok: "\<forall>p \<in> set qs. addr_ok (fst p) \<and> state w (fst p) \<noteq> None \<and> arg_ok (wi_Key (snd p))"
  shows "winv w' \<and> state w' = fold spec_op (map (commit_op txn ts) qs) (state w)"
proof (rule exec_effect [OF assms(1) refl assms(2)])
  fix p v r v'
  assume p: "p \<in> set qs" and v: "winv v" "state v (fst (commit_op txn ts p)) \<noteq> None"
    and h: "http (commit_call (fst p) (wi_Key (snd p)) txn ts) v = (r, v')"
  show "winv v' \<and> state v' = spec_op (commit_op txn ts p) (state v)"
    by (rule commit_law [OF v(1) _ _ _ assms(3) h]) (use p v(2) ok in simp_all)
qed (use ok in simp)

lemma exec_aborts:
  assumes "net_exec http tau (map (\<lambda>p. abort_call (fst p) (wi_Key (snd p)) txn) qs) w w'" and "winv w" and "txn_ok txn"
    and ok: "\<forall>p \<in> set qs. addr_ok (fst p) \<and> state w (fst p) \<noteq> None \<and> arg_ok (wi_Key (snd p))"
  shows "winv w' \<and> state w' = fold spec_op (map (abort_op txn) qs) (state w)"
proof (rule exec_effect [OF assms(1) refl assms(2)])
  fix p v r v'
  assume p: "p \<in> set qs" and v: "winv v" "state v (fst (abort_op txn p)) \<noteq> None"
    and h: "http (abort_call (fst p) (wi_Key (snd p)) txn) v = (r, v')"
  show "winv v' \<and> state v' = spec_op (abort_op txn p) (state v)"
    by (rule abort_law [OF v(1) _ _ _ assms(3) h]) (use p v(2) ok in simp_all)
qed (use ok in simp)

text \<open>\<open>Commit\<close> over several shards, and then all the calls it has started, in any order.\<close>

lemma commit_effect:
  assumes "winv w" and "txn_ok txnID"
    and "co_transactions c txnID = Some txn" and "tx_State txn = StateActive"
    and "\<not> (\<exists>shard. \<forall>x \<in> set (tx_Writes txn). Locate (co_router c) (wi_Key x) = shard)"
    and "distinct (map wi_Key (tx_Writes txn))"
    and ready: "\<forall>x \<in> set (tx_Writes txn). addr_ok (Locate (co_router c) (wi_Key x)) \<and>
      state w (Locate (co_router c) (wi_Key x)) \<noteq> None \<and> arg_ok (wi_Key x) \<and> arg_ok (wi_Value x)"
    and "\<forall>g. mset (ord1 g) = mset g" and "\<forall>g. mset (ord2 g) = mset g"
    and "coord_Commit http ord1 ord2 now txnID c w = (c', calls, w1, err)"
    and "mset calls' = mset calls" and "net_exec http tau calls' w1 w2"
  shows "err = None \<and> txn_state c' txnID = Some StateCommitted \<and> winv w2 \<and>
    (\<forall>x \<in> set (tx_Writes txn). cell_of (state w2) (Locate (co_router c) (wi_Key x)) (wi_Key x) =
      map_option (cell_write txnID (wi_Value x) now) (cell_of (state w) (Locate (co_router c) (wi_Key x)) (wi_Key x))) \<and>
    (\<forall>a k. (\<forall>x \<in> set (tx_Writes txn). (Locate (co_router c) (wi_Key x), wi_Key x) \<noteq> (a, k)) \<longrightarrow>
      cell_of (state w2) a k = cell_of (state w) a k)"
proof -
  let ?ws = "tx_Writes txn" and ?r = "co_router c"
  let ?g = "group_by_shard ?r ?ws" and ?loc = "located ?r ?ws"
  define ps where "ps = flatten (ord1 ?g)"
  define qs where "qs = flatten (ord2 ?g)"
  have ps: "mset ps = mset ?loc" and qs: "mset qs = mset ?loc"
    unfolding ps_def qs_def using mset_visited assms(8,9) by auto
  have sets: "set ps = set ?loc" "set qs = set ?loc" using ps qs by (metis mset_eq_setD)+
  have okp: "\<forall>p \<in> set ?loc. addr_ok (fst p) \<and> state w (fst p) \<noteq> None \<and> arg_ok (wi_Key (snd p)) \<and> arg_ok (wi_Value (snd p))"
    using ready fst_located [of _ ?r ?ws] by metis
  obtain e w0 where loop: "prepare_loop http txnID ps w = (e, w0)" by fastforce
  have p1: "e = None" "winv w0" "state w0 = fold spec_op (map (prepare_op txnID) ps) (state w)"
    using prepare_loop_effect [OF assms(1,2) _ loop] okp sets by auto
  have res: "err = None" "c' = set_state txnID StateCommitted c" "w1 = w0"
      "calls = map (\<lambda>p. commit_call (fst p) (wi_Key (snd p)) txnID now) qs"
    using coord_Commit_prepared [OF assms(3,4,5), of http ord1 w w0 ord2 now] loop assms(10)
    unfolding p1(1) ps_def qs_def by auto
  obtain qs' where qs': "mset qs' = mset qs" "calls' = map (\<lambda>p. commit_call (fst p) (wi_Key (snd p)) txnID now) qs'"
    using mset_eq_map [of calls' "\<lambda>p. commit_call (fst p) (wi_Key (snd p)) txnID now" qs] assms(11) unfolding res(4) by blast
  have okq: "\<forall>p \<in> set qs'. addr_ok (fst p) \<and> state w0 (fst p) \<noteq> None \<and> arg_ok (wi_Key (snd p))"
    using okp sets mset_eq_setD [OF qs'(1)] by (simp add: p1(3) fold_spec_op_dom)
  have p2: "winv w2" "state w2 = fold spec_op (map (commit_op txnID now) qs') (state w0)"
    using exec_commits [OF _ p1(2) assms(2) okq] assms(12) unfolding qs'(2) res(3) by blast+
  have d: "distinct (map (\<lambda>p. wi_Key (snd p)) ps)" by (rule distinct_located [OF ps assms(6)])
  have "mset qs' = mset ps" using qs'(1) ps qs by simp
  note cells = two_phase_cells [OF d this, where txn = txnID and ts = now and M = "state w"]
  have "cell_of (state w2) (Locate ?r (wi_Key x)) (wi_Key x) =
      map_option (cell_write txnID (wi_Value x) now) (cell_of (state w) (Locate ?r (wi_Key x)) (wi_Key x))"
    if "x \<in> set ?ws" for x
    using cells(1) [of "(Locate ?r (wi_Key x), x)"] that unfolding p2(2) p1(3) sets(1) by (simp add: located_def)
  moreover have "cell_of (state w2) a k = cell_of (state w) a k"
    if "\<forall>x \<in> set ?ws. (Locate ?r (wi_Key x), wi_Key x) \<noteq> (a, k)" for a k
    using cells(2) [of a k] that unfolding p2(2) p1(3) sets(1) by (simp add: located_def)
  ultimately show ?thesis using res p2(1) assms(3) by simp
qed

text \<open>\<open>Abort\<close>, and then the calls it has started, in any order: the transaction holds no key any more.\<close>

lemma abort_effect:
  assumes "winv w" and "txn_ok txnID" and "co_transactions c txnID = Some txn"
    and "distinct (map wi_Key (tx_Writes txn))"
    and ready: "\<forall>x \<in> set (tx_Writes txn). addr_ok (Locate (co_router c) (wi_Key x)) \<and>
      state w (Locate (co_router c) (wi_Key x)) \<noteq> None \<and> arg_ok (wi_Key x)"
    and "coord_Abort txnID c = (c', calls, err)" and "mset calls' = mset calls" and "net_exec http tau calls' w w2"
  shows "err = None \<and> txn_state c' txnID = Some StateAborted \<and> winv w2 \<and>
    (\<forall>x \<in> set (tx_Writes txn). cell_of (state w2) (Locate (co_router c) (wi_Key x)) (wi_Key x) =
      map_option (cell_cmd (CAbort (wi_Key x) txnID)) (cell_of (state w) (Locate (co_router c) (wi_Key x)) (wi_Key x))) \<and>
    (\<forall>a k. (\<forall>x \<in> set (tx_Writes txn). (Locate (co_router c) (wi_Key x), wi_Key x) \<noteq> (a, k)) \<longrightarrow>
      cell_of (state w2) a k = cell_of (state w) a k)"
proof -
  let ?ws = "tx_Writes txn" and ?r = "co_router c"
  let ?loc = "located ?r ?ws"
  have res: "err = None" "c' = set_state txnID StateAborted c"
      "calls = map (\<lambda>p. abort_call (fst p) (wi_Key (snd p)) txnID) ?loc"
    using assms(3,6) by (auto simp: coord_Abort_def located_def)
  obtain qs where qs: "mset qs = mset ?loc" "calls' = map (\<lambda>p. abort_call (fst p) (wi_Key (snd p)) txnID) qs"
    using mset_eq_map [of calls' "\<lambda>p. abort_call (fst p) (wi_Key (snd p)) txnID" ?loc] assms(7) unfolding res(3) by blast
  have set: "set qs = set ?loc" using qs(1) by (rule mset_eq_setD)
  have ok: "\<forall>p \<in> set qs. addr_ok (fst p) \<and> state w (fst p) \<noteq> None \<and> arg_ok (wi_Key (snd p))"
    using ready fst_located [of _ ?r ?ws] set by metis
  have st: "winv w2" "state w2 = fold spec_op (map (abort_op txnID) qs) (state w)"
    using exec_aborts [OF _ assms(1,2) ok] assms(8) unfolding qs(2) by blast+
  have d: "distinct (map (\<lambda>p. wi_Key (snd p)) qs)" by (rule distinct_located [OF qs(1) assms(4)])
  note cells = cells_of_ops [OF d, where f = "\<lambda>p. CAbort (wi_Key (snd p)) txnID" and M = "state w"]
  have "cell_of (state w2) (Locate ?r (wi_Key x)) (wi_Key x) =
      map_option (cell_cmd (CAbort (wi_Key x) txnID)) (cell_of (state w) (Locate ?r (wi_Key x)) (wi_Key x))"
    if "x \<in> set ?ws" for x
    using cells(1) [of "(Locate ?r (wi_Key x), x)"] that unfolding st(2) set by (simp add: located_def del: cell_cmd.simps)
  moreover have "cell_of (state w2) a k = cell_of (state w) a k"
    if "\<forall>x \<in> set ?ws. (Locate ?r (wi_Key x), wi_Key x) \<noteq> (a, k)" for a k
    using cells(2) [of a k] that unfolding st(2) set by (simp add: located_def)
  ultimately show ?thesis using res st(1) assms(3) by simp
qed

end

end
