(* ===== verification/Metrics.thy ===== *)
theory Metrics
  imports Sharddb_Prelude
begin

text \<open>
  The counters of \<^verbatim>\<open>internal/metrics/metrics.go\<close>: a \<^verbatim>\<open>sync.Map\<close> from names to cells that
  are changed atomically.  \<open>Add\<close> is not one atomic action: another goroutine may create the
  cell between its \<open>Load\<close> and its \<open>LoadOrStore\<close>.  The step relation interleaves any number
  of calls at the granularity of the atomic operations; the sequential functions are what a
  single call does, and the other components use them.
\<close>

section \<open>State and operations\<close>

record registry =
  reg :: "bytes \<rightharpoonup> nat"       \<comment> \<open>the map, from names to cells\<close>
  cells :: "nat \<Rightarrow> u64"        \<comment> \<open>the contents of the cells, as int64 modulo \<open>2 ^ 64\<close>\<close>
  fresh :: nat                 \<comment> \<open>the next cell \<open>new\<close> returns\<close>

definition empty_registry :: registry where
  "empty_registry = \<lparr>reg = Map.empty, cells = (\<lambda>_. 0), fresh = 0\<rparr>"

definition new_cell :: "registry \<Rightarrow> nat \<times> registry" where
  "new_cell m = (fresh m, m\<lparr>cells := (cells m)(fresh m := 0), fresh := Suc (fresh m)\<rparr>)"

definition LoadOrStore :: "bytes \<Rightarrow> nat \<Rightarrow> registry \<Rightarrow> nat \<times> registry" where
  "LoadOrStore name a m =
     (case reg m name of Some b \<Rightarrow> (b, m) | None \<Rightarrow> (a, m\<lparr>reg := (reg m)(name \<mapsto> a)\<rparr>))"

definition AddInt64 :: "nat \<Rightarrow> u64 \<Rightarrow> registry \<Rightarrow> registry" where
  "AddInt64 a delta m = m\<lparr>cells := (cells m)(a := cells m a + delta)\<rparr>"

definition metrics_Add :: "bytes \<Rightarrow> u64 \<Rightarrow> registry \<Rightarrow> registry" where
  "metrics_Add name delta m =
     (case reg m name of
        Some val \<Rightarrow> AddInt64 val delta m
      | None \<Rightarrow>
          (case new_cell m of (newVal, m1) \<Rightarrow>
             case LoadOrStore name newVal m1 of (val, m2) \<Rightarrow> AddInt64 val delta m2))"

definition metrics_Inc :: "bytes \<Rightarrow> registry \<Rightarrow> registry" where
  "metrics_Inc name = metrics_Add name 1"

definition metrics_Get :: "bytes \<Rightarrow> registry \<Rightarrow> u64" where
  "metrics_Get name m = (case reg m name of None \<Rightarrow> 0 | Some val \<Rightarrow> cells m val)"

text \<open>The snapshot that \<open>Handler\<close> encodes.\<close>

definition metrics_Handler :: "registry \<Rightarrow> bytes \<rightharpoonup> u64" where
  "metrics_Handler m = (\<lambda>name. map_option (cells m) (reg m name))"

section \<open>Concurrent calls\<close>

text \<open>Where a call of \<open>Add\<close> stands.\<close>

datatype call =
    Started bytes u64
  | Missed bytes u64
  | Allocated bytes u64 nat
  | Holding bytes u64 nat
  | Finished bytes u64

inductive add_step :: "registry \<times> call list \<Rightarrow> registry \<times> call list \<Rightarrow> bool" where
  load_hit: "i < length cs \<Longrightarrow> cs ! i = Started name d \<Longrightarrow> reg m name = Some a \<Longrightarrow>
    add_step (m, cs) (m, cs[i := Holding name d a])"
| load_miss: "i < length cs \<Longrightarrow> cs ! i = Started name d \<Longrightarrow> reg m name = None \<Longrightarrow>
    add_step (m, cs) (m, cs[i := Missed name d])"
| alloc: "i < length cs \<Longrightarrow> cs ! i = Missed name d \<Longrightarrow> new_cell m = (a, m') \<Longrightarrow>
    add_step (m, cs) (m', cs[i := Allocated name d a])"
| load_or_store: "i < length cs \<Longrightarrow> cs ! i = Allocated name d a \<Longrightarrow> LoadOrStore name a m = (b, m') \<Longrightarrow>
    add_step (m, cs) (m', cs[i := Holding name d b])"
| atomic_add: "i < length cs \<Longrightarrow> cs ! i = Holding name d a \<Longrightarrow>
    add_step (m, cs) (AddInt64 a d m, cs[i := Finished name d])"

text \<open>What the finished calls have added to a counter.\<close>

definition added :: "bytes \<Rightarrow> call list \<Rightarrow> u64" where
  "added name cs = (\<Sum>c \<leftarrow> cs. case c of Finished n d \<Rightarrow> if n = name then d else 0 | _ \<Rightarrow> 0)"

fun call_ok :: "registry \<Rightarrow> call \<Rightarrow> bool" where
  "call_ok m (Allocated name d a) \<longleftrightarrow> a < fresh m \<and> a \<notin> ran (reg m) \<and> cells m a = 0"
| "call_ok m (Holding name d a) \<longleftrightarrow> reg m name = Some a"
| "call_ok m _ \<longleftrightarrow> True"

fun own_cell :: "call \<Rightarrow> nat option" where
  "own_cell (Allocated name d a) = Some a"
| "own_cell _ = None"

text \<open>
  The invariant: names have distinct cells, a cell that a call has allocated and not yet
  published is zero and its own, and a call that holds a cell holds the one of its counter.
\<close>

definition metrics_inv :: "registry \<times> call list \<Rightarrow> bool" where
  "metrics_inv s \<longleftrightarrow>
     (case s of (m, cs) \<Rightarrow>
        inj_on (reg m) (dom (reg m)) \<and> (\<forall>a \<in> ran (reg m). a < fresh m) \<and>
        (\<forall>c \<in> set cs. call_ok m c) \<and>
        (\<forall>i < length cs. \<forall>j < length cs. \<forall>a. own_cell (cs ! i) = Some a \<longrightarrow> own_cell (cs ! j) = Some a \<longrightarrow> i = j))"

lemma added_append: "added name (xs @ ys) = added name xs + added name ys"
  by (simp add: added_def)

lemma added_Cons: "added name (c # cs) = added name [c] + added name cs"
  by (simp add: added_def)

lemma added_update:
  assumes "i < length cs"
  shows "added name (cs[i := c]) = added name cs + added name [c] - added name [cs ! i]"
proof -
  have upd: "added name (cs[i := x]) = added name (take i cs) + added name [x] + added name (drop (Suc i) cs)" for x
    using assms
    by (simp add: upd_conv_take_nth_drop added_append added_Cons [of name x "drop (Suc i) cs"] add.assoc)
  from upd [of "cs ! i"] upd [of c] show ?thesis
    by (simp add: algebra_simps)
qed

lemma added_same:
  assumes "i < length cs" and "\<forall>n d. cs ! i \<noteq> Finished n d" and "\<forall>n d. c \<noteq> Finished n d"
  shows "added name (cs[i := c]) = added name cs"
proof -
  have "added name [c] = 0" "added name [cs ! i] = 0"
    using assms(2,3) by (auto simp: added_def split: call.splits)
  then show ?thesis by (simp add: added_update [OF assms(1)])
qed

lemma own_cell_update:
  assumes "\<forall>i < length cs. \<forall>j < length cs. \<forall>a. own_cell (cs ! i) = Some a \<longrightarrow> own_cell (cs ! j) = Some a \<longrightarrow> i = j"
    and "own_cell c = None \<or> (\<exists>a. own_cell c = Some a \<and> (\<forall>x \<in> set cs. own_cell x \<noteq> Some a))"
  shows "\<forall>i < length (cs[k := c]). \<forall>j < length (cs[k := c]). \<forall>a.
    own_cell (cs[k := c] ! i) = Some a \<longrightarrow> own_cell (cs[k := c] ! j) = Some a \<longrightarrow> i = j"
  using assms
  by (cases "k < length cs") (auto simp: nth_list_update all_set_conv_all_nth split: if_splits)

lemma metrics_inv_intro:
  assumes "inj_on (reg m) (dom (reg m))" and "\<forall>a \<in> ran (reg m). a < fresh m"
    and "\<forall>c \<in> set cs. call_ok m c"
    and "\<forall>i < length cs. \<forall>j < length cs. \<forall>a. own_cell (cs ! i) = Some a \<longrightarrow> own_cell (cs ! j) = Some a \<longrightarrow> i = j"
  shows "metrics_inv (m, cs)"
  using assms by (simp add: metrics_inv_def)

lemma call_ok_own: "call_ok m c \<Longrightarrow> own_cell c = Some a \<Longrightarrow> a < fresh m \<and> a \<notin> ran (reg m)"
  by (cases c) auto

lemma set_update_cases: "x \<in> set (cs[i := c]) \<Longrightarrow> x = c \<or> x \<in> set cs"
  using set_update_subset_insert by fastforce

lemma add_step_inv:
  assumes "add_step s s'" and "metrics_inv s"
  shows "metrics_inv s'"
  using assms
proof (induction rule: add_step.induct)
  case (load_hit i cs name d m a)
  then show ?case
    by (intro metrics_inv_intro own_cell_update) (auto simp: metrics_inv_def dest!: set_update_cases)
next
  case (load_miss i cs name d m)
  then show ?case
    by (intro metrics_inv_intro own_cell_update) (auto simp: metrics_inv_def dest!: set_update_cases)
next
  case (alloc i cs name d m a m')
  then have m': "a = fresh m" "m' = m\<lparr>cells := (cells m)(a := 0), fresh := Suc a\<rparr>"
    by (auto simp: new_cell_def)
  have ok: "call_ok m' c" if "c \<in> set cs" for c
    using alloc that m' by (cases c) (auto simp: metrics_inv_def)
  have "\<forall>x \<in> set cs. own_cell x \<noteq> Some a"
    using alloc m' call_ok_own by (fastforce simp: metrics_inv_def)
  then show ?case
    using alloc m' ok
    by (intro metrics_inv_intro own_cell_update)
       (auto simp: metrics_inv_def less_Suc_eq dest!: set_update_cases)
next
  case (load_or_store i cs name d a m b m')
  note inv = load_or_store.prems [unfolded metrics_inv_def, simplified]
  have own: "own_cell (cs ! j) \<noteq> Some a" if "j < length cs" "j \<noteq> i" for j
    using inv load_or_store.hyps that by (metis own_cell.simps(1))
  show ?case
  proof (cases "reg m name")
    case None
    then have m': "b = a" "m' = m\<lparr>reg := (reg m)(name \<mapsto> a)\<rparr>"
      using load_or_store.hyps by (auto simp: LoadOrStore_def)
    have "call_ok m (Allocated name d a)"
      using inv load_or_store.hyps by (metis nth_mem)
    then have a: "a < fresh m" "a \<notin> ran (reg m)" by auto
    have "call_ok m' (cs ! j)" if "j < length cs" "j \<noteq> i" for j
    proof -
      have "call_ok m (cs ! j)" using inv that by simp
      then show ?thesis using own [OF that] None by (cases "cs ! j") (auto simp: m')
    qed
    then have ok: "\<forall>c \<in> set (cs[i := Holding name d a]). call_ok m' c"
      using load_or_store.hyps(1) by (auto simp: all_set_conv_all_nth nth_list_update m')
    have "inj_on (reg m') (dom (reg m'))"
      using inv a(2) by (auto simp: m' inj_on_def ran_def)
    moreover have "\<forall>a \<in> ran (reg m'). a < fresh m'"
      using inv a None by (simp add: m')
    ultimately show ?thesis
      using inv ok by (intro metrics_inv_intro own_cell_update) (simp_all add: m'(1))
  next
    case (Some x)
    then have "m' = m" "b = x" using load_or_store.hyps by (auto simp: LoadOrStore_def)
    with Some inv show ?thesis
      by (intro metrics_inv_intro own_cell_update) (auto dest!: set_update_cases)
  qed
next
  case (atomic_add i cs name d a m)
  note inv = atomic_add.prems [unfolded metrics_inv_def, simplified]
  have "a \<in> ran (reg m)"
    using inv atomic_add.hyps by (metis call_ok.simps(2) nth_mem ranI)
  then have "call_ok (AddInt64 a d m) c" if "c \<in> set cs" for c
    using inv that by (cases c) (auto simp: AddInt64_def)
  with inv show ?case
    by (intro metrics_inv_intro own_cell_update) (auto simp: AddInt64_def dest!: set_update_cases)
qed

lemma add_step_count:
  assumes "add_step s s'" and "metrics_inv s"
  shows "metrics_Get name (fst s') - added name (snd s') = metrics_Get name (fst s) - added name (snd s)"
  using assms
proof (induction rule: add_step.induct)
  case (alloc i cs nm d m a m')
  have "metrics_Get name m' = metrics_Get name m"
    using alloc by (auto simp: new_cell_def metrics_Get_def metrics_inv_def ran_def split: option.split)
  then show ?case using alloc by (simp add: added_same)
next
  case (load_or_store i cs nm d a m b m')
  then have "call_ok m (Allocated nm d a)" by (fastforce simp: metrics_inv_def dest: nth_mem)
  then have "metrics_Get name m' = metrics_Get name m"
    using load_or_store by (auto simp: LoadOrStore_def metrics_Get_def split: option.splits if_splits)
  then show ?case using load_or_store by (simp add: added_same)
next
  case (atomic_add i cs nm d a m)
  then have a: "reg m nm = Some a" and inj: "inj_on (reg m) (dom (reg m))"
    by (fastforce simp: metrics_inv_def dest: nth_mem)+
  have "metrics_Get name (AddInt64 a d m) = metrics_Get name m + (if nm = name then d else 0)"
    using a inj by (auto simp: AddInt64_def metrics_Get_def inj_on_def dom_def split: option.split)
  moreover have "added name (cs[i := Finished nm d]) = added name cs + (if nm = name then d else 0)"
    using atomic_add.hyps by (simp add: added_update) (simp add: added_def)
  ultimately show ?case by simp
qed (simp_all add: added_same)

section \<open>Properties\<close>

text \<open>
  (C28) No lost update: from any state of the counters in which the calls of \<open>Add\<close> have just
  started, however their atomic steps interleave, each counter is what it was plus exactly
  the deltas of the calls that have finished, modulo \<open>2 ^ 64\<close>.
\<close>

theorem Add_no_lost_update:
  assumes "add_step\<^sup>*\<^sup>* (m, map (\<lambda>(n, d). Started n d) calls) (m', cs)"
    and "inj_on (reg m) (dom (reg m))" and "\<forall>a \<in> ran (reg m). a < fresh m"
  shows "metrics_Get name m' = metrics_Get name m + added name cs"
proof -
  let ?s = "(m, map (\<lambda>(n, d). Started n d) calls)"
  have "metrics_inv ?s"
    using assms(2,3) by (intro metrics_inv_intro) (auto split: prod.splits)
  with assms(1) have "metrics_inv (m', cs) \<and>
      metrics_Get name (fst (m', cs)) - added name (snd (m', cs)) = metrics_Get name (fst ?s) - added name (snd ?s)"
  proof (induction rule: rtranclp_induct)
    case base
    then show ?case by simp
  next
    case (step y z)
    then show ?case using add_step_inv add_step_count [of y z name] by simp
  qed
  moreover have "added name (snd ?s) = 0"
    by (induction calls) (auto simp: added_def)
  ultimately show ?thesis by (simp add: algebra_simps)
qed

theorem Add_no_lost_update_witness:
  "\<exists>m' cs. add_step\<^sup>*\<^sup>* (empty_registry, [Started [1] 5, Started [1] 7]) (m', cs) \<and>
     cs = [Missed [1] 5, Finished [1] 7] \<and> metrics_Get [1] m' = 7"
proof -
  let ?m1 = "\<lparr>reg = Map.empty, cells = (\<lambda>_. 0)(0 := 0), fresh = 1\<rparr>"
  let ?m2 = "\<lparr>reg = [[1] \<mapsto> 0], cells = (\<lambda>_. 0)(0 := 0), fresh = 1\<rparr>"
  have 1: "add_step (empty_registry, [Started [1] 5, Started [1] 7]) (empty_registry, [Missed [1] 5, Started [1] 7])"
    using load_miss [of 0 "[Started [1] 5, Started [1] 7]" "[1]" 5 empty_registry] by (simp add: empty_registry_def)
  have 2: "add_step (empty_registry, [Missed [1] 5, Started [1] 7]) (empty_registry, [Missed [1] 5, Missed [1] 7])"
    using load_miss [of 1 "[Missed [1] 5, Started [1] 7]" "[1]" 7 empty_registry] by (simp add: empty_registry_def)
  have 3: "add_step (empty_registry, [Missed [1] 5, Missed [1] 7]) (?m1, [Missed [1] 5, Allocated [1] 7 0])"
    using alloc [of 1 "[Missed [1] 5, Missed [1] 7]" "[1]" 7 empty_registry 0 ?m1]
    by (simp add: empty_registry_def new_cell_def)
  have 4: "add_step (?m1, [Missed [1] 5, Allocated [1] 7 0]) (?m2, [Missed [1] 5, Holding [1] 7 0])"
    using load_or_store [of 1 "[Missed [1] 5, Allocated [1] 7 0]" "[1]" 7 0 ?m1 0 ?m2] by (simp add: LoadOrStore_def)
  have 5: "add_step (?m2, [Missed [1] 5, Holding [1] 7 0]) (AddInt64 0 7 ?m2, [Missed [1] 5, Finished [1] 7])"
    using atomic_add [of 1 "[Missed [1] 5, Holding [1] 7 0]" "[1]" 7 0 ?m2] by simp
  have r: "add_step\<^sup>*\<^sup>* (empty_registry, [Started [1] 5, Started [1] 7]) (AddInt64 0 7 ?m2, [Missed [1] 5, Finished [1] 7])"
    using 1 2 3 4 5 by (meson converse_rtranclp_into_rtranclp rtranclp.rtrancl_refl)
  then have "metrics_Get [1] (AddInt64 0 7 ?m2) = metrics_Get [1] empty_registry + added [1] [Missed [1] 5, Finished [1] 7]"
    by (intro Add_no_lost_update [where calls = "[([1], 5), ([1], 7)]"]) (simp_all add: empty_registry_def)
  then have "metrics_Get [1] (AddInt64 0 7 ?m2) = 7"
    by (simp add: metrics_Get_def empty_registry_def added_def)
  with r show ?thesis by blast
qed

end
