(* ===== verification/Shard_Node.thy ===== *)
theory Shard_Node
  imports Sql_Exec Snapshot Metrics Wire_Json
begin

text \<open>
  The shard server of \<^verbatim>\<open>cmd/shard-node/main.go\<close>: the state machine \<open>ApplierAdapter\<close> that
  applies committed log entries to the storage engine, and the HTTP handlers that turn
  requests into proposals.  A handler's result is what it proposes to the log and what it
  answers; every answer here has status 200 unless an error is stated.  The JSON body
  of a one-shot request is decoded by \<open>unmarshal_Req\<close>, whose error the code ignores.
\<close>

section \<open>The state machine\<close>

record 't ShardNode =
  sn_engine :: "'t MemoryStore"
  sn_metrics :: registry

text \<open>\<open>Apply\<close> returns the new state and the store error it logs, if any.\<close>

definition shard_Apply ::
  "'t btree_ops \<Rightarrow> ('x, 'pe) sqlparser \<Rightarrow> 't ShardNode \<Rightarrow> bytes \<Rightarrow>
   't ShardNode \<times> store_error option" where
  "shard_Apply B P n s =
     (if HasPrefix s (lit ''PREPARE '')
      then (case Split s 32 of
              [_, key, val, txn] \<Rightarrow>
                (case Prepare (sn_engine n) key (Some val) txn of (e, err) \<Rightarrow> (n\<lparr>sn_engine := e\<rparr>, err))
            | _ \<Rightarrow> (n, None))
      else if HasPrefix s (lit ''COMMIT '')
      then (case Split s 32 of
              [_, key, txn, ts] \<Rightarrow>
                (case Commit B (sn_engine n) key txn (Sscan_d ts) of (e, err) \<Rightarrow> (n\<lparr>sn_engine := e\<rparr>, err))
            | _ \<Rightarrow> (n, None))
      else if HasPrefix s (lit ''ABORT '')
      then (case Split s 32 of
              [_, key, txn] \<Rightarrow>
                (case Abort (sn_engine n) key txn of (e, err) \<Rightarrow> (n\<lparr>sn_engine := e\<rparr>, err))
            | _ \<Rightarrow> (n, None))
      else if HasPrefix s (lit ''ONESHOT '')
      then let req = unmarshal_Req (TrimPrefix s (lit ''ONESHOT ''));
               storageOps = map (\<lambda>(k, v). \<lparr>op_Key = k, op_Value = Some v\<rparr>) (req_Ops req)
           in (case OnePhaseCommit B (sn_engine n) storageOps (req_TxnID req) (req_Ts req) of
                 (e, err) \<Rightarrow> (n\<lparr>sn_engine := e\<rparr>, err))
      else if HasPrefix s (lit ''SQL:'')
      then (case ParseToPlan P (drop 4 s) of
              Inr plan \<Rightarrow>
                (case Execute (memory_engine B) (Some plan) (sn_engine n) 100 of
                   (e, _) \<Rightarrow>
                     (n\<lparr>sn_engine := e, sn_metrics := metrics_Inc (lit ''ops_insert'') (sn_metrics n)\<rparr>, None))
            | Inl _ \<Rightarrow> (n, None))
      else (n, None))"

text \<open>A replica applies the entries of its log in order.\<close>

definition shard_run ::
  "'t btree_ops \<Rightarrow> ('x, 'pe) sqlparser \<Rightarrow> 't ShardNode \<Rightarrow> bytes list \<Rightarrow> 't ShardNode" where
  "shard_run B P n log = foldl (\<lambda>n s. fst (shard_Apply B P n s)) n log"

definition shard_GetSnapshot :: "'t btree_ops \<Rightarrow> 't ShardNode \<Rightarrow> json_doc" where
  "shard_GetSnapshot B n = GetSnapshotData B (sn_engine n)"

definition shard_Restore ::
  "'t btree_ops \<Rightarrow> ((bytes \<times> slice) list \<Rightarrow> (bytes \<times> slice) list) \<Rightarrow> 't ShardNode \<Rightarrow> json_doc \<Rightarrow>
   't ShardNode \<times> json_error option" where
  "shard_Restore B range_order n data =
     (case RestoreSnapshot B range_order (sn_engine n) data of (e, err) \<Rightarrow> (n\<lparr>sn_engine := e\<rparr>, err))"

section \<open>The HTTP handlers\<close>

text \<open>The messages the transaction handlers propose.\<close>

definition prepare_msg :: "bytes \<Rightarrow> bytes \<Rightarrow> bytes \<Rightarrow> bytes" where
  "prepare_msg key val txn = lit ''PREPARE '' @ key @ lit '' '' @ val @ lit '' '' @ txn"

definition commit_msg :: "bytes \<Rightarrow> bytes \<Rightarrow> bytes \<Rightarrow> bytes" where
  "commit_msg key txn ts = lit ''COMMIT '' @ key @ lit '' '' @ txn @ lit '' '' @ ts"

definition abort_msg :: "bytes \<Rightarrow> bytes \<Rightarrow> bytes" where
  "abort_msg key txn = lit ''ABORT '' @ key @ lit '' '' @ txn"

definition oneshot_msg :: "bytes \<Rightarrow> bytes" where
  "oneshot_msg data = lit ''ONESHOT '' @ data"

datatype shard_request =
    ReqExecute bytes bytes            \<comment> \<open>query parameter sql, body\<close>
  | ReqPrepare bytes bytes bytes      \<comment> \<open>key, val, txn\<close>
  | ReqCommit bytes bytes bytes       \<comment> \<open>key, txn, ts\<close>
  | ReqAbort bytes bytes              \<comment> \<open>key, txn\<close>
  | ReqOneShot bytes                  \<comment> \<open>body\<close>

datatype shard_answer = RowsJSON "Row list option" | OKText | EmptyBody

text \<open>
  A handler gives the state of the server, the entry it proposes, the status and the answer.
  \<open>Propose\<close> returns before the entry is committed and its error is ignored.
\<close>

definition shard_handle ::
  "'t btree_ops \<Rightarrow> ('x, 'pe) sqlparser \<Rightarrow> 't ShardNode \<Rightarrow> shard_request \<Rightarrow> 't ShardNode \<times> bytes \<times> nat \<times> shard_answer" where
  "shard_handle B P n r =
     (case r of
        ReqExecute q body \<Rightarrow>
          let sqlStr = (if q = [] then body else q);
              proposal = lit ''SQL:'' @ sqlStr
          in if HasPrefix (ToUpper sqlStr) (lit ''SELECT'')
             then let plan = (case ParseToPlan P sqlStr of Inl _ \<Rightarrow> None | Inr p \<Rightarrow> Some p)
                  in (case Execute (memory_engine B) plan (sn_engine n) MaxUint64 of
                        (e, res) \<Rightarrow>
                          (n\<lparr>sn_engine := e, sn_metrics := metrics_Inc (lit ''ops_select'') (sn_metrics n)\<rparr>,
                           proposal, 200, RowsJSON (case res of Inl _ \<Rightarrow> None | Inr rows \<Rightarrow> rows)))
             else (n, proposal, 200, OKText)
      | ReqPrepare key val txn \<Rightarrow> (n, prepare_msg key val txn, 200, EmptyBody)
      | ReqCommit key txn ts \<Rightarrow> (n, commit_msg key txn ts, 200, EmptyBody)
      | ReqAbort key txn \<Rightarrow> (n, abort_msg key txn, 200, EmptyBody)
      | ReqOneShot data \<Rightarrow> (n, oneshot_msg data, 200, EmptyBody))"

text \<open>
  The migration endpoints.  An empty query parameter is a \<open>nil\<close> bound.  The exported items
  come in the order of \<^verbatim>\<open>range\<close> over the map; \<open>order\<close> and \<open>range_order\<close> are those orders.
\<close>

definition shard_export ::
  "'t btree_ops \<Rightarrow> ((bytes \<rightharpoonup> slice) \<Rightarrow> (bytes \<times> slice) list) \<Rightarrow> 't ShardNode \<Rightarrow> bytes \<Rightarrow> bytes \<Rightarrow>
   (bytes \<times> slice) list" where
  "shard_export B order n start end =
     (let startB = start;
          endB = (if end = [] then None else Some end)
      in order (fst (ScanRange B (sn_engine n) startB endB)))"

definition shard_ingest ::
  "'t btree_ops \<Rightarrow> ((bytes \<times> slice) list \<Rightarrow> (bytes \<times> slice) list) \<Rightarrow> 't ShardNode \<Rightarrow>
   (bytes \<times> slice) list option \<Rightarrow> 't ShardNode \<times> nat \<times> nat" where
  "shard_ingest B range_order n body =
     (case body of
        None \<Rightarrow> (n, 400, 0)
      | Some items \<Rightarrow>
          let data = fold (\<lambda>(k, v) m. AList.update k v m) items []
          in (case Ingest B (sn_engine n) (range_order data) of
                (e, Some _) \<Rightarrow> (n\<lparr>sn_engine := e\<rparr>, 500, 0)
              | (e, None) \<Rightarrow> (n\<lparr>sn_engine := e\<rparr>, 200, length data)))"

section \<open>The cluster flag\<close>

fun shard_peers_loop :: "bytes list \<Rightarrow> (u64 \<rightharpoonup> bytes) \<Rightarrow> u64 list \<Rightarrow> panic + (u64 \<rightharpoonup> bytes) \<times> u64 list" where
  "shard_peers_loop [] peersMap peers = Inr (peersMap, peers)"
| "shard_peers_loop (part # parts) peersMap peers =
     (case Split part 61 of
        pid # url # _ \<Rightarrow>
          shard_peers_loop parts (peersMap(Sscan_d pid \<mapsto> url)) (peers @ [Sscan_d pid])
      | _ \<Rightarrow> Inl IndexOutOfRange)"

definition shard_peers :: "bytes \<Rightarrow> panic + (u64 \<rightharpoonup> bytes) \<times> u64 list" where
  "shard_peers cluster =
     (if cluster \<noteq> [] then shard_peers_loop (Split cluster 44) Map.empty [] else Inr (Map.empty, []))"

section \<open>Messages\<close>

lemma Split_words:
  "32 \<notin> set w \<Longrightarrow> Split (w @ lit '' '' @ s) 32 = w # Split s 32"
  by (simp add: lit_def Split_append)

lemma Split_keyword:
  "Split (lit ''PREPARE '' @ s) 32 = lit ''PREPARE'' # Split s 32"
  "Split (lit ''COMMIT '' @ s) 32 = lit ''COMMIT'' # Split s 32"
  "Split (lit ''ABORT '' @ s) 32 = lit ''ABORT'' # Split s 32"
  by (simp_all add: lit_def)

lemma keyword_tests:
  "\<not> HasPrefix (lit ''COMMIT '' @ s) (lit ''PREPARE '')"
  "\<not> HasPrefix (lit ''ABORT '' @ s) (lit ''PREPARE '')"
  "\<not> HasPrefix (lit ''ABORT '' @ s) (lit ''COMMIT '')"
  "\<not> HasPrefix (lit ''ONESHOT '' @ s) (lit ''PREPARE '')"
  "\<not> HasPrefix (lit ''ONESHOT '' @ s) (lit ''COMMIT '')"
  "\<not> HasPrefix (lit ''ONESHOT '' @ s) (lit ''ABORT '')"
  "\<not> HasPrefix (lit ''SQL:'' @ s) (lit ''PREPARE '')"
  "\<not> HasPrefix (lit ''SQL:'' @ s) (lit ''COMMIT '')"
  "\<not> HasPrefix (lit ''SQL:'' @ s) (lit ''ABORT '')"
  "\<not> HasPrefix (lit ''SQL:'' @ s) (lit ''ONESHOT '')"
  by (simp_all add: HasPrefix_def lit_def)

lemma apply_prepare:
  assumes "32 \<notin> set key" and "32 \<notin> set val" and "32 \<notin> set txn"
  shows "shard_Apply B P n (prepare_msg key val txn) =
    (case Prepare (sn_engine n) key (Some val) txn of (e, err) \<Rightarrow> (n\<lparr>sn_engine := e\<rparr>, err))"
  using assms
  by (simp add: shard_Apply_def prepare_msg_def Split_keyword Split_words Split_no_sep)

lemma apply_commit:
  assumes "32 \<notin> set key" and "32 \<notin> set txn"
  shows "shard_Apply B P n (commit_msg key txn (Sprint_d (unat ts))) =
    (case Commit B (sn_engine n) key txn ts of (e, err) \<Rightarrow> (n\<lparr>sn_engine := e\<rparr>, err))"
  using assms
  by (simp add: shard_Apply_def commit_msg_def keyword_tests Split_keyword Split_words Split_no_sep
      Sprint_d_no_space)

lemma apply_abort:
  assumes "32 \<notin> set key" and "32 \<notin> set txn"
  shows "shard_Apply B P n (abort_msg key txn) =
    (case Abort (sn_engine n) key txn of (e, err) \<Rightarrow> (n\<lparr>sn_engine := e\<rparr>, err))"
  using assms
  by (simp add: shard_Apply_def abort_msg_def keyword_tests Split_keyword Split_words Split_no_sep)

lemma apply_oneshot:
  "shard_Apply B P n (oneshot_msg data) =
    (case OnePhaseCommit B (sn_engine n) (map (\<lambda>(k, v). \<lparr>op_Key = k, op_Value = Some v\<rparr>) (req_Ops (unmarshal_Req data)))
       (req_TxnID (unmarshal_Req data)) (req_Ts (unmarshal_Req data)) of (e, err) \<Rightarrow> (n\<lparr>sn_engine := e\<rparr>, err))"
  by (simp add: shard_Apply_def oneshot_msg_def keyword_tests Let_def)

lemma apply_sql:
  "shard_Apply B P n (lit ''SQL:'' @ sql) =
    (case ParseToPlan P sql of
       Inr plan \<Rightarrow>
         (n\<lparr>sn_engine := fst (Execute (memory_engine B) (Some plan) (sn_engine n) 100),
            sn_metrics := metrics_Inc (lit ''ops_insert'') (sn_metrics n)\<rparr>, None)
     | Inl _ \<Rightarrow> (n, None))"
proof -
  have "drop 4 (lit ''SQL:'' @ sql) = sql" by (simp add: lit_def)
  then show ?thesis
    by (simp add: shard_Apply_def keyword_tests case_prod_beta split: sum.split)
qed

lemma Execute_inv:
  assumes "btree_api B tinv" and "store_inv B tinv s"
  shows "store_inv B tinv (fst (Execute (memory_engine B) plan s ts))"
proof -
  have ins: "store_inv B tinv (fst (executeInsert (memory_engine B) tab vs s ts))" for tab vs
  proof (cases vs)
    case Nil
    then show ?thesis using assms(2) by (simp add: executeInsert_def)
  next
    case (Cons pk ws)
    note eng = btree_api.memory_engine_laws [OF assms(1)]
    obtain s' r where r: "executeInsert (memory_engine B) tab (pk # ws) s ts = (s', r)" by fastforce
    then show ?thesis
      using mvcc_engine.executeInsert_ok [OF eng assms(2) _ r]
        mvcc_engine.executeInsert_refused [OF eng assms(2) _ r] Cons by auto
  qed
  then show ?thesis
    using assms(2) by (auto simp: Execute_def split: option.split PlanNode.split)
qed

lemma shard_Apply_inv:
  assumes "btree_api B tinv" and "store_inv B tinv (sn_engine n)"
  shows "store_inv B tinv (sn_engine (fst (shard_Apply B P n s)))"
  using btree_api.store_inv_Prepare [OF assms] btree_api.store_inv_Commit [OF assms]
    btree_api.store_inv_Abort [OF assms] btree_api.store_inv_OnePhaseCommit [OF assms]
    Execute_inv [OF assms] assms(2)
  by (auto simp: shard_Apply_def Let_def case_prod_beta split: list.split sum.split)

section \<open>Properties\<close>

text \<open>
  Transaction messages: for keys, values and transaction names without blanks, applying
  the entry that the prepare, commit or abort handler proposes performs exactly that store
  operation with exactly those arguments, the commit timestamp included.
\<close>

theorem txn_messages_apply:
  assumes "32 \<notin> set key" and "32 \<notin> set val" and "32 \<notin> set txn"
  shows "shard_Apply B P n (fst (snd (shard_handle B P n (ReqPrepare key val txn)))) =
      (case Prepare (sn_engine n) key (Some val) txn of (e, err) \<Rightarrow> (n\<lparr>sn_engine := e\<rparr>, err)) \<and>
    shard_Apply B P n (fst (snd (shard_handle B P n (ReqCommit key txn (Sprint_d (unat ts)))))) =
      (case Commit B (sn_engine n) key txn ts of (e, err) \<Rightarrow> (n\<lparr>sn_engine := e\<rparr>, err)) \<and>
    shard_Apply B P n (fst (snd (shard_handle B P n (ReqAbort key txn)))) =
      (case Abort (sn_engine n) key txn of (e, err) \<Rightarrow> (n\<lparr>sn_engine := e\<rparr>, err))"
  using assms by (simp add: shard_handle_def apply_prepare apply_commit apply_abort)

text \<open>A fresh server over the sorted-list tree, for the witnesses.\<close>

definition sample_node :: "item list ShardNode" where
  "sample_node = \<lparr>sn_engine = sample_store, sn_metrics = empty_registry\<rparr>"

theorem txn_messages_apply_witness:
  "snd (shard_Apply sl_btree (fixed_parser (OtherStatement ()))
      (fst (shard_Apply sl_btree (fixed_parser (OtherStatement ())) sample_node
        (fst (snd (shard_handle sl_btree (fixed_parser (OtherStatement ())) sample_node
          (ReqPrepare (lit ''k'') (lit ''v'') (lit ''t'')))))))
      (fst (snd (shard_handle sl_btree (fixed_parser (OtherStatement ())) sample_node
        (ReqCommit (lit ''k'') (lit ''t'') (Sprint_d (unat (30 :: u64)))))))) = None"
proof -
  let ?P = "fixed_parser (OtherStatement ())"
  have b: "32 \<notin> set (lit ''k'')" "32 \<notin> set (lit ''v'')" "32 \<notin> set (lit ''t'')"
    by (simp_all add: lit_def)
  let ?n = "sample_node\<lparr>sn_engine := fst (Prepare sample_store (lit ''k'') (Some (lit ''v'')) (lit ''t''))\<rparr>"
  have 1: "fst (shard_Apply sl_btree ?P sample_node
      (fst (snd (shard_handle sl_btree ?P sample_node (ReqPrepare (lit ''k'') (lit ''v'') (lit ''t'')))))) = ?n"
    using txn_messages_apply [OF b, of sl_btree ?P sample_node]
    by (simp add: case_prod_beta sample_node_def)
  have 2: "snd (Commit sl_btree (fst (Prepare sample_store (lit ''k'') (Some (lit ''v'')) (lit ''t'')))
      (lit ''k'') (lit ''t'') 30) = None"
    by code_simp
  have "shard_handle sl_btree ?P sample_node (ReqCommit (lit ''k'') (lit ''t'') x) =
      (sample_node, fst (snd (shard_handle sl_btree ?P ?n (ReqCommit (lit ''k'') (lit ''t'') x))), 200, EmptyBody)" for x
    by (simp add: shard_handle_def)
  then show ?thesis
    using txn_messages_apply [OF b, of sl_btree ?P ?n 30] 2
    unfolding 1 by (simp add: case_prod_beta)
qed

text \<open>
  A blank loses the write: when the key, the value or the transaction name contains a
  blank, the entry that the prepare handler proposes is ignored when it is applied (no intent,
  no logged error), while the handler has answered 200.
\<close>

theorem prepare_with_blank_dropped:
  assumes "32 \<in> set (key @ val @ txn)"
  shows "shard_Apply B P n (fst (snd (shard_handle B P n (ReqPrepare key val txn)))) = (n, None) \<and>
    fst (snd (snd (shard_handle B P n (ReqPrepare key val txn)))) = 200"
proof -
  let ?s = "prepare_msg key val txn"
  have "count_list ?s 32 = 3 + count_list (key @ val @ txn) 32"
    by (simp add: prepare_msg_def lit_def)
  moreover have "count_list (key @ val @ txn) 32 \<noteq> 0"
    using assms by (simp add: count_list_0_iff)
  ultimately have "length (Split ?s 32) \<noteq> 4" by (simp add: length_Split)
  then have "shard_Apply B P n ?s = (n, None)"
    by (auto simp: shard_Apply_def prepare_msg_def split: list.split)
  then show ?thesis by (simp add: shard_handle_def)
qed

theorem prepare_with_blank_dropped_witness:
  "shard_Apply sl_btree (fixed_parser (OtherStatement ())) sample_node
     (prepare_msg (lit ''t:a'') (lit ''hello world'') (lit ''txn-1'')) = (sample_node, None)"
proof -
  have "32 \<in> set (lit ''t:a'' @ lit ''hello world'' @ lit ''txn-1'')" by code_simp
  from prepare_with_blank_dropped [OF this, of sl_btree "fixed_parser (OtherStatement ())" sample_node]
  show ?thesis by (simp add: shard_handle_def)
qed

text \<open>
  The state machine is safe on any log: whatever byte strings a replica applies, well-formed
  or not, its store keeps the invariant.
\<close>

theorem shard_log_inv:
  assumes "btree_api B tinv" and "store_inv B tinv (sn_engine n)"
  shows "store_inv B tinv (sn_engine (shard_run B P n log))"
  using assms(2)
  by (induction log arbitrary: n) (auto simp: shard_run_def intro: shard_Apply_inv [OF assms(1)])

theorem shard_log_inv_witness:
  "store_inv sl_btree sl_inv (sn_engine (shard_run sl_btree (fixed_parser (OtherStatement ())) sample_node
     [lit ''garbage'', prepare_msg (lit ''a'') (lit ''b'') (lit ''c''), lit ''COMMIT'', lit ''SQL:x'']))"
proof -
  have "store_inv sl_btree sl_inv (sn_engine sample_node)" by code_simp
  then show ?thesis by (rule shard_log_inv [OF sl.btree_api_axioms])
qed

text \<open>A version below an existing one does not change what is newest above it.\<close>

lemma newest_add_below:
  assumes "t < ts" and "ts \<le> r" and "vs ts \<noteq> None"
  shows "newest (vs(t \<mapsto> v)) r = newest vs r"
proof -
  obtain w where "newest vs r = Some w"
    using assms(2,3) newest_eq_None_iff [of vs r] by auto
  moreover from this obtain t0 where t0: "t0 \<le> r" "vs t0 = Some w"
      and above: "\<forall>ts'. t0 < ts' \<longrightarrow> ts' \<le> r \<longrightarrow> vs ts' = None"
    by (auto simp: newest_eq_Some_iff)
  have "ts \<le> t0" using above assms(2,3) by (meson not_le)
  with assms(1) have "t < t0" by simp
  then have "newest (vs(t \<mapsto> v)) r = Some w"
    unfolding newest_eq_Some_iff using t0 above by (intro exI [of _ t0]) auto
  ultimately show ?thesis by simp
qed

text \<open>
  An auto-committed \<open>INSERT\<close> does not replace what a transaction wrote: replicated
  inserts commit at the fixed timestamp 100, so on a key that has a version after 100 the
  insert stores its row as an old version, and point lookups at the newest timestamp return
  what they returned before.
\<close>

theorem autocommit_insert_hidden:
  assumes "btree_api B tinv" and "store_inv B tinv (sn_engine n)"
    and "intents (view B (sn_engine n)) (userKey tab pk) = None"
    and "readable (view B (sn_engine n)) (userKey tab pk)"
    and "100 < ts" and "versions (view B (sn_engine n)) (userKey tab pk) ts \<noteq> None"
    and "ParseToPlan P sql = Inr (InsertNode tab cols (pk # vs))"
    and "shard_Apply B P n (lit ''SQL:'' @ sql) = (n', err)"
  shows "executePointGet (memory_engine B) tab pk (sn_engine n') MaxUint64 =
      executePointGet (memory_engine B) tab pk (sn_engine n) MaxUint64 \<and>
    versions (view B (sn_engine n')) (userKey tab pk) 100 = Some (Some (Join (pk # vs) (lit '','')))"
proof -
  let ?k = "userKey tab pk" and ?m = "view B (sn_engine n)" and ?v = "Some (Join (pk # vs) (lit '',''))"
  note eng = btree_api.memory_engine_laws [OF assms(1)]
  obtain s' r where ins: "executeInsert (memory_engine B) tab (pk # vs) (sn_engine n) 100 = (s', r)" by fastforce
  have n': "sn_engine n' = s'"
    using assms(7,8) ins by (auto simp: apply_sql Execute_def)
  have "available ?m ?k (auto_txn 100)" using assms(3) by (simp add: available_def)
  then have s': "store_inv B tinv s'" "view B s' = spec_release ?k (spec_add_version ?k 100 ?v ?m)"
    using mvcc_engine.executeInsert_ok [OF eng assms(2) _ ins] by auto
  have ver: "versions (view B s') ?k = (versions ?m ?k)(100 \<mapsto> ?v)"
    by (simp add: s'(2) spec_release_def spec_add_version_def del: view_sel)
  have free: "intents (view B s') ?k = None" and rd: "readable (view B s') ?k"
    using assms(4) mvcc_engine.readable_add [OF eng]
    by (simp_all add: s'(2) spec_release_def del: view_sel)
  have "newest (versions (view B s') ?k) MaxUint64 = newest (versions ?m ?k) MaxUint64"
    unfolding ver using assms(5,6) by (intro newest_add_below [of 100 ts]) auto
  then show ?thesis
    using mvcc_engine.executePointGet_newest [OF eng s'(1) free rd]
      mvcc_engine.executePointGet_newest [OF eng assms(2,3,4)] ver n'
    by (simp del: view_sel Join.simps)
qed

text \<open>The parser's result for an \<open>INSERT\<close> of one row of literals.\<close>

definition insert_row :: "bytes list \<Rightarrow> unit Statement" where
  "insert_row vs = InsertStmt \<lparr>ins_Table = (), ins_Columns = [], ins_Rows = Values [map SQLVal vs]\<rparr>"

lemma ParseToPlan_insert_row:
  "ParseToPlan (fixed_parser (insert_row vs)) sql = Inr (InsertNode (lit ''t'') [] vs)"
  by (simp add: ParseToPlan_def fixed_parser_def insert_row_def buildInsertPlan_def comp_def)

theorem autocommit_insert_hidden_witness:
  "\<exists>n n' err. shard_Apply sl_btree (fixed_parser (insert_row [lit ''a'', lit ''b''])) n (lit ''SQL:'' @ []) = (n', err) \<and>
     executePointGet (memory_engine sl_btree) (lit ''t'') (lit ''a'') (sn_engine n') MaxUint64 =
       Inr (Some [[lit ''a'', lit ''x'']])"
proof -
  define s where "s = write_version sl_btree (lit ''t:a'') (lit ''x'') 200 (NewMemoryStore sl_btree)"
  define n where "n = \<lparr>sn_engine = s, sn_metrics = empty_registry\<rparr>"
  have k: "userKey (lit ''t'') (lit ''a'') = lit ''t:a''" by code_simp
  have inv: "store_inv sl_btree sl_inv s" unfolding s_def by code_simp
  have tr: "ms_tree s = [mk_item (EncodeKey (lit ''t:a'') 200) (Some (lit ''x''))]"
    unfolding s_def by code_simp
  have free: "intents (view sl_btree s) (lit ''t:a'') = None" unfolding s_def by code_simp
  have rd: "readable (view sl_btree s) (lit ''t:a'')"
    by (auto simp: readable_def tree_map_def tr entry_def)
  have ver: "versions (view sl_btree s) (lit ''t:a'') 200 \<noteq> None" unfolding s_def by code_simp
  have old: "executePointGet (memory_engine sl_btree) (lit ''t'') (lit ''a'') s MaxUint64 =
      Inr (Some [[lit ''a'', lit ''x'']])"
    unfolding s_def by code_simp
  obtain n' err where r: "shard_Apply sl_btree (fixed_parser (insert_row [lit ''a'', lit ''b''])) n (lit ''SQL:'' @ []) = (n', err)"
    by fastforce
  have "executePointGet (memory_engine sl_btree) (lit ''t'') (lit ''a'') (sn_engine n') MaxUint64 =
      executePointGet (memory_engine sl_btree) (lit ''t'') (lit ''a'') (sn_engine n) MaxUint64"
    using autocommit_insert_hidden [OF sl.btree_api_axioms _ _ _ _ _ ParseToPlan_insert_row r, of 200]
      inv free rd ver by (simp add: n_def k del: view_sel)
  with r old show ?thesis by (auto simp: n_def)
qed

end
