(* ===== verification/Proxy.thy ===== *)
theory Proxy
  imports Coordinator Sql_Exec Metrics
begin

text \<open>
  The proxy of \<^verbatim>\<open>cmd/proxy/main.go\<close>: the \<open>/execute\<close> handler that runs transaction commands
  on the coordinator, buffers inserts of a transaction, and forwards other statements to one
  shard or to all.  Replies are values that say what the handler writes; the text of error
  messages is left out.  \<open>arrival\<close> is the order in which the shards of a broadcast answer.
\<close>

section \<open>The handler\<close>

record proxy =
  px_coord :: Coordinator
  px_metrics :: registry

record execute_request =
  q_sql :: bytes
  q_body :: bytes
  q_txn :: bytes
  q_routing_key :: bytes

datatype 'pe proxy_reply =
    TxnID bytes
  | CommitOK
  | RollbackOK
  | BufferedOK
  | MissingTxnParam            \<comment> \<open>400\<close>
  | CommitFailed txn_error     \<comment> \<open>500\<close>
  | ParseFailed "'pe plan_error"   \<comment> \<open>400\<close>
  | BufferFailed txn_error     \<comment> \<open>500\<close>
  | ForwardFailed route_error  \<comment> \<open>500\<close>
  | Forwarded bytes            \<comment> \<open>the shard's answer\<close>
  | AllRows "Row list option"  \<comment> \<open>the JSON of the rows, \<open>None\<close> for \<open>nil\<close>\<close>

fun reply_status :: "'pe proxy_reply \<Rightarrow> nat" where
  "reply_status MissingTxnParam = 400"
| "reply_status (ParseFailed _) = 400"
| "reply_status (CommitFailed _) = 500"
| "reply_status (BufferFailed _) = 500"
| "reply_status (ForwardFailed _) = 500"
| "reply_status _ = 200"

definition forward :: "'w http \<Rightarrow> Router \<Rightarrow> u64 \<Rightarrow> bytes \<Rightarrow> 'w \<Rightarrow> (route_error + bytes) \<times> 'w" where
  "forward http = ForwardRequest (\<lambda>url body. http (HttpPost url body))"

text \<open>The rows one shard contributes to a broadcast.\<close>

definition shard_rows :: "route_error + bytes \<Rightarrow> Row list" where
  "shard_rows res =
     (case res of
        Inl _ \<Rightarrow> []
      | Inr respStr \<Rightarrow>
          if TrimSpace respStr = lit ''OK'' then []
          else case unmarshal_rows respStr of None \<Rightarrow> [] | Some rows \<Rightarrow> rows)"

fun broadcast ::
  "'w http \<Rightarrow> Router \<Rightarrow> bytes \<Rightarrow> u64 list \<Rightarrow> 'w \<Rightarrow> Row list \<times> 'w" where
  "broadcast http r sql [] w = ([], w)"
| "broadcast http r sql (sid # sids) w =
     (case forward http r sid sql w of
        (res, w1) \<Rightarrow>
          (case broadcast http r sql sids w1 of
             (rows, w2) \<Rightarrow> (shard_rows res @ rows, w2)))"

definition proxy_route ::
  "('x, 'pe) sqlparser \<Rightarrow> 'w http \<Rightarrow> u64 list \<Rightarrow> bytes \<Rightarrow> bytes \<Rightarrow> Router \<Rightarrow> 'w \<Rightarrow>
   'pe proxy_reply \<times> 'w" where
  "proxy_route P http arrival sqlStr hint r w =
     (let pln0 = (case Analyze P sqlStr of
                    Inl _ \<Rightarrow> \<lparr>plan_Type = PlanBroadcast, plan_RoutingKey = []\<rparr>
                  | Inr p \<Rightarrow> p);
          pln = (if hint \<noteq> [] then \<lparr>plan_Type = PlanSingle, plan_RoutingKey = hint\<rparr> else pln0)
      in if plan_Type pln = PlanBroadcast
         then (case broadcast http r sqlStr arrival w of
                 (rows, w') \<Rightarrow> (AllRows (if rows = [] then None else Some rows), w'))
         else let key = (if plan_RoutingKey pln = [] then lit ''default'' else plan_RoutingKey pln)
              in (case forward http r (GetShardID r key) sqlStr w of
                    (Inl err, w') \<Rightarrow> (ForwardFailed err, w')
                  | (Inr resp, w') \<Rightarrow> (Forwarded resp, w')))"

text \<open>
  The whole handler: the proxy, the calls the coordinator has started, the network and the
  reply.  \<open>now\<close> is the clock.
\<close>

definition proxy_execute ::
  "('x, 'pe) sqlparser \<Rightarrow> 'w http \<Rightarrow> (groups \<Rightarrow> groups) \<Rightarrow> (groups \<Rightarrow> groups) \<Rightarrow>
   u64 list \<Rightarrow> u64 \<Rightarrow> execute_request \<Rightarrow> proxy \<Rightarrow> 'w \<Rightarrow>
   proxy \<times> http_call list \<times> 'w \<times> 'pe proxy_reply" where
  "proxy_execute P http ord1 ord2 arrival now q px0 w =
     (let px = px0\<lparr>px_metrics := metrics_Inc (lit ''requests_total'') (px_metrics px0)\<rparr>;
          c = px_coord px;
          sqlStr = (if q_sql q = [] then q_body q else q_sql q);
          clientTxnID = q_txn q;
          upperParams = ToUpper (TrimSpace sqlStr)
      in if upperParams = lit ''BEGIN''
         then (case Begin now c of (c', newID) \<Rightarrow> (px\<lparr>px_coord := c'\<rparr>, [], w, TxnID newID))
         else if upperParams = lit ''COMMIT''
         then if clientTxnID = [] then (px, [], w, MissingTxnParam)
              else (case coord_Commit http ord1 ord2 now clientTxnID c w of
                      (c', calls, w', err) \<Rightarrow>
                        (px\<lparr>px_coord := c'\<rparr>, calls, w', case err of Some e \<Rightarrow> CommitFailed e | None \<Rightarrow> CommitOK))
         else if upperParams = lit ''ROLLBACK''
         then if clientTxnID = [] then (px, [], w, MissingTxnParam)
              else (case coord_Abort clientTxnID c of
                      (c', calls, _) \<Rightarrow> (px\<lparr>px_coord := c'\<rparr>, calls, w, RollbackOK))
         else
           let routed = (case proxy_route P http arrival sqlStr (q_routing_key q) (co_router c) w of
                           (reply, w') \<Rightarrow> (px, [], w', reply))
           in case ParseToPlan P sqlStr of
                Inl err \<Rightarrow> (px, [], w, ParseFailed err)
              | Inr (InsertNode tab _ (k # v # _)) \<Rightarrow>
                  if clientTxnID \<noteq> []
                  then (case AddWrite clientTxnID (userKey tab k) v c of
                          (c', Some err) \<Rightarrow> (px\<lparr>px_coord := c'\<rparr>, [], w, BufferFailed err)
                        | (c', None) \<Rightarrow> (px\<lparr>px_coord := c'\<rparr>, [], w, BufferedOK))
                  else routed
              | Inr _ \<Rightarrow> routed)"

section \<open>Properties\<close>

text \<open>Statements that are not transaction commands.\<close>

definition plain_statement :: "bytes \<Rightarrow> bool" where
  "plain_statement sql \<longleftrightarrow> ToUpper (TrimSpace sql) \<notin> {lit ''BEGIN'', lit ''COMMIT'', lit ''ROLLBACK''}"

text \<open>
  An \<open>INSERT\<close> inside an active transaction is buffered: it is answered without any call to
  a shard, and the transaction gains exactly one write, of the row key with the second value;
  an \<open>INSERT\<close> of a single value is not part of the transaction, it is routed at once like a
  statement outside one.
\<close>

theorem insert_in_transaction:
  assumes "plain_statement (q_sql q)" and "q_sql q \<noteq> []" and "q_txn q \<noteq> []"
    and "co_transactions (px_coord px) (q_txn q) = Some txn" and "tx_State txn = StateActive"
    and "proxy_execute P http ord1 ord2 arrival now q px w = (px', calls, w', reply)"
  shows "(ParseToPlan P (q_sql q) = Inr (InsertNode tab cols (k # v # vs)) \<longrightarrow>
      reply = BufferedOK \<and> calls = [] \<and> w' = w \<and>
      co_transactions (px_coord px') = (co_transactions (px_coord px))(q_txn q \<mapsto>
        txn\<lparr>tx_Writes := tx_Writes txn @ [\<lparr>wi_Key = userKey tab k, wi_Value = v\<rparr>]\<rparr>)) \<and>
    (ParseToPlan P (q_sql q) = Inr (InsertNode tab cols [k]) \<longrightarrow>
      px_coord px' = px_coord px \<and>
      (reply, w') = proxy_route P http arrival (q_sql q) (q_routing_key q) (co_router (px_coord px)) w)"
  using assms
  by (auto simp: proxy_execute_def plain_statement_def AddWrite_def Let_def split: prod.splits)

text \<open>A proxy whose coordinator has an active transaction.\<close>

definition sample_proxy :: proxy where
  "sample_proxy = \<lparr>px_coord = sample_coordinator, px_metrics = empty_registry\<rparr>"

definition sample_insert :: "unit Statement" where
  "sample_insert = InsertStmt \<lparr>ins_Table = (), ins_Columns = [],
     ins_Rows = Values [[SQLVal (lit ''k''), SQLVal (lit ''v''), SQLVal (lit ''w'')]]\<rparr>"

theorem insert_in_transaction_witness:
  "\<exists>px' calls reply. proxy_execute (fixed_parser sample_insert) always_ok id id [1, 2, 3] 9
      \<lparr>q_sql = lit ''INSERT'', q_body = [], q_txn = lit ''txn-7'', q_routing_key = []\<rparr> sample_proxy () = (px', calls, (), reply) \<and>
     reply = BufferedOK \<and>
     map wi_Value (tx_Writes (the (co_transactions (px_coord px') (lit ''txn-7'')))) = [lit ''1'', lit ''2'', lit ''v'']"
proof -
  let ?q = "\<lparr>q_sql = lit ''INSERT'', q_body = [], q_txn = lit ''txn-7'', q_routing_key = []\<rparr>"
  obtain px' calls reply where r: "proxy_execute (fixed_parser sample_insert) always_ok id id [1, 2, 3] 9
      ?q sample_proxy () = (px', calls, (), reply)"
    by (cases "proxy_execute (fixed_parser sample_insert) always_ok id id [1, 2, 3] 9 ?q sample_proxy ()") auto
  have p: "plain_statement (lit ''INSERT'')" by code_simp
  have t: "co_transactions (px_coord sample_proxy) (lit ''txn-7'') = co_transactions sample_coordinator (lit ''txn-7'')"
    by (simp add: sample_proxy_def)
  have plan: "ParseToPlan (fixed_parser sample_insert) (lit ''INSERT'') = Inr (InsertNode (lit ''t'') [] [lit ''k'', lit ''v'', lit ''w''])"
    by (simp add: ParseToPlan_def fixed_parser_def sample_insert_def buildInsertPlan_def)
  have ne: "lit ''INSERT'' \<noteq> []" "lit ''txn-7'' \<noteq> []" by (simp_all add: lit_def)
  show ?thesis
    using insert_in_transaction [OF _ _ _ _ _ r] p t plan ne sample_txn
    by (auto simp: r)
qed

lemma forward_unreachable:
  assumes "\<forall>call w. fst (http call w) = None"
  shows "\<exists>e w1. forward http r sid sql w = (Inl e, w1)"
proof (cases "rt_ShardAddrs r sid")
  case None
  then show ?thesis by (simp add: forward_def ForwardRequest_def)
next
  case (Some addr)
  obtain x w1 where h: "http (HttpPost (addr @ lit ''/execute'') sql) w = (x, w1)" by (meson surj_pair)
  then have "x = None" using assms by (metis fst_conv)
  with Some h show ?thesis by (simp add: forward_def ForwardRequest_def)
qed

lemma broadcast_unreachable:
  assumes "\<forall>call w. fst (http call w) = None"
  shows "fst (broadcast http r sql sids w) = []"
proof (induction sids arbitrary: w)
  case Nil
  then show ?case by simp
next
  case (Cons sid sids)
  obtain e w1 where "forward http r sid sql w = (Inl e, w1)"
    using forward_unreachable [OF assms] by blast
  with Cons [of w1] show ?case by (simp add: shard_rows_def case_prod_beta)
qed

text \<open>
  A broadcast hides failures: when no shard can be reached, a broadcast \<open>SELECT\<close> is
  answered with status 200 and an empty result, which a client cannot tell from a query
  that matched nothing.
\<close>

theorem broadcast_hides_failures:
  assumes "\<forall>call w. fst (http call w) = None"
    and "Analyze P sql = Inr \<lparr>plan_Type = PlanBroadcast, plan_RoutingKey = key\<rparr>"
    and "proxy_route P http arrival sql [] r w = (reply, w')"
  shows "reply = AllRows None \<and> reply_status reply = 200"
  using assms broadcast_unreachable [OF assms(1), of r sql arrival w]
  by (auto simp: proxy_route_def split: prod.splits)

theorem broadcast_hides_failures_witness:
  "fst (proxy_route (fixed_parser (select_where None)) (\<lambda>_ w. (None, w)) [1, 2, 3] [] [] sample_router ()) = AllRows None"
proof -
  obtain reply w' where r: "proxy_route (fixed_parser (select_where None)) (\<lambda>_ w. (None, w)) [1, 2, 3] [] [] sample_router () = (reply, w')"
    by (meson surj_pair)
  have "Analyze (fixed_parser (select_where None)) [] = Inr \<lparr>plan_Type = PlanBroadcast, plan_RoutingKey = []\<rparr>"
    by (simp add: Analyze_def fixed_parser_def select_where_def analyzeSelect_def)
  with broadcast_hides_failures [OF _ _ r] show ?thesis by (simp add: r)
qed

end
