(* ===== verification/Cluster.thy ===== *)
theory Cluster
  imports Txn_Network Shard_Node Proxy
begin

text \<open>
  The coordinator and the shards put together: the routes of the shard server
  (\<^verbatim>\<open>cmd/shard-node/main.go\<close>), the shards behind their addresses, and the network that carries
  the coordinator's HTTP calls to them.  A shard stands for its raft group: what a handler
  proposes is queued and applied later, in order and once.  Applying a queued entry is an
  internal step that can happen at any time; the abstract state of the system is what the
  shards are when their queues have been applied.
\<close>

section \<open>Routes of the shard server\<close>

text \<open>
  Address, path and query of a URL: the host ends at the first slash after \<^verbatim>\<open>http://\<close>, the
  path at the first question mark.
\<close>

definition split_url :: "bytes \<Rightarrow> bytes \<times> bytes \<times> bytes" where
  "split_url url =
     (let host = takeWhile (\<lambda>c. c \<noteq> 47) (drop 7 url);
          rest = drop (7 + length host) url;
          path = takeWhile (\<lambda>c. c \<noteq> 63) rest
      in (take 7 url @ host, path, drop (length path + 1) rest))"

text \<open>The statement and transaction endpoints; the handlers do not look at the method.\<close>

definition shard_mux :: "bytes \<Rightarrow> bytes \<Rightarrow> bytes \<Rightarrow> shard_request option" where
  "shard_mux path q body =
     (if path = lit ''/execute'' then Some (ReqExecute (query_Get q (lit ''sql'')) body)
      else if path = lit ''/txn/prepare''
      then Some (ReqPrepare (query_Get q (lit ''key'')) (query_Get q (lit ''val'')) (query_Get q (lit ''txn'')))
      else if path = lit ''/txn/commit''
      then Some (ReqCommit (query_Get q (lit ''key'')) (query_Get q (lit ''txn'')) (query_Get q (lit ''ts'')))
      else if path = lit ''/txn/abort''
      then Some (ReqAbort (query_Get q (lit ''key'')) (query_Get q (lit ''txn'')))
      else if path = lit ''/txn/oneshot'' then Some (ReqOneShot body)
      else None)"

fun decode_call :: "http_call \<Rightarrow> bytes \<times> shard_request option" where
  "decode_call (HttpGet url) = (case split_url url of (addr, path, q) \<Rightarrow> (addr, shard_mux path q []))"
| "decode_call (HttpPost url body) = (case split_url url of (addr, path, q) \<Rightarrow> (addr, shard_mux path q body))"

text \<open>What a handler writes.\<close>

fun answer_text :: "shard_answer \<Rightarrow> bytes" where
  "answer_text (RowsJSON rows) = encode_rows rows"
| "answer_text OKText = lit ''OK''"
| "answer_text EmptyBody = []"

section \<open>The network of shards\<close>

record 't server =
  srv_node :: "'t ShardNode"
  srv_queue :: "bytes list"     \<comment> \<open>proposed and not yet applied\<close>

type_synonym 't cluster = "bytes \<rightharpoonup> 't server"

definition serve ::
  "'t btree_ops \<Rightarrow> ('x, 'pe) sqlparser \<Rightarrow> 't server \<Rightarrow> shard_request \<Rightarrow> 't server \<times> http_response" where
  "serve B P srv r =
     (case shard_handle B P (srv_node srv) r of
        (n, proposal, status, ans) \<Rightarrow>
          (\<lparr>srv_node = n, srv_queue = srv_queue srv @ [proposal]\<rparr>,
           \<lparr>resp_StatusCode = int status, resp_Body = Some (answer_text ans)\<rparr>))"

definition cluster_http :: "'t btree_ops \<Rightarrow> ('x, 'pe) sqlparser \<Rightarrow> 't cluster http" where
  "cluster_http B P call cl =
     (case decode_call call of (addr, req) \<Rightarrow>
        case cl addr of
          None \<Rightarrow> (None, cl)
        | Some srv \<Rightarrow>
            (case req of
               None \<Rightarrow> (Some \<lparr>resp_StatusCode = 404, resp_Body = Some (lit ''404 page not found'' @ [10])\<rparr>, cl)
             | Some r \<Rightarrow> (case serve B P srv r of (srv', resp) \<Rightarrow> (Some resp, cl(addr \<mapsto> srv')))))"

text \<open>One queued entry is applied.\<close>

fun deliver :: "'t btree_ops \<Rightarrow> ('x, 'pe) sqlparser \<Rightarrow> 't server \<Rightarrow> 't server" where
  "deliver B P srv =
     (case srv_queue srv of
        [] \<Rightarrow> srv
      | s # queue \<Rightarrow> \<lparr>srv_node = fst (shard_Apply B P (srv_node srv) s), srv_queue = queue\<rparr>)"

inductive cluster_step :: "'t btree_ops \<Rightarrow> ('x, 'pe) sqlparser \<Rightarrow> 't cluster \<Rightarrow> 't cluster \<Rightarrow> bool"
  for B P where
  "cl a = Some srv \<Longrightarrow> srv_queue srv \<noteq> [] \<Longrightarrow> cluster_step B P cl (cl(a \<mapsto> deliver B P srv))"

text \<open>A network that applies some queued entries, as \<open>sched\<close> decides, after every call.\<close>

definition cluster_net ::
  "'t btree_ops \<Rightarrow> ('x, 'pe) sqlparser \<Rightarrow> ('t cluster \<Rightarrow> 't cluster) \<Rightarrow> 't cluster http" where
  "cluster_net B P sched call cl = (case cluster_http B P call cl of (r, cl') \<Rightarrow> (r, sched cl'))"

section \<open>The abstract state\<close>

definition settled :: "'t btree_ops \<Rightarrow> ('x, 'pe) sqlparser \<Rightarrow> 't server \<Rightarrow> 't ShardNode" where
  "settled B P srv = shard_run B P (srv_node srv) (srv_queue srv)"

definition cluster_state :: "'t btree_ops \<Rightarrow> ('x, 'pe) sqlparser \<Rightarrow> 't cluster \<Rightarrow> net_state" where
  "cluster_state B P cl = (\<lambda>a. map_option (\<lambda>srv. view B (sn_engine (settled B P srv))) (cl a))"

definition cluster_inv :: "'t btree_ops \<Rightarrow> ('t \<Rightarrow> bool) \<Rightarrow> 't cluster \<Rightarrow> bool" where
  "cluster_inv B tinv cl \<longleftrightarrow> (\<forall>srv \<in> ran cl. store_inv B tinv (sn_engine (srv_node srv)))"

definition all_applied :: "'t cluster \<Rightarrow> bool" where
  "all_applied cl \<longleftrightarrow> (\<forall>srv \<in> ran cl. srv_queue srv = [])"

lemma settled_deliver: "settled B P (deliver B P srv) = settled B P srv"
  by (simp add: settled_def shard_run_def split: list.split)

lemma shard_run_inv:
  assumes "btree_api B tinv" and "store_inv B tinv (sn_engine n)"
  shows "store_inv B tinv (sn_engine (shard_run B P n log))"
  using assms(2)
  by (induction log arbitrary: n) (auto simp: shard_run_def intro: shard_Apply_inv [OF assms(1)])

lemma cluster_step_keeps:
  assumes "btree_api B tinv" and "cluster_inv B tinv cl" and "cluster_step B P cl cl'"
  shows "cluster_inv B tinv cl' \<and> cluster_state B P cl' = cluster_state B P cl"
  using assms(3)
proof cases
  case (1 a srv)
  have "store_inv B tinv (sn_engine (srv_node (deliver B P srv)))"
    using assms(2) 1 shard_Apply_inv [OF assms(1)] by (auto simp: cluster_inv_def ran_def split: list.split)
  then have "cluster_inv B tinv cl'"
    using assms(2) 1 by (auto simp: cluster_inv_def ran_def split: if_splits simp del: deliver.simps)
  moreover have "cluster_state B P cl' = cluster_state B P cl"
    using 1 by (auto simp: cluster_state_def settled_deliver fun_eq_iff simp del: deliver.simps)
  ultimately show ?thesis by blast
qed

lemma cluster_steps_keep:
  assumes "btree_api B tinv" and "cluster_inv B tinv cl" and "(cluster_step B P)\<^sup>*\<^sup>* cl cl'"
  shows "cluster_inv B tinv cl' \<and> cluster_state B P cl' = cluster_state B P cl"
  using assms(3)
proof (induction rule: rtranclp_induct)
  case base
  with assms(2) show ?case by simp
next
  case (step y z)
  then show ?case using cluster_step_keeps [OF assms(1), of y P z] by simp
qed

section \<open>Transaction calls\<close>

definition good_addr :: "bytes \<Rightarrow> bool" where
  "good_addr a \<longleftrightarrow> 7 \<le> length a \<and> 47 \<notin> set (drop 7 a)"

lemma split_url_good:
  assumes "good_addr a" and "path \<noteq> []" and "hd path = 47" and "63 \<notin> set path"
  shows "split_url (a @ path @ 63 # q) = (a, path, q)" and "split_url (a @ path) = (a, path, [])"
proof -
  have "takeWhile (\<lambda>c. c \<noteq> 47) (drop 7 a @ path @ s) = drop 7 a" for s
    using assms by (cases path) (auto simp: good_addr_def takeWhile_append)
  note host = this [of "63 # q"] this [of "[]", simplified]
  have len: "7 + length (drop 7 a) = length a" "take 7 a @ drop 7 a = a"
    using assms(1) by (simp_all add: good_addr_def)
  have p: "takeWhile (\<lambda>c. c \<noteq> 63) (path @ 63 # q) = path" "takeWhile (\<lambda>c. c \<noteq> 63) path = path"
    using assms(4) by (auto simp: takeWhile_append)
  show "split_url (a @ path @ 63 # q) = (a, path, q)" "split_url (a @ path) = (a, path, [])"
    using host len p assms(1) by (simp_all add: split_url_def Let_def good_addr_def del: takeWhile_eq_all_conv)
qed

lemma txn_paths:
  "lit ''/txn/prepare?'' @ q = lit ''/txn/prepare'' @ 63 # q"
  "lit ''/txn/commit?'' @ q = lit ''/txn/commit'' @ 63 # q"
  "lit ''/txn/abort?'' @ q = lit ''/txn/abort'' @ 63 # q"
  by (simp_all add: lit_def)

lemma path_facts:
  "lit ''/txn/prepare'' \<noteq> []" "hd (lit ''/txn/prepare'') = 47" "63 \<notin> set (lit ''/txn/prepare'')"
  "lit ''/txn/commit'' \<noteq> []" "hd (lit ''/txn/commit'') = 47" "63 \<notin> set (lit ''/txn/commit'')"
  "lit ''/txn/abort'' \<noteq> []" "hd (lit ''/txn/abort'') = 47" "63 \<notin> set (lit ''/txn/abort'')"
  "lit ''/txn/oneshot'' \<noteq> []" "hd (lit ''/txn/oneshot'') = 47" "63 \<notin> set (lit ''/txn/oneshot'')"
  "lit ''/execute'' \<noteq> []" "hd (lit ''/execute'') = 47" "63 \<notin> set (lit ''/execute'')"
  by (simp_all add: lit_def)

lemma path_neqs:
  "lit ''/txn/prepare'' \<noteq> lit ''/execute''"
  "lit ''/txn/commit'' \<noteq> lit ''/execute''" "lit ''/txn/commit'' \<noteq> lit ''/txn/prepare''"
  "lit ''/txn/abort'' \<noteq> lit ''/execute''" "lit ''/txn/abort'' \<noteq> lit ''/txn/prepare''" "lit ''/txn/abort'' \<noteq> lit ''/txn/commit''"
  "lit ''/txn/oneshot'' \<noteq> lit ''/execute''" "lit ''/txn/oneshot'' \<noteq> lit ''/txn/prepare''"
  "lit ''/txn/oneshot'' \<noteq> lit ''/txn/commit''" "lit ''/txn/oneshot'' \<noteq> lit ''/txn/abort''"
  by (simp_all add: lit_def)

lemma decode_txn_calls:
  assumes "good_addr a"
  shows "\<forall>c \<in> set txn. unreserved c \<Longrightarrow> decode_call (prepare_call a key v txn) = (a, Some (ReqPrepare key v txn))"
    and "\<forall>c \<in> set txn. unreserved c \<Longrightarrow>
      decode_call (commit_call a key txn ts) = (a, Some (ReqCommit key txn (Sprint_d (unat ts))))"
    and "\<forall>c \<in> set txn. unreserved c \<Longrightarrow> decode_call (abort_call a key txn) = (a, Some (ReqAbort key txn))"
    and "decode_call (oneshot_call a ws txn ts) =
      (a, Some (ReqOneShot (marshal_Req \<lparr>req_TxnID = txn, req_Ts = ts, req_Ops = map (\<lambda>w. (wi_Key w, wi_Value w)) ws\<rparr>)))"
    and "decode_call (HttpPost (a @ lit ''/execute'') sql) = (a, Some (ReqExecute (query_Get [] (lit ''sql'')) sql))"
  using query_roundtrip [of txn key v ts] split_url_good [OF assms]
  by (simp_all add: prepare_call_def commit_call_def abort_call_def oneshot_call_def txn_paths path_facts
      shard_mux_def path_neqs)

text \<open>A request that is only a proposal: the handler changes nothing but the queue, and applying the queue applies it last.\<close>

lemma cluster_http_proposal:
  assumes "decode_call call = (a, Some r)" and "cl a = Some srv"
    and "shard_handle B P (srv_node srv) r = (srv_node srv, msg, 200, ans)"
  shows "cluster_http B P call cl = (Some \<lparr>resp_StatusCode = 200, resp_Body = Some (answer_text ans)\<rparr>,
      cl(a \<mapsto> \<lparr>srv_node = srv_node srv, srv_queue = srv_queue srv @ [msg]\<rparr>))"
  using assms by (simp add: cluster_http_def serve_def)

lemma cluster_proposal_state:
  assumes "btree_api B tinv" and "cluster_inv B tinv cl" and "cl a = Some srv"
    and "\<And>n. store_inv B tinv (sn_engine n) \<Longrightarrow> view B (sn_engine (fst (shard_Apply B P n msg))) = f (view B (sn_engine n))"
  defines "cl' \<equiv> cl(a \<mapsto> \<lparr>srv_node = srv_node srv, srv_queue = srv_queue srv @ [msg]\<rparr>)"
  shows "cluster_inv B tinv cl' \<and> cluster_state B P cl' = (cluster_state B P cl)(a := map_option f (cluster_state B P cl a))"
proof -
  have inv: "store_inv B tinv (sn_engine (srv_node srv))"
    using assms(2,3) by (auto simp: cluster_inv_def ran_def)
  then have "store_inv B tinv (sn_engine (settled B P srv))"
    unfolding settled_def by (rule shard_run_inv [OF assms(1)])
  then have "view B (sn_engine (settled B P \<lparr>srv_node = srv_node srv, srv_queue = srv_queue srv @ [msg]\<rparr>)) =
      f (view B (sn_engine (settled B P srv)))"
    using assms(4) [of "settled B P srv"] by (simp add: settled_def shard_run_def)
  with inv assms(2,3) show ?thesis
    unfolding cl'_def by (auto simp: cluster_inv_def cluster_state_def ran_def fun_eq_iff)
qed

lemma apply_txn_msgs:
  assumes "btree_api B tinv" and "store_inv B tinv (sn_engine n)" and "32 \<notin> set key" and "32 \<notin> set txn"
  shows "32 \<notin> set v \<Longrightarrow> view B (sn_engine (fst (shard_Apply B P n (prepare_msg key v txn)))) =
      spec_cmd (view B (sn_engine n)) (CPrepare key (Some v) txn)"
    and "view B (sn_engine (fst (shard_Apply B P n (commit_msg key txn (Sprint_d (unat ts)))))) =
      spec_cmd (view B (sn_engine n)) (CCommit key txn ts)"
    and "view B (sn_engine (fst (shard_Apply B P n (abort_msg key txn)))) =
      spec_cmd (view B (sn_engine n)) (CAbort key txn)"
  using assms btree_api.exec_cmd_refines [OF assms(1,2), of "CPrepare key (Some v) txn"]
    btree_api.exec_cmd_refines [OF assms(1,2), of "CCommit key txn ts"]
    btree_api.exec_cmd_refines [OF assms(1,2), of "CAbort key txn"]
  by (simp_all add: apply_prepare apply_commit apply_abort case_prod_beta del: spec_cmd.simps)

lemma unreserved_no_blank: "\<forall>c \<in> set txn. unreserved c \<Longrightarrow> 32 \<notin> set txn"
  by (auto simp: unreserved_def)

text \<open>A network of shards: the parser and the scheduling of queued entries are arbitrary.\<close>

locale shard_cluster = btree_api B tinv
  for B :: "'t btree_ops" and tinv :: "'t \<Rightarrow> bool" +
  fixes P :: "('x, 'pe) sqlparser" and sched :: "'t cluster \<Rightarrow> 't cluster"
  assumes sched_delivers: "(cluster_step B P)\<^sup>*\<^sup>* cl (sched cl)"
begin

lemma sched_keeps:
  "cluster_inv B tinv cl \<Longrightarrow> cluster_inv B tinv (sched cl) \<and> cluster_state B P (sched cl) = cluster_state B P cl"
  using cluster_steps_keep [OF btree_api_axioms _ sched_delivers] .

lemma net_proposal:
  assumes "cluster_inv B tinv cl" and "cluster_state B P cl a \<noteq> None"
    and "decode_call call = (a, Some r)" and "\<And>n. shard_handle B P n r = (n, msg, 200, ans)"
    and "\<And>n. store_inv B tinv (sn_engine n) \<Longrightarrow> view B (sn_engine (fst (shard_Apply B P n msg))) = spec_cmd (view B (sn_engine n)) c"
    and "cluster_net B P sched call cl = (resp, cl')"
  shows "ok_response resp \<and> cluster_inv B tinv cl' \<and> cluster_state B P cl' = spec_op (a, c) (cluster_state B P cl)"
proof -
  obtain srv where srv: "cl a = Some srv" using assms(2) by (auto simp: cluster_state_def)
  let ?cl = "cl(a \<mapsto> \<lparr>srv_node = srv_node srv, srv_queue = srv_queue srv @ [msg]\<rparr>)"
  have "cluster_http B P call cl = (Some \<lparr>resp_StatusCode = 200, resp_Body = Some (answer_text ans)\<rparr>, ?cl)"
    by (rule cluster_http_proposal [OF assms(3), where cl = cl, OF srv]) (rule assms(4))
  then have res: "ok_response resp" "cl' = sched ?cl" using assms(6) by (auto simp: cluster_net_def ok_response_def)
  have "cluster_inv B tinv ?cl \<and> cluster_state B P ?cl = spec_op (a, c) (cluster_state B P cl)"
    using cluster_proposal_state [OF btree_api_axioms assms(1) srv, of P msg "\<lambda>m. spec_cmd m c"] assms(5)
    by (simp add: spec_op_def)
  with res sched_keeps [of ?cl] show ?thesis by simp
qed

end

sublocale shard_cluster < txn: txn_network "cluster_net B P sched" "cluster_step B P" "cluster_inv B tinv" "cluster_state B P"
  good_addr "\<lambda>s. 32 \<notin> set s" "\<lambda>txn. \<forall>c \<in> set txn. unreserved c"
proof (unfold_locales, goal_cases)
  case (1 w w')
  then show ?case by (rule cluster_step_keeps [OF btree_api_axioms])
next
  case (2 w a key v txn r w')
  note msgs = apply_txn_msgs(1) [OF btree_api_axioms _ _ unreserved_no_blank]
  show ?case
    by (rule net_proposal [OF 2(1,3) decode_txn_calls(1) [OF 2(2,6)] _ _ 2(7)])
       (use 2 msgs in \<open>simp_all add: shard_handle_def del: spec_cmd.simps\<close>)
next
  case (3 w a key txn ts r w')
  note msgs = apply_txn_msgs(2) [OF btree_api_axioms _ _ unreserved_no_blank]
  have "ok_response r \<and> cluster_inv B tinv w' \<and> cluster_state B P w' = spec_op (a, CCommit key txn ts) (cluster_state B P w)"
    by (rule net_proposal [OF 3(1,3) decode_txn_calls(2) [OF 3(2,5)] _ _ 3(6)])
       (use 3 msgs in \<open>simp_all add: shard_handle_def del: spec_cmd.simps\<close>)
  then show ?case by blast
next
  case (4 w a key txn r w')
  note msgs = apply_txn_msgs(3) [OF btree_api_axioms _ _ unreserved_no_blank]
  have "ok_response r \<and> cluster_inv B tinv w' \<and> cluster_state B P w' = spec_op (a, CAbort key txn) (cluster_state B P w)"
    by (rule net_proposal [OF 4(1,3) decode_txn_calls(3) [OF 4(2,5)] _ _ 4(6)])
       (use 4 msgs in \<open>simp_all add: shard_handle_def del: spec_cmd.simps\<close>)
  then show ?case by blast
qed

context shard_cluster
begin

lemma is_txn_network:
  "txn_network (cluster_net B P sched) (cluster_step B P) (cluster_inv B tinv) (cluster_state B P)
    good_addr (\<lambda>s. 32 \<notin> set s) (\<lambda>txn. \<forall>c \<in> set txn. unreserved c)"
  by unfold_locales

end

text \<open>The network that applies nothing by itself, over the tree of sorted lists.\<close>

interpretation lazy: shard_cluster sl_btree sl_inv P id for P
  by unfold_locales simp

section \<open>Queues drain\<close>

definition backlog :: "'t cluster \<Rightarrow> nat" where
  "backlog cl = (\<Sum>a \<in> dom cl. length (srv_queue (the (cl a))))"

lemma cluster_step_dom: "cluster_step B P cl cl' \<Longrightarrow> dom cl' = dom cl"
  by (erule cluster_step.cases) (auto simp del: deliver.simps)

lemma backlog_step:
  assumes "cluster_step B P cl cl'" and "finite (dom cl)"
  shows "backlog cl' < backlog cl"
  using assms(1)
proof cases
  case (1 a srv)
  have dom: "dom cl' = dom cl" using 1 by auto
  have a: "a \<in> dom cl" using 1 by auto
  have "length (srv_queue (deliver B P srv)) < length (srv_queue srv)"
    using 1(3) by (cases "srv_queue srv") simp_all
  then have "length (srv_queue (the (cl' a))) < length (srv_queue (the (cl a)))"
    using 1(1,2) by (simp del: deliver.simps)
  moreover have "length (srv_queue (the (cl' b))) \<le> length (srv_queue (the (cl b)))" if "b \<in> dom cl" for b
    using 1 that calculation by (cases "b = a") (simp_all del: deliver.simps)
  ultimately show ?thesis
    unfolding backlog_def dom using assms(2) a by (intro sum_strict_mono_ex1) auto
qed

lemma stuck_iff_applied: "(\<nexists>cl'. cluster_step B P cl cl') \<longleftrightarrow> all_applied cl"
  by (auto simp: all_applied_def ran_def elim!: cluster_step.cases intro: cluster_step.intros)

lemma drains:
  assumes "finite (dom cl)"
  shows "\<exists>cl'. (cluster_step B P)\<^sup>*\<^sup>* cl cl' \<and> all_applied cl'"
  using assms
proof (induction "backlog cl" arbitrary: cl rule: less_induct)
  case less
  show ?case
  proof (cases "all_applied cl")
    case True
    then show ?thesis by blast
  next
    case False
    then obtain cl1 where st: "cluster_step B P cl cl1" using stuck_iff_applied [of B P cl] by blast
    have "finite (dom cl1)" using less.prems cluster_step_dom [OF st] by simp
    then obtain cl' where "(cluster_step B P)\<^sup>*\<^sup>* cl1 cl'" "all_applied cl'"
      using less.hyps [OF backlog_step [OF st less.prems]] by blast
    with st show ?thesis by (meson converse_rtranclp_into_rtranclp)
  qed
qed

lemma net_exec_steps:
  "tau\<^sup>*\<^sup>* w w1 \<Longrightarrow> net_exec http tau cs w1 w2 \<Longrightarrow> net_exec http tau cs w w2"
  by (induction rule: converse_rtranclp_induct) (auto intro: exec_tau)

lemma cluster_http_dom: "dom (snd (cluster_http B P call cl)) = dom cl"
  by (auto simp: cluster_http_def split: prod.splits option.splits if_splits)

lemma cluster_steps_dom: "(cluster_step B P)\<^sup>*\<^sup>* cl cl' \<Longrightarrow> dom cl' = dom cl"
  by (induction rule: rtranclp_induct) (simp_all add: cluster_step_dom)

lemma cluster_net_dom:
  assumes "shard_cluster B tinv P sched"
  shows "dom (snd (cluster_net B P sched call cl)) = dom cl"
  using cluster_http_dom [of B P call cl] cluster_steps_dom [OF shard_cluster.sched_delivers [OF assms]]
  by (simp add: cluster_net_def case_prod_beta)

text \<open>Any calls can be made, and then all queues applied.\<close>

lemma exec_drains:
  assumes "shard_cluster B tinv P sched" and "finite (dom cl)"
  shows "\<exists>cl'. net_exec (cluster_net B P sched) (cluster_step B P) cs cl cl' \<and> all_applied cl'"
  using assms(2)
proof (induction cs arbitrary: cl)
  case Nil
  then show ?case using drains [of cl B P] net_exec_steps exec_done by metis
next
  case (Cons c cs)
  have "finite (dom (snd (cluster_net B P sched c cl)))" using cluster_net_dom [OF assms(1)] Cons.prems by metis
  then show ?case using Cons.IH exec_call by metis
qed

text \<open>Whatever the network keeps, \<open>Commit\<close> keeps.\<close>

lemma coord_Commit_keeps:
  assumes "\<And>call w. I w \<Longrightarrow> I (snd (http call w))" and "I w"
    and "coord_Commit http ord1 ord2 now txnID c w = (c', calls, w', err)"
  shows "I w'"
proof -
  have send: "I (snd (send http call v))" if "I v" for call v
    using assms(1) [OF that, of call] by (auto simp: send_def split: prod.splits option.splits)
  have loop: "I (snd (prepare_loop http txnID ps v))" if "I v" for ps v
    using that
  proof (induction ps arbitrary: v)
    case (Cons p ps)
    then show ?case
      using send [of v "prepare_call (fst p) (wi_Key (snd p)) (wi_Value (snd p)) txnID"]
      by (cases p) (auto simp: sendPrepare_def split: prod.splits option.splits)
  qed simp
  show ?thesis
  proof (cases "\<exists>txn. co_transactions c txnID = Some txn \<and> tx_State txn = StateActive \<and> tx_Writes txn \<noteq> []")
    case False
    then have "w' = w" using assms(3) by (auto simp: coord_Commit_def split: option.splits if_splits)
    with assms(2) show ?thesis by simp
  next
    case True
    then obtain txn where txn: "co_transactions c txnID = Some txn" "tx_State txn = StateActive" "tx_Writes txn \<noteq> []" by blast
    let ?g = "group_by_shard (co_router c) (tx_Writes txn)"
    show ?thesis
    proof (cases "\<exists>shard ws. ?g = [(shard, ws)]")
      case True
      then obtain shard ws where g: "?g = [(shard, ws)]" by blast
      have "w' = snd (send http (oneshot_call shard ws txnID now) w)"
        using assms(3) txn g by (auto simp: coord_Commit_def sendOneShot_def split: prod.splits option.splits)
      with send [OF assms(2)] show ?thesis by simp
    next
      case False
      then obtain g1 g2 gs where "?g = g1 # g2 # gs"
        using group_by_shard_not_Nil [OF txn(3), of "co_router c"] by (metis list.exhaust surj_pair)
      then have "w' = snd (prepare_loop http txnID (flatten (ord1 ?g)) w)"
        using assms(3) txn by (auto simp: coord_Commit_def Let_def split: prod.splits option.splits)
      with loop [OF assms(2)] show ?thesis by simp
    qed
  qed
qed

lemma commit_result:
  obtains c' calls w' err where "coord_Commit http ord1 ord2 now txnID c w = (c', calls, w', err)"
  by (cases "coord_Commit http ord1 ord2 now txnID c w") auto

lemma commit_drains:
  assumes "shard_cluster B tinv P sched" and "finite (dom cl)"
    and "coord_Commit (cluster_net B P sched) ord1 ord2 now txnID c cl = (c', calls, cl1, err)"
  shows "\<exists>cl2. net_exec (cluster_net B P sched) (cluster_step B P) calls cl1 cl2 \<and> all_applied cl2"
proof (rule exec_drains [OF assms(1)])
  show "finite (dom cl1)"
    using coord_Commit_keeps [where I = "\<lambda>cl. finite (dom cl)", OF _ assms(2,3)] cluster_net_dom [OF assms(1)] by metis
qed

lemma applied_cell:
  assumes "all_applied cl" and "cell_of (cluster_state B P cl) a k = Some (vs, i)"
  shows "\<exists>srv. cl a = Some srv \<and> versions (view B (sn_engine (srv_node srv))) k = vs \<and>
    intents (view B (sn_engine (srv_node srv))) k = i"
proof -
  obtain srv where srv: "cl a = Some srv"
    using assms(2) by (auto simp: cell_of_def cluster_state_def)
  then have "srv_queue srv = []" using assms(1) by (auto simp: all_applied_def ran_def)
  then have "settled B P srv = srv_node srv" by (simp add: settled_def shard_run_def)
  then have "cell_of (cluster_state B P cl) a k =
      Some (versions (view B (sn_engine (srv_node srv))) k, intents (view B (sn_engine (srv_node srv))) k)"
    using srv by (simp add: cell_of_def cluster_state_def del: view_sel)
  with assms(2) srv show ?thesis by (simp del: view_sel)
qed

lemma written_cell:
  assumes "all_applied cl2" and "cluster_state B P cl a = Some m" and "available m k txnID"
    and "cell_of (cluster_state B P cl2) a k = map_option (cell_write txnID v now) (cell_of (cluster_state B P cl) a k)"
  shows "\<exists>srv. cl2 a = Some srv \<and> versions (view B (sn_engine (srv_node srv))) k now = Some (Some v) \<and>
    intents (view B (sn_engine (srv_node srv))) k = None"
proof -
  have "may_take txnID (intents m k)" using assms(3) by (auto simp: available_def may_take_def)
  then have "cell_of (cluster_state B P cl2) a k = Some ((versions m k)(now \<mapsto> Some v), None)"
    using assms(2,4) by (simp add: cell_of_def [of "cluster_state B P cl"] cell_write_def)
  from applied_cell [OF assms(1) this] show ?thesis by (auto simp del: view_sel)
qed

section \<open>Properties\<close>

text \<open>
  (C2) Distributed commit, end to end: take an active transaction with writes to different keys
  that live on more than one shard, all of them shards of the cluster, with keys and values
  without blanks, and no key held by another transaction.  \<open>Commit\<close> succeeds, and once the calls it has started have arrived, in
  any order, and all shards have applied their queues, at whatever times they did, every
  written key has the written value as its version at the commit timestamp and no intent, on
  the shard of the key; every other key of every shard is as it was.
  Each shard address is a server of its own that applies every accepted proposal once and in
  order, and every call is answered.
\<close>

theorem distributed_commit:
  assumes "shard_cluster B tinv P sched" and "cluster_inv B tinv cl" and "\<forall>c \<in> set txnID. unreserved c"
    and "co_transactions c txnID = Some txn" and "tx_State txn = StateActive"
    and "\<not> (\<exists>shard. \<forall>x \<in> set (tx_Writes txn). Locate (co_router c) (wi_Key x) = shard)"
    and "distinct (map wi_Key (tx_Writes txn))"
    and "\<forall>x \<in> set (tx_Writes txn). good_addr (Locate (co_router c) (wi_Key x)) \<and>
      Locate (co_router c) (wi_Key x) \<in> dom cl \<and> 32 \<notin> set (wi_Key x) \<and> 32 \<notin> set (wi_Value x)"
    and free: "\<forall>x \<in> set (tx_Writes txn). \<forall>m. cluster_state B P cl (Locate (co_router c) (wi_Key x)) = Some m \<longrightarrow>
      available m (wi_Key x) txnID"
    and "\<forall>g. mset (ord1 g) = mset g" and "\<forall>g. mset (ord2 g) = mset g"
    and "coord_Commit (cluster_net B P sched) ord1 ord2 now txnID c cl = (c', calls, cl1, err)"
    and "mset calls' = mset calls"
    and "net_exec (cluster_net B P sched) (cluster_step B P) calls' cl1 cl2" and "all_applied cl2"
  shows "err = None \<and> txn_state c' txnID = Some StateCommitted \<and>
    (\<forall>x \<in> set (tx_Writes txn). \<exists>srv. cl2 (Locate (co_router c) (wi_Key x)) = Some srv \<and>
      versions (view B (sn_engine (srv_node srv))) (wi_Key x) now = Some (Some (wi_Value x)) \<and>
      intents (view B (sn_engine (srv_node srv))) (wi_Key x) = None) \<and>
    (\<forall>a k. (\<forall>x \<in> set (tx_Writes txn). (Locate (co_router c) (wi_Key x), wi_Key x) \<noteq> (a, k)) \<longrightarrow>
      cell_of (cluster_state B P cl2) a k = cell_of (cluster_state B P cl) a k)"
proof -
  let ?loc = "\<lambda>x. Locate (co_router c) (wi_Key x)"
  have ready: "\<forall>x \<in> set (tx_Writes txn). good_addr (?loc x) \<and> cluster_state B P cl (?loc x) \<noteq> None \<and>
      32 \<notin> set (wi_Key x) \<and> 32 \<notin> set (wi_Value x)"
    using assms(8) by (auto simp: cluster_state_def)
  note eff = txn_network.commit_effect [OF shard_cluster.is_txn_network [OF assms(1)] assms(2-7) ready assms(10-14)]
  have "\<exists>srv. cl2 (?loc x) = Some srv \<and> versions (view B (sn_engine (srv_node srv))) (wi_Key x) now = Some (Some (wi_Value x)) \<and>
      intents (view B (sn_engine (srv_node srv))) (wi_Key x) = None" if x: "x \<in> set (tx_Writes txn)" for x
  proof -
    obtain m where m: "cluster_state B P cl (?loc x) = Some m" using ready x by blast
    with free x eff show ?thesis by (intro written_cell [OF assms(15) m]) auto
  qed
  with eff show ?thesis by blast
qed

text \<open>Two shards, a router that splits the keys between them, and a transaction with a write on each.\<close>

definition new_server :: "'t btree_ops \<Rightarrow> 't server" where
  "new_server B = \<lparr>srv_node = \<lparr>sn_engine = NewMemoryStore B, sn_metrics = empty_registry\<rparr>, srv_queue = []\<rparr>"

definition two_shards :: "item list cluster" where
  "two_shards = [lit ''http://s1'' \<mapsto> new_server sl_btree, lit ''http://s2'' \<mapsto> new_server sl_btree]"

definition two_router :: Router where
  "two_router = sample_router\<lparr>rt_ShardAddrs := [1 \<mapsto> lit ''http://s1'', 2 \<mapsto> lit ''http://s2'']\<rparr>"

definition two_coordinator :: Coordinator where
  "two_coordinator =
     fst (AddWrite (lit ''txn-7'') (lit ''z'') (lit ''2'')
       (fst (AddWrite (lit ''txn-7'') (lit ''a'') (lit ''1'') (fst (Begin 7 (NewCoordinator two_router))))))"

abbreviation any_parser :: "(unit, unit) sqlparser" where
  "any_parser \<equiv> fixed_parser (OtherStatement ())"

lemma two_txn:
  "co_transactions two_coordinator (lit ''txn-7'') =
     Some \<lparr>tx_ID = lit ''txn-7'', tx_State = StateActive, tx_StartTime = 7,
       tx_Writes = [\<lparr>wi_Key = lit ''a'', wi_Value = lit ''1''\<rparr>, \<lparr>wi_Key = lit ''z'', wi_Value = lit ''2''\<rparr>]\<rparr>"
  by code_simp

lemma two_locate:
  "Locate (co_router two_coordinator) (lit ''a'') = lit ''http://s1''"
  "Locate (co_router two_coordinator) (lit ''z'') = lit ''http://s2''"
  by code_simp+

lemma two_facts:
  "good_addr (lit ''http://s1'')" "good_addr (lit ''http://s2'')" "lit ''http://s1'' \<noteq> lit ''http://s2''"
  "lit ''a'' \<noteq> lit ''z''" "\<forall>c \<in> set (lit ''txn-7''). unreserved c"
  "32 \<notin> set (lit ''a'')" "32 \<notin> set (lit ''z'')" "32 \<notin> set (lit ''1'')" "32 \<notin> set (lit ''2'')"
  by (simp_all add: lit_def good_addr_def unreserved_def)

lemma new_server_state:
  "cluster_state B P cl a = Some m \<Longrightarrow> cl a = Some (new_server B) \<Longrightarrow> m = view B (NewMemoryStore B)"
  by (auto simp: cluster_state_def new_server_def settled_def shard_run_def)

lemma two_shards_inv: "cluster_inv sl_btree sl_inv two_shards"
  using sl.store_inv_New by (auto simp: cluster_inv_def two_shards_def new_server_def ran_def)

theorem distributed_commit_witness:
  "\<exists>c' calls cl1 cl2 srv.
     coord_Commit (cluster_net sl_btree any_parser id) id id 9 (lit ''txn-7'') two_coordinator two_shards = (c', calls, cl1, None) \<and>
     net_exec (cluster_net sl_btree any_parser id) (cluster_step sl_btree any_parser) calls cl1 cl2 \<and>
     cl2 (lit ''http://s2'') = Some srv \<and>
     versions (view sl_btree (sn_engine (srv_node srv))) (lit ''z'') 9 = Some (Some (lit ''2''))"
proof -
  let ?P = any_parser
  obtain c' calls cl1 err where r:
    "coord_Commit (cluster_net sl_btree ?P id) id id 9 (lit ''txn-7'') two_coordinator two_shards = (c', calls, cl1, err)"
    by (rule commit_result)
  obtain cl2 where cl2: "net_exec (cluster_net sl_btree ?P id) (cluster_step sl_btree ?P) calls cl1 cl2" "all_applied cl2"
    using commit_drains [OF lazy.shard_cluster_axioms _ r] by (auto simp: two_shards_def)
  have free: "available m k txn" if "cluster_state sl_btree ?P two_shards a = Some m" for m a k txn
    using new_server_state [OF that] that
    by (auto simp: two_shards_def cluster_state_def available_def NewMemoryStore_def split: if_splits)
  show ?thesis
    using distributed_commit [OF lazy.shard_cluster_axioms two_shards_inv two_facts(5) two_txn _ _ _ _ _ _ _ r refl cl2]
      two_facts two_locate free r cl2
    by (auto simp: two_shards_def simp del: view_sel)
qed

end
