(* ===== verification/Raft_Types.thy ===== *)
theory Raft_Types
  imports Go_Lib
begin

text \<open>
  What \<^verbatim>\<open>internal/raft\<close> takes from \<^verbatim>\<open>go.etcd.io/etcd/raft\<close>: the messages and records of
  \<^verbatim>\<open>raftpb\<close> with the fields the code uses, their wire format, and the in-memory log store
  \<^verbatim>\<open>raft.MemoryStorage\<close>.  The package is not part of the repository: the wire format and the
  store are parameters, and the locales state the documented behaviour the code relies on.
  A byte codec and a list implementation show that the laws can be met.
\<close>

section \<open>raftpb\<close>

datatype EntryType = EntryNormal | EntryConfChange

record Entry =
  en_Term :: u64
  en_Index :: u64
  en_Type :: EntryType
  en_Data :: bytes

record HardState =
  hs_Term :: u64
  hs_Vote :: u64
  hs_Commit :: u64

record RaftSnapshot =
  sn_Data :: bytes
  sn_Voters :: "u64 list"
  sn_Index :: u64
  sn_Term :: u64

definition IsEmptyHardState :: "HardState \<Rightarrow> bool" where
  "IsEmptyHardState st \<longleftrightarrow> st = \<lparr>hs_Term = 0, hs_Vote = 0, hs_Commit = 0\<rparr>"

definition IsEmptySnap :: "RaftSnapshot \<Rightarrow> bool" where
  "IsEmptySnap sp \<longleftrightarrow> sn_Index sp = 0"

section \<open>The wire format\<close>

text \<open>
  Records of the log file: \<^verbatim>\<open>json.Marshal\<close> of a type and the protobuf bytes.  Marshalling may
  fail, decoding may fail.
\<close>

record Record =
  rec_Type :: int
  rec_Data :: bytes

record raft_codec =
  marshal_Entry :: "Entry \<Rightarrow> bytes option"
  unmarshal_Entry :: "bytes \<Rightarrow> Entry option"
  marshal_HardState :: "HardState \<Rightarrow> bytes option"
  unmarshal_HardState :: "bytes \<Rightarrow> HardState option"
  marshal_Snapshot :: "RaftSnapshot \<Rightarrow> bytes option"
  unmarshal_Snapshot :: "bytes \<Rightarrow> RaftSnapshot option"
  json_Marshal :: "Record \<Rightarrow> bytes option"
  json_Unmarshal :: "bytes \<Rightarrow> Record option"

locale wire_format =
  fixes C :: raft_codec
  assumes Entry_rt: "marshal_Entry C e = Some b \<Longrightarrow> unmarshal_Entry C b = Some e"
    and HardState_rt: "marshal_HardState C hs = Some b \<Longrightarrow> unmarshal_HardState C b = Some hs"
    and Snapshot_rt: "marshal_Snapshot C sp = Some b \<Longrightarrow> unmarshal_Snapshot C b = Some sp"
    and Record_rt: "json_Marshal C r = Some b \<Longrightarrow> json_Unmarshal C b = Some r"

text \<open>A codec of fixed-width fields.\<close>

definition be_marshal_Entry :: "Entry \<Rightarrow> bytes option" where
  "be_marshal_Entry e = Some (PutUint64 (en_Term e) @ PutUint64 (en_Index e) @
     (case en_Type e of EntryNormal \<Rightarrow> 0 | EntryConfChange \<Rightarrow> 1) # en_Data e)"

definition be_unmarshal_Entry :: "bytes \<Rightarrow> Entry option" where
  "be_unmarshal_Entry b =
     (case drop 16 b of
        [] \<Rightarrow> None
      | t # d \<Rightarrow> Some \<lparr>en_Term = Uint64 b, en_Index = Uint64 (drop 8 b),
          en_Type = (if t = 0 then EntryNormal else EntryConfChange), en_Data = d\<rparr>)"

definition be_marshal_HardState :: "HardState \<Rightarrow> bytes option" where
  "be_marshal_HardState h = Some (PutUint64 (hs_Term h) @ PutUint64 (hs_Vote h) @ PutUint64 (hs_Commit h))"

definition be_unmarshal_HardState :: "bytes \<Rightarrow> HardState option" where
  "be_unmarshal_HardState b =
     Some \<lparr>hs_Term = Uint64 b, hs_Vote = Uint64 (drop 8 b), hs_Commit = Uint64 (drop 16 b)\<rparr>"

fun be_voters :: "nat \<Rightarrow> bytes \<Rightarrow> u64 list \<times> bytes" where
  "be_voters 0 b = ([], b)"
| "be_voters (Suc n) b = (case be_voters n (drop 8 b) of (vs, rest) \<Rightarrow> (Uint64 b # vs, rest))"

definition be_marshal_Snapshot :: "RaftSnapshot \<Rightarrow> bytes option" where
  "be_marshal_Snapshot s =
     (if length (sn_Voters s) < 2 ^ 64
      then Some (PutUint64 (sn_Index s) @ PutUint64 (sn_Term s) @ PutUint64 (of_nat (length (sn_Voters s))) @
             concat (map PutUint64 (sn_Voters s)) @ sn_Data s)
      else None)"

definition be_unmarshal_Snapshot :: "bytes \<Rightarrow> RaftSnapshot option" where
  "be_unmarshal_Snapshot b =
     (case be_voters (unat (Uint64 (drop 16 b))) (drop 24 b) of
        (vs, d) \<Rightarrow> Some \<lparr>sn_Data = d, sn_Voters = vs, sn_Index = Uint64 b, sn_Term = Uint64 (drop 8 b)\<rparr>)"

definition be_Marshal :: "Record \<Rightarrow> bytes option" where
  "be_Marshal r =
     (if 0 \<le> rec_Type r \<and> rec_Type r < 256 then Some (of_int (rec_Type r) # rec_Data r) else None)"

definition be_Unmarshal :: "bytes \<Rightarrow> Record option" where
  "be_Unmarshal b = (case b of [] \<Rightarrow> None | t # d \<Rightarrow> Some \<lparr>rec_Type = uint t, rec_Data = d\<rparr>)"

definition be_codec :: raft_codec where
  "be_codec = \<lparr>
     marshal_Entry = be_marshal_Entry, unmarshal_Entry = be_unmarshal_Entry,
     marshal_HardState = be_marshal_HardState, unmarshal_HardState = be_unmarshal_HardState,
     marshal_Snapshot = be_marshal_Snapshot, unmarshal_Snapshot = be_unmarshal_Snapshot,
     json_Marshal = be_Marshal, json_Unmarshal = be_Unmarshal\<rparr>"

lemma be_voters_concat: "be_voters (length vs) (concat (map PutUint64 vs) @ d) = (vs, d)"
  by (induction vs) auto

lemma drop_PutUint64 [simp]: "8 \<le> n \<Longrightarrow> drop n (PutUint64 v @ xs) = drop (n - 8) xs"
  by simp

interpretation be: wire_format be_codec
proof
  fix e b
  assume "marshal_Entry be_codec e = Some b"
  then show "unmarshal_Entry be_codec b = Some e"
    by (auto simp: be_codec_def be_marshal_Entry_def be_unmarshal_Entry_def split: EntryType.splits)
next
  fix h b
  assume "marshal_HardState be_codec h = Some b"
  then show "unmarshal_HardState be_codec b = Some h"
    using Uint64_PutUint64 [of _ "[]"]
    by (auto simp: be_codec_def be_marshal_HardState_def be_unmarshal_HardState_def)
next
  fix s b
  assume "marshal_Snapshot be_codec s = Some b"
  then show "unmarshal_Snapshot be_codec b = Some s"
    by (auto simp: be_codec_def be_marshal_Snapshot_def be_unmarshal_Snapshot_def be_voters_concat
        unat_of_nat split: if_splits)
next
  fix r b
  assume "json_Marshal be_codec r = Some b"
  then show "json_Unmarshal be_codec b = Some r"
    by (auto simp: be_codec_def be_Marshal_def be_Unmarshal_def uint_word_of_int split: if_splits)
qed

section \<open>The log store\<close>

text \<open>
  The operations of \<^verbatim>\<open>raft.MemoryStorage\<close>.  A flag or an option says whether an operation
  returned without error.
\<close>

record 'm mem_ops =
  mem_New :: 'm
  mem_Append :: "'m \<Rightarrow> Entry list \<Rightarrow> 'm"
  mem_SetHardState :: "'m \<Rightarrow> HardState \<Rightarrow> 'm"
  mem_ApplySnapshot :: "'m \<Rightarrow> RaftSnapshot \<Rightarrow> 'm \<times> bool"
  mem_CreateSnapshot :: "'m \<Rightarrow> u64 \<Rightarrow> u64 list \<Rightarrow> bytes \<Rightarrow> 'm \<times> RaftSnapshot option"
  mem_Compact :: "'m \<Rightarrow> u64 \<Rightarrow> 'm \<times> bool"
  mem_FirstIndex :: "'m \<Rightarrow> u64"
  mem_LastIndex :: "'m \<Rightarrow> u64"

text \<open>Entries as a leader or follower appends them: indices go up by one.\<close>

fun consecutive :: "Entry list \<Rightarrow> bool" where
  "consecutive (a # b # es) \<longleftrightarrow>
     en_Index b = en_Index a + 1 \<and> en_Index a < en_Index b \<and> consecutive (b # es)"
| "consecutive _ \<longleftrightarrow> True"

text \<open>
  The laws: appending a batch of consecutive entries is appending them one by one, applying a
  newer snapshot overwrites the contents of the store with it, creating a snapshot keeps the
  entries, and compaction drops the entries up to the index.  \<open>ents\<close> are the entries the
  store can return, \<open>snap\<close> its snapshot.
\<close>

locale log_store =
  fixes M :: "'m mem_ops" and ents :: "'m \<Rightarrow> Entry list" and snap :: "'m \<Rightarrow> RaftSnapshot"
  assumes Append_Nil: "mem_Append M m [] = m"
    and Append_batch: "consecutive (e # es) \<Longrightarrow> mem_Append M m (e # es) = mem_Append M (mem_Append M m [e]) es"
    and ApplySnapshot_new: "sn_Index (snap m) < sn_Index s \<Longrightarrow> mem_ApplySnapshot M m s = (m', ok) \<Longrightarrow>
      ok \<and> ents m' = [] \<and> snap m' = s"
    and CreateSnapshot_ok: "mem_CreateSnapshot M m i cs d = (m', Some s) \<Longrightarrow>
      sn_Index (snap m) < i \<and> sn_Index s = i \<and> sn_Data s = d \<and> sn_Voters s = cs \<and>
      ents m' = ents m \<and> snap m' = s"
    and CreateSnapshot_fail: "mem_CreateSnapshot M m i cs d = (m', None) \<Longrightarrow> m' = m"
    and Compact_ok: "mem_Compact M m i = (m', True) \<Longrightarrow>
      ents m' = filter (\<lambda>e. i < en_Index e) (ents m) \<and> snap m' = snap m"
begin

lemma Append_fold: "consecutive es \<Longrightarrow> mem_Append M m es = fold (\<lambda>e m. mem_Append M m [e]) es m"
proof (induction es arbitrary: m)
  case Nil
  then show ?case by (simp add: Append_Nil)
next
  case (Cons e es)
  then have "consecutive es" by (cases es) auto
  with Cons.IH show ?case
    unfolding Append_batch [OF Cons.prems] by simp
qed

end

text \<open>A store of lists, with the offset of its first entry.\<close>

record list_store =
  ls_hs :: HardState
  ls_snap :: RaftSnapshot
  ls_off :: u64
  ls_ents :: "Entry list"

definition ls_Append :: "list_store \<Rightarrow> Entry list \<Rightarrow> list_store" where
  "ls_Append m es =
     (case dropWhile (\<lambda>e. en_Index e \<le> ls_off m) es of
        [] \<Rightarrow> m
      | e # es' \<Rightarrow> m\<lparr>ls_ents := takeWhile (\<lambda>x. en_Index x < en_Index e) (ls_ents m) @ e # es'\<rparr>)"

definition ls_Last :: "list_store \<Rightarrow> u64" where
  "ls_Last m = (if ls_ents m = [] then ls_off m else en_Index (last (ls_ents m)))"

definition list_mem_ops :: "list_store mem_ops" where
  "list_mem_ops = \<lparr>
     mem_New = \<lparr>ls_hs = \<lparr>hs_Term = 0, hs_Vote = 0, hs_Commit = 0\<rparr>,
       ls_snap = \<lparr>sn_Data = [], sn_Voters = [], sn_Index = 0, sn_Term = 0\<rparr>, ls_off = 0, ls_ents = []\<rparr>,
     mem_Append = ls_Append,
     mem_SetHardState = (\<lambda>m h. m\<lparr>ls_hs := h\<rparr>),
     mem_ApplySnapshot = (\<lambda>m s.
       if sn_Index s \<le> sn_Index (ls_snap m) then (m, False)
       else (m\<lparr>ls_snap := s, ls_off := sn_Index s, ls_ents := []\<rparr>, True)),
     mem_CreateSnapshot = (\<lambda>m i cs d.
       if i \<le> sn_Index (ls_snap m) then (m, None)
       else let s = \<lparr>sn_Data = d, sn_Voters = cs, sn_Index = i,
                     sn_Term = (case find (\<lambda>e. en_Index e = i) (ls_ents m) of Some e \<Rightarrow> en_Term e | None \<Rightarrow> 0)\<rparr>
            in (m\<lparr>ls_snap := s\<rparr>, Some s)),
     mem_Compact = (\<lambda>m i.
       if i \<le> ls_off m \<or> ls_Last m < i then (m, False)
       else (m\<lparr>ls_off := i, ls_ents := filter (\<lambda>e. i < en_Index e) (ls_ents m)\<rparr>, True)),
     mem_FirstIndex = (\<lambda>m. ls_off m + 1),
     mem_LastIndex = ls_Last\<rparr>"

lemma ls_Append_batch:
  assumes "consecutive (e # es)"
  shows "ls_Append m (e # es) = ls_Append (ls_Append m [e]) es"
proof (cases es)
  case Nil
  then show ?thesis by (simp add: ls_Append_def)
next
  case (Cons f fs)
  with assms have ef: "en_Index e < en_Index f" by (metis consecutive.simps(1))
  have tw: "takeWhile (\<lambda>x. en_Index x < en_Index f) (takeWhile (\<lambda>x. en_Index x < en_Index e) xs @ [e]) =
      takeWhile (\<lambda>x. en_Index x < en_Index e) xs @ [e]" for xs
    using ef by (auto simp: takeWhile_append dest!: set_takeWhileD)
  show ?thesis
  proof (cases "en_Index e \<le> ls_off m")
    case True
    then show ?thesis by (simp add: ls_Append_def)
  next
    case False
    with ef have "\<not> en_Index f \<le> ls_off m" by auto
    with False show ?thesis by (simp add: ls_Append_def Cons tw)
  qed
qed

interpretation ls: log_store list_mem_ops ls_ents ls_snap
proof (unfold_locales, goal_cases)
  case (1 m)
  then show ?case by (simp add: list_mem_ops_def ls_Append_def)
next
  case (2 e es m)
  have "mem_Append list_mem_ops = ls_Append" by (simp add: list_mem_ops_def)
  with 2 show ?case by (simp only: ls_Append_batch)
next
  case (3 m s m' ok)
  then show ?case by (auto simp: list_mem_ops_def split: if_splits)
next
  case (4 m i cs d m' s)
  then show ?case by (auto simp: list_mem_ops_def Let_def split: if_splits)
next
  case (5 m i cs d m')
  then show ?case by (auto simp: list_mem_ops_def Let_def split: if_splits)
next
  case (6 m i m')
  then show ?case by (auto simp: list_mem_ops_def split: if_splits)
qed

end
