(* ===== verification/Json_Bytes.thy ===== *)
theory Json_Bytes
  imports Go_Struct Raft_Types
begin

text \<open>
  JSON bodies with byte slices: the items of the migration endpoints of the shard server, and
  the records of the raft log file.
\<close>

section \<open>Export items\<close>

definition item_json :: "bytes \<times> slice \<Rightarrow> json" where
  "item_json kv = ObjV [(lit ''k'', slice_json (Some (fst kv))), (lit ''v'', slice_json (snd kv))]"

text \<open>Without items the slice is \<open>nil\<close>.\<close>

definition encode_items :: "(bytes \<times> slice) list \<Rightarrow> bytes" where
  "encode_items items = json_print (if items = [] then NullV else ArrV (map item_json items)) @ [10]"

text \<open>The state is the item and whether no error occurred.\<close>

definition item_member :: "bytes \<times> json \<Rightarrow> slice \<times> slice \<times> bool \<Rightarrow> slice \<times> slice \<times> bool" where
  "item_member m st =
     (case st of (k, v, ok) \<Rightarrow>
        (case struct_field [lit ''k'', lit ''v''] (fst m) of
           None \<Rightarrow> st
         | Some f \<Rightarrow>
             (case slice_field (snd m) of
                None \<Rightarrow> (k, v, False)
              | Some x \<Rightarrow> if f = lit ''k'' then (x, v, ok) else (k, x, ok))))"

definition item_elem :: "json \<Rightarrow> (bytes \<times> slice) option" where
  "item_elem j =
     (case j of
        ObjV ms \<Rightarrow>
          (case fold item_member ms (None, None, True) of
             (k, v, ok) \<Rightarrow> if ok then Some (slice_bytes k, v) else None)
      | NullV \<Rightarrow> Some ([], None)
      | _ \<Rightarrow> None)"

text \<open>\<^verbatim>\<open>Decoder.Decode\<close> reads one value and leaves what follows it.\<close>

definition decode_items :: "bytes \<Rightarrow> (bytes \<times> slice) list option" where
  "decode_items body =
     (case parse_value 10000 body of
        Some (ArrV js, _) \<Rightarrow> those (map item_elem js)
      | Some (NullV, _) \<Rightarrow> Some []
      | _ \<Rightarrow> None)"

lemma item_names:
  "struct_field [lit ''k'', lit ''v''] (lit ''k'') = Some (lit ''k'')"
  "struct_field [lit ''k'', lit ''v''] (lit ''v'') = Some (lit ''v'')"
  "lit ''v'' \<noteq> lit ''k''" "json_string (lit ''k'') = lit ''k''" "json_string (lit ''v'') = lit ''v''"
  by code_simp+

lemma item_elem_json: "item_elem (json_coerce (item_json kv)) = Some kv"
proof -
  have "json_coerce (item_json kv) =
      ObjV [(lit ''k'', json_coerce (slice_json (Some (fst kv)))), (lit ''v'', json_coerce (slice_json (snd kv)))]"
    by (simp add: item_json_def item_names)
  then show ?thesis
    by (simp add: item_elem_def item_member_def item_names slice_field_json slice_bytes_def)
qed

lemma decode_encode_items: "decode_items (encode_items items) = Some items"
proof (cases "items = []")
  case True
  then show ?thesis by (simp add: encode_items_def decode_items_def parse_words)
next
  case False
  have "json_fits (Suc (Suc d)) (ArrV (map item_json items))" for d
    by (auto simp: item_json_def slice_json_fits)
  from this [of 9998] have "json_fits 10000 (ArrV (map item_json items))" by simp
  from json_parse_print_aux(1) [OF this, of "[10]"] False
  have "parse_value 10000 (encode_items items) = Some (ArrV (map (json_coerce \<circ> item_json) items), [10])"
    by (simp add: encode_items_def)
  then show ?thesis
    by (simp add: decode_items_def those_map_Some [where g = id] item_elem_json)
qed

section \<open>Log records\<close>

text \<open>The record types are 1, 2 and 3; a negative one never occurs and is left out.\<close>

definition record_Marshal :: "Record \<Rightarrow> bytes option" where
  "record_Marshal r =
     (if 0 \<le> rec_Type r \<and> rec_Type r < 2 ^ 63
      then Some (json_print (ObjV [(lit ''Type'', NumV (Sprint_d (nat (rec_Type r)))), (lit ''Data'', slice_json (Some (rec_Data r)))]))
      else None)"

definition record_member :: "bytes \<times> json \<Rightarrow> int \<times> slice \<times> bool \<Rightarrow> int \<times> slice \<times> bool" where
  "record_member m st =
     (case st of (t, d, ok) \<Rightarrow>
        (case struct_field [lit ''Type'', lit ''Data''] (fst m) of
           None \<Rightarrow> st
         | Some f \<Rightarrow>
             if f = lit ''Type''
             then (case snd m of
                     NumV l \<Rightarrow>
                       if list_all is_digit l \<and> digits_nat l < 2 ^ 63 then (int (digits_nat l), d, ok) else (t, d, False)
                   | NullV \<Rightarrow> st
                   | _ \<Rightarrow> (t, d, False))
             else (case slice_field (snd m) of Some x \<Rightarrow> (t, x, ok) | None \<Rightarrow> (t, d, False))))"

definition record_Unmarshal :: "bytes \<Rightarrow> Record option" where
  "record_Unmarshal data =
     (case json_parse data of
        Some (ObjV ms) \<Rightarrow>
          (case fold record_member ms (0, None, True) of
             (t, d, ok) \<Rightarrow> if ok then Some \<lparr>rec_Type = t, rec_Data = slice_bytes d\<rparr> else None)
      | Some NullV \<Rightarrow> Some \<lparr>rec_Type = 0, rec_Data = []\<rparr>
      | _ \<Rightarrow> None)"

lemma record_names:
  "struct_field [lit ''Type'', lit ''Data''] (lit ''Type'') = Some (lit ''Type'')"
  "struct_field [lit ''Type'', lit ''Data''] (lit ''Data'') = Some (lit ''Data'')"
  "lit ''Data'' \<noteq> lit ''Type''" "json_string (lit ''Type'') = lit ''Type''" "json_string (lit ''Data'') = lit ''Data''"
  by code_simp+

lemma record_roundtrip:
  assumes "record_Marshal r = Some b"
  shows "record_Unmarshal b = Some r"
proof -
  let ?j = "ObjV [(lit ''Type'', NumV (Sprint_d (nat (rec_Type r)))), (lit ''Data'', slice_json (Some (rec_Data r)))]"
  have t: "0 \<le> rec_Type r" "rec_Type r < 2 ^ 63" and b: "b = json_print ?j"
    using assms by (auto simp: record_Marshal_def split: if_splits)
  have "json_fits (Suc d) ?j" for d by (simp add: Sprint_d_plain slice_json_fits)
  from this [of 9999] have fits: "json_fits 10000 ?j" by simp
  have n: "list_all is_digit (Sprint_d (nat (rec_Type r)))" "digits_nat (Sprint_d (nat (rec_Type r))) = nat (rec_Type r)"
    using Sprint_d_digits [of "nat (rec_Type r)"] by (auto simp: list_all_iff)
  have lt: "nat (rec_Type r) < 2 ^ 63" using t by (simp add: nat_less_iff)
  have "json_parse b = Some (ObjV [(lit ''Type'', NumV (Sprint_d (nat (rec_Type r)))),
      (lit ''Data'', json_coerce (slice_json (Some (rec_Data r))))])"
    using json_parse_print(1) [OF fits] b by (simp add: record_names)
  then show ?thesis
    using t n lt by (simp add: record_Unmarshal_def record_member_def record_names slice_field_json slice_bytes_def)
qed

text \<open>The file format of the log with these records, over any encoding of the messages inside.\<close>

definition file_codec :: "raft_codec \<Rightarrow> raft_codec" where
  "file_codec C = C\<lparr>json_Marshal := record_Marshal, json_Unmarshal := record_Unmarshal\<rparr>"

interpretation fileb: wire_format "file_codec be_codec"
proof (unfold_locales, goal_cases)
  case (1 e b)
  then show ?case using be.Entry_rt by (simp add: file_codec_def)
next
  case (2 hs b)
  then show ?case using be.HardState_rt by (simp add: file_codec_def)
next
  case (3 sp b)
  then show ?case using be.Snapshot_rt by (simp add: file_codec_def)
next
  case (4 r b)
  then show ?case by (simp add: file_codec_def record_roundtrip)
qed

end
