(* ===== verification/Wal.thy ===== *)
theory Wal
  imports Go_Lib
begin

text \<open>
  The write-ahead log of \<^verbatim>\<open>internal/storage/wal/wal.go\<close>: entries framed by length and
  CRC-32, appended to a file and read back.  The file is its content and the read position;
  \<^verbatim>\<open>O_APPEND\<close> makes every write go to the end.  How many bytes a write gets onto the disk
  before it fails is the environment's choice, a parameter of \<open>wal_Append\<close>.  Seeks on an open
  regular file do not fail.
\<close>

unbundle bit_operations_syntax

section \<open>CRC-32 (hash/crc32, IEEE polynomial)\<close>

definition crc_shift :: "u32 \<Rightarrow> u32" where
  "crc_shift c = (if c AND 1 = 1 then drop_bit 1 c XOR 0xEDB88320 else drop_bit 1 c)"

definition crc_byte :: "byte \<Rightarrow> u32 \<Rightarrow> u32" where
  "crc_byte b c = (crc_shift ^^ 8) (c XOR ucast b)"

definition ChecksumIEEE :: "bytes \<Rightarrow> u32" where
  "ChecksumIEEE data = NOT (fold crc_byte data (NOT 0))"

section \<open>The log file\<close>

record WAL =
  wal_f :: bytes        \<comment> \<open>the content of the file\<close>
  wal_pos :: nat        \<comment> \<open>the read position\<close>
  wal_path :: bytes

datatype io_error = EOF | ErrUnexpectedEOF | WriteFailed | SyncFailed | OpenFailed

text \<open>Opening creates the file when it does not exist; \<open>existing\<close> is what the disk holds.\<close>

definition wal_Open :: "bool \<Rightarrow> bytes option \<Rightarrow> bytes \<Rightarrow> io_error + WAL" where
  "wal_Open ok existing path =
     (if \<not> ok then Inl OpenFailed
      else Inr \<lparr>wal_f = (case existing of None \<Rightarrow> [] | Some c \<Rightarrow> c), wal_pos = 0, wal_path = path\<rparr>)"

text \<open>A write of which at most \<open>room\<close> bytes reach the disk: the log, the room left, success.\<close>

definition f_Write :: "bytes \<Rightarrow> WAL \<Rightarrow> nat \<Rightarrow> WAL \<times> nat \<times> bool" where
  "f_Write data w room =
     (let n = min room (length data); f' = wal_f w @ take n data
      in (w\<lparr>wal_f := f', wal_pos := length f'\<rparr>, room - n, n = length data))"

definition wal_Append :: "nat \<Rightarrow> bool \<Rightarrow> bytes \<Rightarrow> WAL \<Rightarrow> WAL \<times> io_error option" where
  "wal_Append room sync_ok data w =
     (case f_Write (PutUint32 (of_nat (length data))) w room of (w1, room1, ok1) \<Rightarrow>
        if \<not> ok1 then (w1, Some WriteFailed)
        else case f_Write data w1 room1 of (w2, room2, ok2) \<Rightarrow>
          if \<not> ok2 then (w2, Some WriteFailed)
          else case f_Write (PutUint32 (ChecksumIEEE data)) w2 room2 of (w3, _, ok3) \<Rightarrow>
            if \<not> ok3 then (w3, Some WriteFailed)
            else (w3, if sync_ok then None else Some SyncFailed))"

text \<open>\<^verbatim>\<open>io.ReadFull\<close> of \<open>n\<close> bytes from what is left of the file.\<close>

definition ReadFull :: "nat \<Rightarrow> bytes \<Rightarrow> (io_error + bytes) \<times> bytes" where
  "ReadFull n rest =
     (if n \<le> length rest then (Inr (take n rest), drop n rest)
      else if rest = [] then (Inl EOF, [])
      else (Inl ErrUnexpectedEOF, []))"

text \<open>
  The loop of \<open>Iterate\<close> over what is left of the file, with the handler's state \<open>x\<close>; the
  result is the state, the error and what was left when the loop ended.
\<close>

datatype 'e iter_error = IoError io_error | HandlerError 'e

function wal_loop ::
  "(bytes \<Rightarrow> 'x \<Rightarrow> 'e option \<times> 'x) \<Rightarrow> bytes \<Rightarrow> 'x \<Rightarrow> 'x \<times> 'e iter_error option \<times> bytes" where
  "wal_loop handler rest x =
     (case ReadFull 4 rest of
        (Inl err, rest1) \<Rightarrow> if err = EOF then (x, None, rest1) else (x, Some (IoError err), rest1)
      | (Inr lenBuf, rest1) \<Rightarrow>
          (case ReadFull (unat (Uint32 lenBuf)) rest1 of
             (Inl err, rest2) \<Rightarrow> (x, Some (IoError err), rest2)
           | (Inr data, rest2) \<Rightarrow>
               (case ReadFull 4 rest2 of
                  (Inl err, rest3) \<Rightarrow> (x, Some (IoError err), rest3)
                | (Inr crcBuf, rest3) \<Rightarrow>
                    if ChecksumIEEE data \<noteq> Uint32 crcBuf then (x, Some (IoError ErrUnexpectedEOF), rest3)
                    else (case handler data x of
                            (Some err, x') \<Rightarrow> (x', Some (HandlerError err), rest3)
                          | (None, x') \<Rightarrow> wal_loop handler rest3 x'))))"
  by pat_completeness auto
termination
  by (relation "measure (\<lambda>(h, rest, x). length rest)")
     (auto simp: ReadFull_def split: if_splits)

declare wal_loop.simps [simp del]

definition wal_Iterate ::
  "(bytes \<Rightarrow> 'x \<Rightarrow> 'e option \<times> 'x) \<Rightarrow> WAL \<Rightarrow> 'x \<Rightarrow> WAL \<times> 'x \<times> 'e iter_error option" where
  "wal_Iterate handler w x =
     (case wal_loop handler (wal_f w) x of
        (x', Some err, rest) \<Rightarrow> (w\<lparr>wal_pos := length (wal_f w) - length rest\<rparr>, x', Some err)
      | (x', None, rest) \<Rightarrow> (w\<lparr>wal_pos := length (wal_f w)\<rparr>, x', None))"

section \<open>Frames\<close>

definition frame :: "bytes \<Rightarrow> bytes" where
  "frame data = PutUint32 (of_nat (length data)) @ data @ PutUint32 (ChecksumIEEE data)"

text \<open>An entry whose length fits the length field.\<close>

definition entry_fits :: "bytes \<Rightarrow> bool" where
  "entry_fits data \<longleftrightarrow> length data < 2 ^ 32"

lemma length_frame [simp]: "length (frame data) = length data + 8"
  by (simp add: frame_def)

lemma Uint32_PutUint32' [simp]: "Uint32 (PutUint32 v) = v"
  using Uint32_PutUint32 [of v "[]"] by simp

lemma unat_length: "entry_fits data \<Longrightarrow> unat (of_nat (length data) :: u32) = length data"
  by (simp add: entry_fits_def unat_of_nat)

lemma ReadFull_append [simp]: "length xs = n \<Longrightarrow> ReadFull n (xs @ ys) = (Inr xs, ys)"
  by (simp add: ReadFull_def)

lemma wal_loop_Nil [simp]: "wal_loop handler [] x = (x, None, [])"
  by (simp add: wal_loop.simps [of handler "[]"] ReadFull_def)

text \<open>One whole frame is handed to the handler.\<close>

lemma wal_loop_frame:
  assumes "entry_fits data"
  shows "wal_loop handler (frame data @ rest) x =
    (case handler data x of
       (Some err, x') \<Rightarrow> (x', Some (HandlerError err), rest)
     | (None, x') \<Rightarrow> wal_loop handler rest x')"
proof -
  let ?f = "PutUint32 (of_nat (length data)) @ data @ PutUint32 (ChecksumIEEE data) @ rest"
  have "wal_loop handler ?f x =
    (case handler data x of
       (Some err, x') \<Rightarrow> (x', Some (HandlerError err), rest)
     | (None, x') \<Rightarrow> wal_loop handler rest x')"
    by (simp add: wal_loop.simps [of handler ?f] unat_length [OF assms])
  then show ?thesis by (simp add: frame_def)
qed

text \<open>A proper, non-empty part of a frame is an error, and the handler is not called.\<close>

lemma wal_loop_torn:
  assumes "entry_fits data" and "0 < n" and "n < length (frame data)"
  shows "\<exists>err rest. wal_loop handler (take n (frame data)) x = (x, Some (IoError err), rest)"
proof -
  let ?len = "PutUint32 (of_nat (length data))"
  consider "n < 4" | "4 \<le> n" "n < 4 + length data" | "4 + length data \<le> n" by linarith
  then show ?thesis
  proof cases
    case 1
    then have "ReadFull 4 (take n (frame data)) = (Inl ErrUnexpectedEOF, [])"
      using assms by (auto simp: ReadFull_def length_greater_0_conv [symmetric] simp del: length_greater_0_conv)
    then show ?thesis by (simp add: wal_loop.simps [of handler "take n (frame data)"])
  next
    case 2
    then have "take n (frame data) = ?len @ take (n - 4) data"
      by (simp add: frame_def)
    then show ?thesis
      using 2 by (auto simp: wal_loop.simps [of handler "?len @ take (n - 4) data"]
          unat_length [OF assms(1)] ReadFull_def [of "length data"])
  next
    case 3
    define c where "c = take (n - 4 - length data) (PutUint32 (ChecksumIEEE data))"
    have "take n (frame data) = ?len @ data @ c"
      using 3 by (simp add: frame_def c_def)
    moreover have "length c < 4" using 3 assms(3) by (simp add: c_def)
    ultimately show ?thesis
      by (auto simp: wal_loop.simps [of handler "?len @ data @ c"]
          unat_length [OF assms(1)] ReadFull_def [of 4 c])
  qed
qed

text \<open>The handler run over a list of entries until it fails.\<close>

fun handle_all :: "(bytes \<Rightarrow> 'x \<Rightarrow> 'e option \<times> 'x) \<Rightarrow> bytes list \<Rightarrow> 'x \<Rightarrow> 'e option \<times> 'x" where
  "handle_all handler [] x = (None, x)"
| "handle_all handler (d # ds) x =
     (case handler d x of (Some err, x') \<Rightarrow> (Some err, x') | (None, x') \<Rightarrow> handle_all handler ds x')"

lemma wal_loop_frames:
  assumes "\<forall>d \<in> set ds. entry_fits d" and "handle_all handler ds x = (None, x')"
  shows "wal_loop handler (concat (map frame ds) @ rest) x = wal_loop handler rest x'"
  using assms
  by (induction ds arbitrary: x) (auto simp: wal_loop_frame split: prod.splits option.splits)

lemma wal_loop_frames_error:
  assumes "\<forall>d \<in> set ds. entry_fits d" and "handle_all handler ds x = (Some err, x')"
  shows "\<exists>r. wal_loop handler (concat (map frame ds) @ rest) x = (x', Some (HandlerError err), r)"
  using assms
  by (induction ds arbitrary: x) (auto simp: wal_loop_frame split: prod.splits option.splits)

lemma wal_Append_frame:
  "wal_f (fst (wal_Append room sync_ok data w)) = wal_f w @ take room (frame data)"
  "snd (wal_Append room sync_ok data w) = None \<longleftrightarrow> sync_ok \<and> length (frame data) \<le> room"
  by (auto simp: wal_Append_def f_Write_def frame_def Let_def min_def)

text \<open>A whole number of frames, written by successful appends.\<close>

definition wal_append_all :: "bytes list \<Rightarrow> WAL \<Rightarrow> WAL" where
  "wal_append_all ds w = fold (\<lambda>d w. fst (wal_Append (length (frame d)) True d w)) ds w"

lemma wal_append_all_f [simp]: "wal_f (wal_append_all ds w) = wal_f w @ concat (map frame ds)"
  by (induction ds arbitrary: w) (auto simp: wal_append_all_def wal_Append_frame)

text \<open>What a reader gets from a file: the handler that collects the entries.\<close>

definition collect :: "bytes \<Rightarrow> bytes list \<Rightarrow> unit option \<times> bytes list" where
  "collect d ds = (None, ds @ [d])"

definition wal_read :: "WAL \<Rightarrow> bytes list \<times> unit iter_error option" where
  "wal_read w = snd (wal_Iterate collect w [])"

lemma handle_all_collect [simp]: "handle_all collect ds xs = (None, xs @ ds)"
  by (induction ds arbitrary: xs) (auto simp: collect_def)

lemma wal_read_loop:
  "wal_loop collect (wal_f w) [] = (xs, err, rest) \<Longrightarrow> wal_read w = (xs, err)"
  by (simp add: wal_read_def wal_Iterate_def split: option.split)

section \<open>CRC-32 detects every change of a single byte\<close>

lemma crc_shift_alt:
  "crc_shift c = (if bit c 0 then drop_bit 1 c XOR 0xEDB88320 else drop_bit 1 c)"
  by (simp add: crc_shift_def and_one_eq bit_0 odd_iff_mod_2_eq_one)

lemma xor_right_cancel: "a XOR k = b XOR k \<longleftrightarrow> a = b" for a b k :: "'a::len word"
  by (metis xor.assoc xor.right_neutral xor_self_eq)

lemma bit_crc_shift_31: "bit (crc_shift c) 31 \<longleftrightarrow> bit c 0"
  by (auto simp: crc_shift_alt bit_simps dest: bit_imp_le_length)

lemma crc_shift_inject: "crc_shift c = crc_shift d \<Longrightarrow> c = d"
proof -
  assume eq: "crc_shift c = crc_shift d"
  then have b0: "bit c 0 \<longleftrightarrow> bit d 0"
    using bit_crc_shift_31 [of c] bit_crc_shift_31 [of d] by simp
  have "drop_bit 1 c = drop_bit 1 d"
    using eq b0 by (auto simp: crc_shift_alt xor_right_cancel split: if_splits)
  then have "bit c (Suc n) \<longleftrightarrow> bit d (Suc n)" for n
    by (metis bit_drop_bit_eq o_apply plus_1_eq_Suc)
  with b0 show "c = d"
    by (intro bit_eqI) (metis not0_implies_Suc)
qed

lemma crc_shifts_inject: "(crc_shift ^^ n) c = (crc_shift ^^ n) d \<Longrightarrow> c = d"
  by (induction n) (auto dest: crc_shift_inject)

lemma crc_byte_inject: "crc_byte b c = crc_byte b d \<Longrightarrow> c = d"
  unfolding crc_byte_def by (metis crc_shifts_inject xor_right_cancel)

lemma crc_byte_inject_byte: "crc_byte a c = crc_byte b c \<Longrightarrow> a = b"
proof -
  assume "crc_byte a c = crc_byte b c"
  then have "ucast a = (ucast b :: u32)"
    unfolding crc_byte_def by (metis crc_shifts_inject xor.commute xor_right_cancel)
  then have "unat (ucast a :: u32) = unat (ucast b :: u32)" by simp
  then have "unat a = unat b"
    using unat_byte_less [of a] unat_byte_less [of b]
    by (simp only: unsigned_ucast_eq) (simp add: take_bit_eq_mod)
  then show "a = b" by (simp add: word_unat_eq_iff)
qed

lemma fold_crc_byte_inject: "fold crc_byte data c = fold crc_byte data d \<Longrightarrow> c = d"
  by (induction data arbitrary: c d) (auto dest: crc_byte_inject)

lemma fold_crc_byte_change:
  "i < length data \<Longrightarrow> fold crc_byte (data[i := b]) c = fold crc_byte data c \<Longrightarrow> b = data ! i"
proof (induction data arbitrary: i c)
  case Nil
  then show ?case by simp
next
  case (Cons a data)
  then show ?case
    by (cases i) (auto dest: fold_crc_byte_inject crc_byte_inject_byte)
qed

lemma ChecksumIEEE_change:
  assumes "i < length data" and "b \<noteq> data ! i"
  shows "ChecksumIEEE (data[i := b]) \<noteq> ChecksumIEEE data"
  using fold_crc_byte_change [OF assms(1), of b] assms(2)
  unfolding ChecksumIEEE_def by (metis bit.double_compl)

text \<open>A frame whose checksum does not match its data ends the reading with an error.\<close>

lemma wal_loop_corrupt:
  assumes "entry_fits data" and "ChecksumIEEE data \<noteq> crc"
  shows "wal_loop handler (PutUint32 (of_nat (length data)) @ data @ PutUint32 crc @ rest) x
    = (x, Some (IoError ErrUnexpectedEOF), rest)"
  using assms(2)
  by (simp add: unat_length [OF assms(1)] wal_loop.simps
      [of handler "PutUint32 (of_nat (length data)) @ data @ PutUint32 crc @ rest"])

section \<open>Properties\<close>

text \<open>
  (C29) What is appended is what is read: after appends that all succeed, a file opened on
  the same path hands the old and the new entries, in the order they were appended, to the
  handler until the handler fails, and ends with the handler's error if it does and without
  error otherwise.
\<close>

theorem wal_roundtrip:
  assumes "\<forall>d \<in> set (old @ ds). entry_fits d"
    and "wal_f w = concat (map frame old)"
    and "wal_Open True (Some (wal_f (wal_append_all ds w))) path = Inr w'"
  shows "(case wal_Iterate handler w' x of (w'', x', err) \<Rightarrow>
      (map_option HandlerError (fst (handle_all handler (old @ ds) x)) = err
       \<and> snd (handle_all handler (old @ ds) x) = x' \<and> wal_f w'' = wal_f w'))"
proof -
  have f: "wal_f w' = concat (map frame (old @ ds)) @ []"
    using assms(2,3) by (auto simp: wal_Open_def)
  show ?thesis
  proof (cases "handle_all handler (old @ ds) x")
    case (Pair err x')
    then show ?thesis
      using wal_loop_frames [OF assms(1), of handler x x' "[]"]
        wal_loop_frames_error [OF assms(1), of handler x _ x' "[]"] f
      by (cases err) (fastforce simp: wal_Iterate_def)+
  qed
qed

theorem wal_roundtrip_witness:
  "\<exists>w'. wal_Open True (Some (wal_f (wal_append_all [lit ''b'', []] \<lparr>wal_f = frame (lit ''a''), wal_pos = 0, wal_path = lit ''x.wal''\<rparr>)))
        (lit ''x.wal'') = Inr w'
     \<and> fst (snd (wal_Iterate collect w' [])) = [lit ''a'', lit ''b'', []]"
proof -
  let ?w = "\<lparr>wal_f = frame (lit ''a''), wal_pos = 0, wal_path = lit ''x.wal''\<rparr>"
  obtain w' where w': "wal_Open True (Some (wal_f (wal_append_all [lit ''b'', []] ?w))) (lit ''x.wal'') = Inr w'"
    by (simp add: wal_Open_def)
  have "\<forall>d \<in> set ([lit ''a''] @ [lit ''b'', []]). entry_fits d"
    by (simp add: entry_fits_def lit_def)
  then have "fst (snd (wal_Iterate collect w' [])) = [lit ''a'', lit ''b'', []]"
    using wal_roundtrip [OF _ _ w', where handler = collect and x = "[]" and old = "[lit ''a'']"]
    by (auto simp: collect_def split: prod.splits)
  with w' show ?thesis by blast
qed

text \<open>
  A crash in the middle of an append: when only a proper, non-empty part of the last
  frame reached the disk, reading hands over exactly the earlier entries and then returns an
  error, however the append ended; when nothing of it reached the disk, reading succeeds.
\<close>

theorem wal_torn_append:
  assumes "\<forall>e \<in> set ds. entry_fits e" and "entry_fits d" and "wal_f w = concat (map frame ds)"
    and "n < length (frame d)"
  shows "snd (wal_Append n sync_ok d w) \<noteq> None
    \<and> fst (wal_read (fst (wal_Append n sync_ok d w))) = ds
    \<and> (snd (wal_read (fst (wal_Append n sync_ok d w))) \<noteq> None \<longleftrightarrow> 0 < n)"
proof -
  let ?w = "fst (wal_Append n sync_ok d w)"
  have loop: "wal_loop collect (wal_f ?w) [] = wal_loop collect (take n (frame d)) ds"
    using wal_loop_frames [OF assms(1), of collect "[]" ds] assms(3)
    by (simp add: wal_Append_frame)
  show ?thesis
  proof (cases "n = 0")
    case True
    with loop have "wal_loop collect (wal_f ?w) [] = (ds, None, [])" by simp
    then have "wal_read ?w = (ds, None)" by (rule wal_read_loop)
    with True assms(4) show ?thesis by (simp add: wal_Append_frame)
  next
    case False
    then obtain err rest where "wal_loop collect (take n (frame d)) ds = (ds, Some (IoError err), rest)"
      using wal_loop_torn [OF assms(2) _ assms(4), of collect ds] by auto
    then have "wal_read ?w = (ds, Some (IoError err))"
      by (intro wal_read_loop) (simp add: loop)
    with False assms(4) show ?thesis by (simp add: wal_Append_frame)
  qed
qed

theorem wal_torn_append_witness:
  "snd (wal_read (fst (wal_Append 6 True (lit ''bc'')
      \<lparr>wal_f = frame (lit ''a''), wal_pos = 0, wal_path = []\<rparr>))) \<noteq> None"
  using wal_torn_append [where ds = "[lit ''a'']" and d = "lit ''bc''" and n = 6 and sync_ok = True
      and w = "\<lparr>wal_f = frame (lit ''a''), wal_pos = 0, wal_path = []\<rparr>"]
  by (simp add: entry_fits_def lit_def)

text \<open>
  (C32) A single corrupted byte is always noticed: when one byte of the data of one entry in
  the file has changed to another value, reading hands over exactly the entries before it
  and returns an error, whatever comes after.
\<close>

theorem wal_detects_corrupt_byte:
  assumes "\<forall>e \<in> set ds. entry_fits e" and "entry_fits d" and "i < length d" and "b \<noteq> d ! i"
    and "wal_f w = concat (map frame ds) @
      PutUint32 (of_nat (length d)) @ d[i := b] @ PutUint32 (ChecksumIEEE d) @ rest"
  shows "wal_read w = (ds, Some (IoError ErrUnexpectedEOF))"
proof (rule wal_read_loop)
  have "entry_fits (d[i := b])" using assms(2) by (simp add: entry_fits_def)
  then have "wal_loop collect (PutUint32 (of_nat (length d)) @ d[i := b] @ PutUint32 (ChecksumIEEE d) @ rest) ds
      = (ds, Some (IoError ErrUnexpectedEOF), rest)"
    using wal_loop_corrupt [of "d[i := b]" "ChecksumIEEE d"] ChecksumIEEE_change [OF assms(3,4)] by simp
  then show "wal_loop collect (wal_f w) [] = (ds, Some (IoError ErrUnexpectedEOF), rest)"
    using wal_loop_frames [OF assms(1), of collect "[]" ds] by (simp add: assms(5))
qed

theorem wal_detects_corrupt_byte_witness:
  "wal_read \<lparr>wal_f = frame (lit ''a'') @ PutUint32 2 @ lit ''bd'' @ PutUint32 (ChecksumIEEE (lit ''bc'')) @ [7],
       wal_pos = 0, wal_path = []\<rparr> = ([lit ''a''], Some (IoError ErrUnexpectedEOF))"
  by (rule wal_detects_corrupt_byte [where ds = "[lit ''a'']" and d = "lit ''bc''" and i = 1
        and b = "of_char CHR ''d''" and rest = "[7]"])
     (simp_all add: entry_fits_def lit_def)

end
