(* ===== verification/Raft_Storage.thy ===== *)
theory Raft_Storage
  imports Raft_Types Wal
begin

text \<open>
  The persistent log store of \<^verbatim>\<open>internal/raft/storage.go\<close>: every entry, hard state and
  snapshot is appended to the write-ahead log before or after the in-memory store is changed,
  and a restart replays the file.  \<open>D\<close> is the disk: from its state and the length of a frame
  it decides how many bytes of the frame it takes and whether the sync succeeds.
\<close>

section \<open>Operations\<close>

type_synonym 'd disk = "'d \<Rightarrow> nat \<Rightarrow> (nat \<times> bool) \<times> 'd"

record 'm DiskStorage =
  ds_mem :: 'm
  ds_wal :: WAL

datatype storage_error = MarshalFailed | WalFailed io_error | SnapshotFailed | CompactFailed

datatype replay_error = BadRecord | BadEntry | BadHardState | BadSnapshot

abbreviation RecordEntry :: int where "RecordEntry \<equiv> 1"
abbreviation RecordHardState :: int where "RecordHardState \<equiv> 2"
abbreviation RecordSnapshot :: int where "RecordSnapshot \<equiv> 3"

text \<open>The handler of the replay; the results of the memory store's operations are ignored.\<close>

definition replay_record ::
  "raft_codec \<Rightarrow> 'm mem_ops \<Rightarrow> bytes \<Rightarrow> 'm \<Rightarrow> replay_error option \<times> 'm" where
  "replay_record C M data mem =
     (case json_Unmarshal C data of
        None \<Rightarrow> (Some BadRecord, mem)
      | Some r \<Rightarrow>
          if rec_Type r = RecordEntry
          then (case unmarshal_Entry C (rec_Data r) of
                  None \<Rightarrow> (Some BadEntry, mem)
                | Some ent \<Rightarrow> (None, mem_Append M mem [ent]))
          else if rec_Type r = RecordHardState
          then (case unmarshal_HardState C (rec_Data r) of
                  None \<Rightarrow> (Some BadHardState, mem)
                | Some hs \<Rightarrow> (None, mem_SetHardState M mem hs))
          else if rec_Type r = RecordSnapshot
          then (case unmarshal_Snapshot C (rec_Data r) of
                  None \<Rightarrow> (Some BadSnapshot, mem)
                | Some snap \<Rightarrow> (None, fst (mem_ApplySnapshot M mem snap)))
          else (None, mem))"

definition NewDiskStorage ::
  "raft_codec \<Rightarrow> 'm mem_ops \<Rightarrow> bool \<Rightarrow> bytes option \<Rightarrow> bytes \<Rightarrow>
   (io_error + replay_error iter_error) + 'm DiskStorage" where
  "NewDiskStorage C M open_ok existing walPath =
     (case wal_Open open_ok existing walPath of
        Inl err \<Rightarrow> Inl (Inl err)
      | Inr w \<Rightarrow>
          (case wal_Iterate (replay_record C M) w (mem_New M) of
             (w', mem, Some err) \<Rightarrow> Inl (Inr err)
           | (w', mem, None) \<Rightarrow> Inr \<lparr>ds_mem = mem, ds_wal = w'\<rparr>))"

definition writeRecord ::
  "raft_codec \<Rightarrow> 'd disk \<Rightarrow> int \<Rightarrow> bytes \<Rightarrow> 'm DiskStorage \<Rightarrow> 'd \<Rightarrow> storage_error option \<times> 'm DiskStorage \<times> 'd" where
  "writeRecord C D typ data ds d =
     (case json_Marshal C \<lparr>rec_Type = typ, rec_Data = data\<rparr> of
        None \<Rightarrow> (Some MarshalFailed, ds, d)
      | Some b \<Rightarrow>
          (case D d (length (frame b)) of ((room, sync_ok), d') \<Rightarrow>
             case wal_Append room sync_ok b (ds_wal ds) of (w, err) \<Rightarrow>
               (map_option WalFailed err, ds\<lparr>ds_wal := w\<rparr>, d')))"

fun save_entries ::
  "raft_codec \<Rightarrow> 'd disk \<Rightarrow> Entry list \<Rightarrow> 'm DiskStorage \<Rightarrow> 'd \<Rightarrow> storage_error option \<times> 'm DiskStorage \<times> 'd" where
  "save_entries C D [] ds d = (None, ds, d)"
| "save_entries C D (ent # entries) ds d =
     (case marshal_Entry C ent of
        None \<Rightarrow> (Some MarshalFailed, ds, d)
      | Some b \<Rightarrow>
          (case writeRecord C D RecordEntry b ds d of
             (Some err, ds', d') \<Rightarrow> (Some err, ds', d')
           | (None, ds', d') \<Rightarrow> save_entries C D entries ds' d'))"

definition Save ::
  "raft_codec \<Rightarrow> 'm mem_ops \<Rightarrow> 'd disk \<Rightarrow> Entry list \<Rightarrow> HardState \<Rightarrow> 'm DiskStorage \<Rightarrow> 'd \<Rightarrow>
   storage_error option \<times> 'm DiskStorage \<times> 'd" where
  "Save C M D entries state ds d =
     (case save_entries C D entries ds d of
        (Some err, ds1, d1) \<Rightarrow> (Some err, ds1, d1)
      | (None, ds1, d1) \<Rightarrow>
          (case (if \<not> IsEmptyHardState state
                 then (case marshal_HardState C state of
                         None \<Rightarrow> (Some MarshalFailed, ds1, d1)
                       | Some b \<Rightarrow> writeRecord C D RecordHardState b ds1 d1)
                 else (None, ds1, d1)) of
             (Some err, ds2, d2) \<Rightarrow> (Some err, ds2, d2)
           | (None, ds2, d2) \<Rightarrow>
               let mem1 = mem_Append M (ds_mem ds2) entries;
                   mem2 = (if \<not> IsEmptyHardState state then mem_SetHardState M mem1 state else mem1)
               in (None, ds2\<lparr>ds_mem := mem2\<rparr>, d2)))"

definition ds_CreateSnapshot ::
  "raft_codec \<Rightarrow> 'm mem_ops \<Rightarrow> 'd disk \<Rightarrow> u64 \<Rightarrow> u64 list \<Rightarrow> bytes \<Rightarrow> 'm DiskStorage \<Rightarrow> 'd \<Rightarrow>
   (storage_error + RaftSnapshot) \<times> 'm DiskStorage \<times> 'd" where
  "ds_CreateSnapshot C M D i cs data ds d =
     (case mem_CreateSnapshot M (ds_mem ds) i cs data of
        (mem1, None) \<Rightarrow> (Inl SnapshotFailed, ds\<lparr>ds_mem := mem1\<rparr>, d)
      | (mem1, Some snap) \<Rightarrow>
          let ds1 = ds\<lparr>ds_mem := mem1\<rparr>
          in case marshal_Snapshot C snap of
               None \<Rightarrow> (Inl MarshalFailed, ds1, d)
             | Some b \<Rightarrow>
                 (case writeRecord C D RecordSnapshot b ds1 d of
                    (Some err, ds2, d2) \<Rightarrow> (Inl err, ds2, d2)
                  | (None, ds2, d2) \<Rightarrow>
                      (case mem_Compact M (ds_mem ds2) i of
                         (mem3, False) \<Rightarrow> (Inl CompactFailed, ds2\<lparr>ds_mem := mem3\<rparr>, d2)
                       | (mem3, True) \<Rightarrow> (Inr snap, ds2\<lparr>ds_mem := mem3\<rparr>, d2))))"

definition ds_ApplySnapshot ::
  "raft_codec \<Rightarrow> 'm mem_ops \<Rightarrow> 'd disk \<Rightarrow> RaftSnapshot \<Rightarrow> 'm DiskStorage \<Rightarrow> 'd \<Rightarrow>
   storage_error option \<times> 'm DiskStorage \<times> 'd" where
  "ds_ApplySnapshot C M D snap ds d =
     (case mem_ApplySnapshot M (ds_mem ds) snap of
        (mem1, False) \<Rightarrow> (Some SnapshotFailed, ds\<lparr>ds_mem := mem1\<rparr>, d)
      | (mem1, True) \<Rightarrow>
          let ds1 = ds\<lparr>ds_mem := mem1\<rparr>
          in case marshal_Snapshot C snap of
               None \<Rightarrow> (Some MarshalFailed, ds1, d)
             | Some b \<Rightarrow> writeRecord C D RecordSnapshot b ds1 d)"

section \<open>What a file replays to\<close>

text \<open>
  A storage is recoverable to \<open>mem\<close> when its file is a sequence of whole frames that replay
  to \<open>mem\<close>.
\<close>

definition replays :: "raft_codec \<Rightarrow> 'm mem_ops \<Rightarrow> WAL \<Rightarrow> 'm \<Rightarrow> bool" where
  "replays C M w mem \<longleftrightarrow>
     (\<exists>recs. wal_f w = concat (map frame recs) \<and> (\<forall>r \<in> set recs. entry_fits r) \<and>
       handle_all (replay_record C M) recs (mem_New M) = (None, mem))"

lemma handle_all_append:
  "handle_all h (xs @ ys) x =
     (case handle_all h xs x of (Some err, x') \<Rightarrow> (Some err, x') | (None, x') \<Rightarrow> handle_all h ys x')"
  by (induction xs arbitrary: x) (auto split: prod.splits option.splits)

lemma NewDiskStorage_replays:
  assumes "replays C M w mem"
  shows "\<exists>w'. NewDiskStorage C M True (Some (wal_f w)) path = Inr \<lparr>ds_mem = mem, ds_wal = w'\<rparr> \<and> wal_f w' = wal_f w"
proof -
  obtain recs where r: "wal_f w = concat (map frame recs)" "\<forall>r \<in> set recs. entry_fits r"
    "handle_all (replay_record C M) recs (mem_New M) = (None, mem)"
    using assms by (auto simp: replays_def)
  have "wal_loop (replay_record C M) (wal_f w) (mem_New M) = (mem, None, [])"
    using wal_loop_frames [OF r(2,3), of "[]"] r(1) by simp
  then show ?thesis by (simp add: NewDiskStorage_def wal_Open_def wal_Iterate_def)
qed

text \<open>A record that was written whole extends what the file replays to.\<close>

lemma writeRecord_replays:
  assumes "replays C M (ds_wal ds) mem"
    and "json_Marshal C \<lparr>rec_Type = typ, rec_Data = data\<rparr> = Some b" and "entry_fits b"
    and "replay_record C M b mem = (None, mem')"
    and "writeRecord C D typ data ds d = (None, ds', d')"
  shows "replays C M (ds_wal ds') mem'" and "ds_mem ds' = ds_mem ds"
proof -
  obtain room sync_ok d1 where D: "D d (length (frame b)) = ((room, sync_ok), d1)" by (metis surj_pair)
  obtain w err where ap: "wal_Append room sync_ok b (ds_wal ds) = (w, err)" by fastforce
  have "err = None" and ds': "ds' = ds\<lparr>ds_wal := w\<rparr>"
    using assms(2,5) D ap by (auto simp: writeRecord_def)
  then have "length (frame b) \<le> room" and "wal_f w = wal_f (ds_wal ds) @ take room (frame b)"
    using wal_Append_frame [of room sync_ok b "ds_wal ds"] ap by auto
  then have w: "wal_f w = wal_f (ds_wal ds) @ frame b" by simp
  obtain recs where r: "wal_f (ds_wal ds) = concat (map frame recs)" "\<forall>r \<in> set recs. entry_fits r"
    "handle_all (replay_record C M) recs (mem_New M) = (None, mem)"
    using assms(1) by (auto simp: replays_def)
  show "replays C M (ds_wal ds') mem'"
    unfolding replays_def using r w assms(3,4) ds'
    by (intro exI [of _ "recs @ [b]"]) (auto simp: handle_all_append)
  show "ds_mem ds' = ds_mem ds" using ds' by simp
qed

text \<open>A record whose encoding fits the length field of a frame.\<close>

definition record_fits :: "raft_codec \<Rightarrow> int \<Rightarrow> bytes \<Rightarrow> bool" where
  "record_fits C typ data \<longleftrightarrow> (\<forall>b. json_Marshal C \<lparr>rec_Type = typ, rec_Data = data\<rparr> = Some b \<longrightarrow> entry_fits b)"

definition save_fits :: "raft_codec \<Rightarrow> Entry list \<Rightarrow> HardState \<Rightarrow> bool" where
  "save_fits C entries state \<longleftrightarrow>
     (\<forall>e \<in> set entries. \<forall>b. marshal_Entry C e = Some b \<longrightarrow> record_fits C RecordEntry b) \<and>
     (\<forall>b. marshal_HardState C state = Some b \<longrightarrow> record_fits C RecordHardState b)"

lemma writeRecord_marshals:
  "writeRecord C D typ data ds d = (None, ds', d') \<Longrightarrow> \<exists>b. json_Marshal C \<lparr>rec_Type = typ, rec_Data = data\<rparr> = Some b"
  by (auto simp: writeRecord_def split: option.splits)

context wire_format
begin

lemma replay_Entry:
  assumes "marshal_Entry C e = Some b" and "json_Marshal C \<lparr>rec_Type = RecordEntry, rec_Data = b\<rparr> = Some x"
  shows "replay_record C M x mem = (None, mem_Append M mem [e])"
  using Record_rt [OF assms(2)] Entry_rt [OF assms(1)] by (simp add: replay_record_def)

lemma replay_HardState:
  assumes "marshal_HardState C h = Some b" and "json_Marshal C \<lparr>rec_Type = RecordHardState, rec_Data = b\<rparr> = Some x"
  shows "replay_record C M x mem = (None, mem_SetHardState M mem h)"
  using Record_rt [OF assms(2)] HardState_rt [OF assms(1)] by (simp add: replay_record_def)

lemma replay_Snapshot:
  assumes "marshal_Snapshot C s = Some b" and "json_Marshal C \<lparr>rec_Type = RecordSnapshot, rec_Data = b\<rparr> = Some x"
  shows "replay_record C M x mem = (None, fst (mem_ApplySnapshot M mem s))"
  using Record_rt [OF assms(2)] Snapshot_rt [OF assms(1)] by (simp add: replay_record_def)

lemma save_entries_replays:
  assumes "replays C M (ds_wal ds) mem" and "save_entries C D entries ds d = (None, ds', d')"
    and "\<forall>e \<in> set entries. \<forall>b. marshal_Entry C e = Some b \<longrightarrow> record_fits C RecordEntry b"
  shows "replays C M (ds_wal ds') (fold (\<lambda>e m. mem_Append M m [e]) entries mem) \<and> ds_mem ds' = ds_mem ds"
  using assms
proof (induction entries arbitrary: ds d mem)
  case Nil
  then show ?case by simp
next
  case (Cons e es)
  obtain b ds1 d1 where b: "marshal_Entry C e = Some b"
    and wr: "writeRecord C D RecordEntry b ds d = (None, ds1, d1)"
    and rest: "save_entries C D es ds1 d1 = (None, ds', d')"
    using Cons.prems(2) by (auto split: option.splits prod.splits)
  obtain x where x: "json_Marshal C \<lparr>rec_Type = RecordEntry, rec_Data = b\<rparr> = Some x"
    using writeRecord_marshals [OF wr] by blast
  then have "entry_fits x" using Cons.prems(3) b by (auto simp: record_fits_def)
  note w = writeRecord_replays [OF Cons.prems(1) x this replay_Entry [OF b x] wr]
  show ?case using Cons.IH [OF w(1) rest] Cons.prems(3) w(2) by simp
qed

lemma Save_replays:
  assumes "log_store M ents snap" and "replays C M (ds_wal ds) (ds_mem ds)"
    and "consecutive entries" and "save_fits C entries state"
    and "Save C M D entries state ds d = (None, ds', d')"
  shows "replays C M (ds_wal ds') (ds_mem ds')"
proof -
  obtain ds1 d1 where se: "save_entries C D entries ds d = (None, ds1, d1)"
    using assms(5) by (auto simp: Save_def split: option.splits prod.splits)
  have r1: "replays C M (ds_wal ds1) (mem_Append M (ds_mem ds) entries)" and m1: "ds_mem ds1 = ds_mem ds"
    using save_entries_replays [OF assms(2) se] assms(4) log_store.Append_fold [OF assms(1,3)]
    by (auto simp: save_fits_def)
  show ?thesis
  proof (cases "IsEmptyHardState state")
    case True
    then have "ds' = ds1\<lparr>ds_mem := mem_Append M (ds_mem ds1) entries\<rparr>"
      using assms(5) se by (simp add: Save_def Let_def)
    with r1 m1 show ?thesis by simp
  next
    case False
    then obtain b ds2 d2 where b: "marshal_HardState C state = Some b"
      and wr: "writeRecord C D RecordHardState b ds1 d1 = (None, ds2, d2)"
      and ds': "ds' = ds2\<lparr>ds_mem := mem_SetHardState M (mem_Append M (ds_mem ds2) entries) state\<rparr>"
      using assms(5) se by (auto simp: Save_def Let_def split: option.splits prod.splits)
    obtain x where x: "json_Marshal C \<lparr>rec_Type = RecordHardState, rec_Data = b\<rparr> = Some x"
      using writeRecord_marshals [OF wr] by blast
    then have "entry_fits x" using assms(4) b by (auto simp: save_fits_def record_fits_def)
    note w = writeRecord_replays [OF r1 x this replay_HardState [OF b x] wr]
    show ?thesis using w m1 ds' by simp
  qed
qed

lemma ApplySnapshot_replays:
  assumes "replays C M (ds_wal ds) (ds_mem ds)"
    and "\<forall>b. marshal_Snapshot C sp = Some b \<longrightarrow> record_fits C RecordSnapshot b"
    and "ds_ApplySnapshot C M D sp ds d = (None, ds', d')"
  shows "replays C M (ds_wal ds') (ds_mem ds')"
proof -
  obtain mem1 b where m: "mem_ApplySnapshot M (ds_mem ds) sp = (mem1, True)" and b: "marshal_Snapshot C sp = Some b"
    and wr: "writeRecord C D RecordSnapshot b (ds\<lparr>ds_mem := mem1\<rparr>) d = (None, ds', d')"
    using assms(3) by (auto simp: ds_ApplySnapshot_def Let_def split: prod.splits bool.splits option.splits)
  obtain x where x: "json_Marshal C \<lparr>rec_Type = RecordSnapshot, rec_Data = b\<rparr> = Some x"
    using writeRecord_marshals [OF wr] by blast
  then have fits: "entry_fits x" using assms(2) b by (auto simp: record_fits_def)
  have "replays C M (ds_wal (ds\<lparr>ds_mem := mem1\<rparr>)) (ds_mem ds)" using assms(1) by simp
  note w = writeRecord_replays [OF this x fits replay_Snapshot [OF b x] wr]
  show ?thesis using w m by simp
qed

lemma CreateSnapshot_replays:
  assumes "log_store M ents snap" and "replays C M (ds_wal ds) (ds_mem ds)"
    and "\<forall>sp b. marshal_Snapshot C sp = Some b \<longrightarrow> sn_Data sp = data \<and> sn_Voters sp = cs \<longrightarrow> record_fits C RecordSnapshot b"
    and "ds_CreateSnapshot C M D i cs data ds d = (Inr sp, ds', d')"
  shows "ents (ds_mem ds') = filter (\<lambda>e. i < en_Index e) (ents (ds_mem ds)) \<and> sn_Index sp = i \<and>
    (\<exists>mem. replays C M (ds_wal ds') mem \<and> ents mem = [] \<and> snap mem = sp)"
proof -
  obtain mem1 b ds2 d2 mem3 where cs: "mem_CreateSnapshot M (ds_mem ds) i cs data = (mem1, Some sp)"
    and b: "marshal_Snapshot C sp = Some b"
    and wr: "writeRecord C D RecordSnapshot b (ds\<lparr>ds_mem := mem1\<rparr>) d = (None, ds2, d2)"
    and co: "mem_Compact M (ds_mem ds2) i = (mem3, True)" and ds': "ds' = ds2\<lparr>ds_mem := mem3\<rparr>"
    using assms(4)
    by (auto simp: ds_CreateSnapshot_def Let_def split: prod.splits option.splits bool.splits)
  note created = log_store.CreateSnapshot_ok [OF assms(1) cs]
  obtain x where x: "json_Marshal C \<lparr>rec_Type = RecordSnapshot, rec_Data = b\<rparr> = Some x"
    using writeRecord_marshals [OF wr] by blast
  then have fits: "entry_fits x" using assms(3) b created by (auto simp: record_fits_def)
  have "replays C M (ds_wal (ds\<lparr>ds_mem := mem1\<rparr>)) (ds_mem ds)" using assms(2) by simp
  note w = writeRecord_replays [OF this x fits replay_Snapshot [OF b x] wr]
  obtain m ok where ap: "mem_ApplySnapshot M (ds_mem ds) sp = (m, ok)" by fastforce
  have "ents m = []" "snap m = sp"
    using log_store.ApplySnapshot_new [OF assms(1) _ ap] created by auto
  moreover have "replays C M (ds_wal ds') m" using w(1) ap ds' by simp
  moreover have "ents (ds_mem ds') = filter (\<lambda>e. i < en_Index e) (ents (ds_mem ds))"
    using log_store.Compact_ok [OF assms(1) co] created w(2) ds' by simp
  ultimately show ?thesis using created by blast
qed

end

section \<open>Properties\<close>


text \<open>A new storage on an empty file, a disk that takes everything, and two entries.\<close>

definition sample_storage :: "list_store DiskStorage" where
  "sample_storage = \<lparr>ds_mem = mem_New list_mem_ops, ds_wal = \<lparr>wal_f = [], wal_pos = 0, wal_path = []\<rparr>\<rparr>"

definition good_disk :: "unit disk" where
  "good_disk d n = ((n, True), d)"

definition sample_entries :: "Entry list" where
  "sample_entries = [\<lparr>en_Term = 1, en_Index = 1, en_Type = EntryNormal, en_Data = [7]\<rparr>,
     \<lparr>en_Term = 1, en_Index = 2, en_Type = EntryNormal, en_Data = [8]\<rparr>]"

definition sample_hs :: HardState where
  "sample_hs = \<lparr>hs_Term = 1, hs_Vote = 1, hs_Commit = 1\<rparr>"

lemma sample_replays: "replays be_codec list_mem_ops (ds_wal sample_storage) (ds_mem sample_storage)"
  unfolding replays_def by (intro exI [of _ "[]"]) (simp add: sample_storage_def)

lemma sample_fits: "save_fits be_codec sample_entries sample_hs"
  by (auto simp: save_fits_def record_fits_def entry_fits_def be_codec_def be_marshal_Entry_def
      be_marshal_HardState_def be_Marshal_def sample_entries_def sample_hs_def)

lemma writeRecord_good:
  "json_Marshal C \<lparr>rec_Type = typ, rec_Data = data\<rparr> = Some b \<Longrightarrow>
   \<exists>w. writeRecord C good_disk typ data ds () = (None, ds\<lparr>ds_wal := w\<rparr>, ())"
  using wal_Append_frame(2) [of "length (frame b)" True b "ds_wal ds"]
  by (auto simp: writeRecord_def good_disk_def case_prod_beta)

lemma save_entries_good:
  assumes "\<forall>e \<in> set entries. \<exists>b x. marshal_Entry C e = Some b \<and> json_Marshal C \<lparr>rec_Type = RecordEntry, rec_Data = b\<rparr> = Some x"
  shows "\<exists>w. save_entries C good_disk entries ds () = (None, ds\<lparr>ds_wal := w\<rparr>, ())"
  using assms
proof (induction entries arbitrary: ds)
  case Nil
  then show ?case by (intro exI [of _ "ds_wal ds"]) simp
next
  case (Cons e es)
  then obtain b x where b: "marshal_Entry C e = Some b" "json_Marshal C \<lparr>rec_Type = RecordEntry, rec_Data = b\<rparr> = Some x"
    by auto
  obtain w where "writeRecord C good_disk RecordEntry b ds () = (None, ds\<lparr>ds_wal := w\<rparr>, ())"
    using writeRecord_good [OF b(2)] by blast
  with b Cons.IH [of "ds\<lparr>ds_wal := w\<rparr>"] Cons.prems show ?case by simp
qed

lemma Save_good:
  assumes "\<forall>e \<in> set entries. \<exists>b x. marshal_Entry C e = Some b \<and> json_Marshal C \<lparr>rec_Type = RecordEntry, rec_Data = b\<rparr> = Some x"
    and "marshal_HardState C state = Some b" and "json_Marshal C \<lparr>rec_Type = RecordHardState, rec_Data = b\<rparr> = Some x"
    and "\<not> IsEmptyHardState state"
  shows "\<exists>w. Save C M good_disk entries state ds () =
    (None, \<lparr>ds_mem = mem_SetHardState M (mem_Append M (ds_mem ds) entries) state, ds_wal = w\<rparr>, ())"
proof -
  obtain w1 where 1: "save_entries C good_disk entries ds () = (None, ds\<lparr>ds_wal := w1\<rparr>, ())"
    using save_entries_good [OF assms(1)] by blast
  obtain w2 where "writeRecord C good_disk RecordHardState b (ds\<lparr>ds_wal := w1\<rparr>) () = (None, ds\<lparr>ds_wal := w2\<rparr>, ())"
    using writeRecord_good [OF assms(3), of "ds\<lparr>ds_wal := w1\<rparr>"] by auto
  with 1 assms(2,4) show ?thesis by (cases ds) (auto simp: Save_def Let_def)
qed

lemma sample_Save:
  "\<exists>w. Save be_codec list_mem_ops good_disk sample_entries sample_hs sample_storage () =
    (None, \<lparr>ds_mem = (mem_New list_mem_ops)\<lparr>ls_ents := sample_entries, ls_hs := sample_hs\<rparr>, ds_wal = w\<rparr>, ())"
proof -
  have "\<exists>w. Save be_codec list_mem_ops good_disk sample_entries sample_hs sample_storage () =
      (None, \<lparr>ds_mem = mem_SetHardState list_mem_ops (mem_Append list_mem_ops (ds_mem sample_storage) sample_entries) sample_hs,
        ds_wal = w\<rparr>, ())"
    by (rule Save_good)
       (auto simp: be_codec_def be_marshal_Entry_def be_marshal_HardState_def be_Marshal_def
         IsEmptyHardState_def sample_hs_def)
  moreover have "mem_SetHardState list_mem_ops (mem_Append list_mem_ops (ds_mem sample_storage) sample_entries) sample_hs =
      (mem_New list_mem_ops)\<lparr>ls_ents := sample_entries, ls_hs := sample_hs\<rparr>"
    by (simp add: sample_storage_def sample_entries_def list_mem_ops_def ls_Append_def)
  ultimately show ?thesis by simp
qed


lemma sample_CreateSnapshot:
  obtains ds sp ds' where "replays be_codec list_mem_ops (ds_wal ds) (ds_mem ds)" "ls_ents (ds_mem ds) = sample_entries"
    "\<forall>sp b. marshal_Snapshot be_codec sp = Some b \<longrightarrow> sn_Data sp = [] \<and> sn_Voters sp = [1] \<longrightarrow> record_fits be_codec RecordSnapshot b"
    "ds_CreateSnapshot be_codec list_mem_ops good_disk 1 [1] [] ds () = (Inr sp, ds', ())"
proof -
  let ?mem = "(mem_New list_mem_ops)\<lparr>ls_ents := sample_entries, ls_hs := sample_hs\<rparr>"
  obtain w where s: "Save be_codec list_mem_ops good_disk sample_entries sample_hs sample_storage () =
      (None, \<lparr>ds_mem = ?mem, ds_wal = w\<rparr>, ())"
    using sample_Save by blast
  let ?ds = "\<lparr>ds_mem = ?mem, ds_wal = w\<rparr>"
  have "consecutive sample_entries" by (simp add: sample_entries_def)
  then have r: "replays be_codec list_mem_ops (ds_wal ?ds) (ds_mem ?ds)"
    using be.Save_replays [OF ls.log_store_axioms sample_replays _ sample_fits s] by simp
  have fits: "\<forall>sp b. marshal_Snapshot be_codec sp = Some b \<longrightarrow> sn_Data sp = [] \<and> sn_Voters sp = [1] \<longrightarrow>
      record_fits be_codec RecordSnapshot b"
    by (auto simp: be_codec_def be_marshal_Snapshot_def record_fits_def be_Marshal_def entry_fits_def split: if_splits)
  define sp where "sp = \<lparr>sn_Data = [], sn_Voters = [1], sn_Index = 1, sn_Term = 1\<rparr>"
  have cs: "mem_CreateSnapshot list_mem_ops ?mem 1 [1] [] = (?mem\<lparr>ls_snap := sp\<rparr>, Some sp)"
    by (simp add: list_mem_ops_def sample_entries_def sp_def Let_def)
  obtain b where b: "marshal_Snapshot be_codec sp = Some b"
    by (simp add: be_codec_def be_marshal_Snapshot_def sp_def)
  obtain x where x: "json_Marshal be_codec \<lparr>rec_Type = RecordSnapshot, rec_Data = b\<rparr> = Some x"
    by (simp add: be_codec_def be_Marshal_def)
  obtain w2 where wr: "writeRecord be_codec good_disk RecordSnapshot b (?ds\<lparr>ds_mem := ?mem\<lparr>ls_snap := sp\<rparr>\<rparr>) () =
      (None, \<lparr>ds_mem = ?mem\<lparr>ls_snap := sp\<rparr>, ds_wal = w2\<rparr>, ())"
    using writeRecord_good [OF x, of "?ds\<lparr>ds_mem := ?mem\<lparr>ls_snap := sp\<rparr>\<rparr>"] by auto
  have co: "mem_Compact list_mem_ops (?mem\<lparr>ls_snap := sp\<rparr>) 1 =
      (?mem\<lparr>ls_snap := sp, ls_off := 1, ls_ents := [sample_entries ! 1]\<rparr>, True)"
    by (simp add: list_mem_ops_def sample_entries_def ls_Last_def)
  obtain ds' where d: "ds_CreateSnapshot be_codec list_mem_ops good_disk 1 [1] [] ?ds () = (Inr sp, ds', ())"
    using cs b wr co by (simp add: ds_CreateSnapshot_def Let_def)
  show thesis by (rule that [OF r _ fits d]) simp
qed

text \<open>
  A snapshot makes a restart forget the rest of the log: after \<open>CreateSnapshot\<close> at an index
  the node keeps the entries after it, but the file replays the snapshot record with
  \<open>ApplySnapshot\<close>, which empties the log, so a node that restarts from the file has no entry at
  all, although the entries after the snapshot had been written before it.
\<close>

theorem snapshot_restart_drops_entries:
  assumes "wire_format C" and "log_store M ents snap" and "replays C M (ds_wal ds) (ds_mem ds)"
    and "\<forall>sp b. marshal_Snapshot C sp = Some b \<longrightarrow> sn_Data sp = data \<and> sn_Voters sp = cs \<longrightarrow> record_fits C RecordSnapshot b"
    and "ds_CreateSnapshot C M D i cs data ds d = (Inr sp, ds', d')"
  shows "ents (ds_mem ds') = filter (\<lambda>e. i < en_Index e) (ents (ds_mem ds)) \<and>
    (\<exists>r. NewDiskStorage C M True (Some (wal_f (ds_wal ds'))) path = Inr r \<and>
       ents (ds_mem r) = [] \<and> snap (ds_mem r) = sp)"
proof -
  obtain mem where "replays C M (ds_wal ds') mem" "ents mem = []" "snap mem = sp"
    "ents (ds_mem ds') = filter (\<lambda>e. i < en_Index e) (ents (ds_mem ds))"
    using wire_format.CreateSnapshot_replays [OF assms] by blast
  with NewDiskStorage_replays [of C M "ds_wal ds'" mem path] show ?thesis by fastforce
qed

theorem snapshot_restart_drops_entries_witness:
  "\<exists>ds sp ds'. ds_CreateSnapshot be_codec list_mem_ops good_disk 1 [1] [] ds () = (Inr sp, ds', ()) \<and>
     ls_ents (ds_mem ds') = [sample_entries ! 1] \<and>
     (\<exists>r. NewDiskStorage be_codec list_mem_ops True (Some (wal_f (ds_wal ds'))) [] = Inr r \<and> ls_ents (ds_mem r) = [])"
proof -
  obtain ds sp ds' where s: "replays be_codec list_mem_ops (ds_wal ds) (ds_mem ds)" "ls_ents (ds_mem ds) = sample_entries"
    "\<forall>sp b. marshal_Snapshot be_codec sp = Some b \<longrightarrow> sn_Data sp = [] \<and> sn_Voters sp = [1] \<longrightarrow> record_fits be_codec RecordSnapshot b"
    "ds_CreateSnapshot be_codec list_mem_ops good_disk 1 [1] [] ds () = (Inr sp, ds', ())"
    by (rule sample_CreateSnapshot)
  from snapshot_restart_drops_entries [OF be.wire_format_axioms ls.log_store_axioms s(1,3,4), of "[]"] s(2,4)
  show ?thesis by (auto simp: sample_entries_def)
qed

text \<open>
  (C40) A torn record stops the node: when the disk takes only a proper, non-empty part of the
  frame of a record, the write reports an error, and opening the storage on that file fails,
  although all the records before it are intact.
\<close>

theorem torn_record_blocks_restart:
  assumes "replays C M (ds_wal ds) mem" and "json_Marshal C \<lparr>rec_Type = typ, rec_Data = data\<rparr> = Some b"
    and "entry_fits b" and "D d (length (frame b)) = ((n, sync_ok), d')" and "0 < n" and "n < length (frame b)"
    and "writeRecord C D typ data ds d = (err, ds', d'')"
  shows "err \<noteq> None \<and>
    (\<exists>e. NewDiskStorage C M True (Some (wal_f (ds_wal ds'))) path = Inl (Inr (IoError e)))"
proof -
  obtain w we where ap: "wal_Append n sync_ok b (ds_wal ds) = (w, we)" by fastforce
  have ds': "ds_wal ds' = w" "err = map_option WalFailed we"
    using assms(2,4,7) ap by (auto simp: writeRecord_def)
  have "we \<noteq> None" and w: "wal_f w = wal_f (ds_wal ds) @ take n (frame b)"
    using wal_Append_frame [of n sync_ok b "ds_wal ds"] ap assms(6) by auto
  obtain recs where r: "wal_f (ds_wal ds) = concat (map frame recs)" "\<forall>r \<in> set recs. entry_fits r"
    "handle_all (replay_record C M) recs (mem_New M) = (None, mem)"
    using assms(1) by (auto simp: replays_def)
  obtain e rest where "wal_loop (replay_record C M) (take n (frame b)) mem = (mem, Some (IoError e), rest)"
    using wal_loop_torn [OF assms(3,5,6), of "replay_record C M" mem] by blast
  then have "wal_loop (replay_record C M) (wal_f w) (mem_New M) = (mem, Some (IoError e), rest)"
    using wal_loop_frames [OF r(2,3)] r(1) w by simp
  with \<open>we \<noteq> None\<close> ds' show ?thesis
    by (auto simp: NewDiskStorage_def wal_Open_def wal_Iterate_def)
qed

theorem torn_record_blocks_restart_witness:
  "\<exists>err ds' e. writeRecord be_codec (\<lambda>d n. ((5, True), d)) RecordEntry [1, 2] sample_storage () = (err, ds', ()) \<and>
     err \<noteq> None \<and>
     NewDiskStorage be_codec list_mem_ops True (Some (wal_f (ds_wal ds'))) [] = Inl (Inr (IoError e))"
proof -
  let ?D = "\<lambda>d :: unit. \<lambda>n :: nat. ((5 :: nat, True), d)"
  have j: "json_Marshal be_codec \<lparr>rec_Type = RecordEntry, rec_Data = [1, 2]\<rparr> = Some [1, 1, 2]"
    by (simp add: be_codec_def be_Marshal_def)
  obtain err ds' where w: "writeRecord be_codec ?D RecordEntry [1, 2] sample_storage () = (err, ds', ())"
    by (cases "writeRecord be_codec ?D RecordEntry [1, 2] sample_storage ()") auto
  have f: "entry_fits [1, 1, 2]" by (simp add: entry_fits_def)
  have "err \<noteq> None \<and> (\<exists>e. NewDiskStorage be_codec list_mem_ops True (Some (wal_f (ds_wal ds'))) [] = Inl (Inr (IoError e)))"
    by (rule torn_record_blocks_restart [OF sample_replays j f _ _ _ w, where n = 5 and sync_ok = True]) simp_all
  with w show ?thesis by blast
qed

end
