(* ===== verification/Raft_Node.thy ===== *)
theory Raft_Node
  imports Raft_Storage Go_Strings
begin

text \<open>
  The driver of the consensus library, \<^verbatim>\<open>internal/raft/node.go\<close>: one turn of \<open>Run\<close> for a
  \<open>Ready\<close> value, the choice between starting and restarting, and the HTTP transport of
  \<^verbatim>\<open>internal/raft/transport.go\<close>.  The raft state machine that produces the \<open>Ready\<close> values and
  takes the messages is the library's.  The interfaces \<open>Storage\<close> and \<open>Applier\<close> are records of
  operations.
\<close>

section \<open>Interfaces\<close>

text \<open>A Boolean says that an operation returned no error.\<close>

record 's Storage =
  st_FirstIndex :: "'s \<Rightarrow> u64"
  st_LastIndex :: "'s \<Rightarrow> u64"
  st_Save :: "Entry list \<Rightarrow> HardState \<Rightarrow> 's \<Rightarrow> bool \<times> 's"
  st_CreateSnapshot :: "u64 \<Rightarrow> u64 list \<Rightarrow> bytes \<Rightarrow> 's \<Rightarrow> bool \<times> 's"
  st_ApplySnapshot :: "RaftSnapshot \<Rightarrow> 's \<Rightarrow> bool \<times> 's"

record 'a Applier =
  ap_Apply :: "Entry \<Rightarrow> 'a \<Rightarrow> 'a"
  ap_GetSnapshot :: "'a \<Rightarrow> bytes option"
  ap_Restore :: "bytes \<Rightarrow> 'a \<Rightarrow> bool \<times> 'a"

text \<open>The two storages the node can have: the disk storage with its disk, and the memory wrapper.\<close>

definition disk_storage :: "raft_codec \<Rightarrow> 'm mem_ops \<Rightarrow> 'd disk \<Rightarrow> ('m DiskStorage \<times> 'd) Storage" where
  "disk_storage C M D = \<lparr>
     st_FirstIndex = (\<lambda>(ds, d). mem_FirstIndex M (ds_mem ds)),
     st_LastIndex = (\<lambda>(ds, d). mem_LastIndex M (ds_mem ds)),
     st_Save = (\<lambda>es hs (ds, d). case Save C M D es hs ds d of (err, s) \<Rightarrow> (err = None, s)),
     st_CreateSnapshot = (\<lambda>i cs data (ds, d).
       case ds_CreateSnapshot C M D i cs data ds d of (r, s) \<Rightarrow> (case r of Inl _ \<Rightarrow> False | Inr _ \<Rightarrow> True, s)),
     st_ApplySnapshot = (\<lambda>sp (ds, d). case ds_ApplySnapshot C M D sp ds d of (err, s) \<Rightarrow> (err = None, s))\<rparr>"

definition wrapper_Save :: "'m mem_ops \<Rightarrow> Entry list \<Rightarrow> HardState \<Rightarrow> 'm \<Rightarrow> bool \<times> 'm" where
  "wrapper_Save M entries state m =
     (let m1 = mem_Append M m entries;
          m2 = (if \<not> IsEmptyHardState state then mem_SetHardState M m1 state else m1)
      in (True, m2))"

definition memoryStorageWrapper :: "'m mem_ops \<Rightarrow> 'm Storage" where
  "memoryStorageWrapper M = \<lparr>
     st_FirstIndex = mem_FirstIndex M,
     st_LastIndex = mem_LastIndex M,
     st_Save = wrapper_Save M,
     st_CreateSnapshot = (\<lambda>i cs data m. case mem_CreateSnapshot M m i cs data of (m', r) \<Rightarrow> (r \<noteq> None, m')),
     st_ApplySnapshot = (\<lambda>sp m. case mem_ApplySnapshot M m sp of (m', ok) \<Rightarrow> (ok, m'))\<rparr>"

section \<open>One turn of the loop\<close>

record 'msg Ready =
  rd_Entries :: "Entry list"
  rd_HardState :: HardState
  rd_Messages :: "'msg list"
  rd_CommittedEntries :: "Entry list"
  rd_Snapshot :: RaftSnapshot

record ('s, 'a) node =
  nd_storage :: 's
  nd_applier :: 'a

text \<open>What a turn ends with: the process dies, or the node goes on and has sent messages.\<close>

datatype ('s, 'a, 'msg) turn = Fatal "('s, 'a) node" | Advanced "('s, 'a) node" "'msg list"

definition apply_entry :: "'a Applier \<Rightarrow> Entry \<Rightarrow> 'a \<Rightarrow> 'a" where
  "apply_entry A e a = (if en_Type e = EntryNormal \<and> length (en_Data e) > 0 then ap_Apply A e a else a)"

definition snapshot_check :: "'s Storage \<Rightarrow> 'a Applier \<Rightarrow> Entry list \<Rightarrow> 's \<Rightarrow> 'a \<Rightarrow> 's" where
  "snapshot_check S A committed st a =
     (if length committed > 0
      then let lastApplied = en_Index (last committed);
               fi = st_FirstIndex S st
           in if lastApplied > fi \<and> lastApplied - fi > 50
              then (case ap_GetSnapshot A a of
                      None \<Rightarrow> st
                    | Some data \<Rightarrow> snd (st_CreateSnapshot S lastApplied [1, 2, 3] data st))
              else st
      else st)"

definition handle_ready ::
  "'s Storage \<Rightarrow> 'a Applier \<Rightarrow> 'msg Ready \<Rightarrow> ('s, 'a) node \<Rightarrow> ('s, 'a, 'msg) turn" where
  "handle_ready S A rd n =
     (case st_Save S (rd_Entries rd) (rd_HardState rd) (nd_storage n) of
        (False, st1) \<Rightarrow> Fatal (n\<lparr>nd_storage := st1\<rparr>)
      | (True, st1) \<Rightarrow>
          let a1 = fold (apply_entry A) (rd_CommittedEntries rd) (nd_applier n);
              st2 = snapshot_check S A (rd_CommittedEntries rd) st1 a1;
              (st3, a3) = (if \<not> IsEmptySnap (rd_Snapshot rd)
                           then (snd (st_ApplySnapshot S (rd_Snapshot rd) st2),
                                 snd (ap_Restore A (sn_Data (rd_Snapshot rd)) a1))
                           else (st2, a1))
          in Advanced \<lparr>nd_storage = st3, nd_applier = a3\<rparr> (rd_Messages rd))"

text \<open>The loop over the \<open>Ready\<close> values the library produces, until it dies.\<close>

fun run_ready ::
  "'s Storage \<Rightarrow> 'a Applier \<Rightarrow> 'msg Ready list \<Rightarrow> ('s, 'a) node \<Rightarrow> ('s, 'a, 'msg) turn" where
  "run_ready S A [] n = Advanced n []"
| "run_ready S A (rd # rds) n =
     (case handle_ready S A rd n of
        Fatal n' \<Rightarrow> Fatal n'
      | Advanced n' msgs \<Rightarrow>
          (case run_ready S A rds n' of
             Fatal n'' \<Rightarrow> Fatal n''
           | Advanced n'' msgs' \<Rightarrow> Advanced n'' (msgs @ msgs')))"

section \<open>NewNode\<close>

datatype start_mode = StartNode "u64 list" | RestartNode

text \<open>The library is started with the peers, or restarted when the storage holds anything; the applier is kept as it is.\<close>

definition start_node :: "'s Storage \<Rightarrow> u64 list \<Rightarrow> 's \<Rightarrow> 'a \<Rightarrow> ('s, 'a) node \<times> start_mode" where
  "start_node S peers st a =
     (\<lparr>nd_storage = st, nd_applier = a\<rparr>, if st_LastIndex S st > 0 then RestartNode else StartNode peers)"

definition NewNode ::
  "raft_codec \<Rightarrow> 'm mem_ops \<Rightarrow> 'd disk \<Rightarrow> bool \<Rightarrow> bytes option \<Rightarrow> bytes \<Rightarrow> u64 list \<Rightarrow> 'd \<Rightarrow> 'a \<Rightarrow>
   ((io_error + replay_error iter_error) +
    ((('m DiskStorage \<times> 'd, 'a) node + ('m, 'a) node) \<times> start_mode))" where
  "NewNode C M D open_ok existing walPath peers d a =
     (if walPath \<noteq> []
      then (case NewDiskStorage C M open_ok existing walPath of
              Inl err \<Rightarrow> Inl err
            | Inr ds \<Rightarrow> (case start_node (disk_storage C M D) peers (ds, d) a of (n, m) \<Rightarrow> Inr (Inl n, m)))
      else (case start_node (memoryStorageWrapper M) peers (mem_New M) a of (n, m) \<Rightarrow> Inr (Inr n, m)))"

section \<open>The HTTP transport\<close>

record HTTPTransport =
  tr_peers :: "u64 \<rightharpoonup> bytes"

definition NewHTTPTransport :: HTTPTransport where
  "NewHTTPTransport = \<lparr>tr_peers = Map.empty\<rparr>"

definition AddPeer :: "u64 \<Rightarrow> bytes \<Rightarrow> HTTPTransport \<Rightarrow> HTTPTransport" where
  "AddPeer pid url t = t\<lparr>tr_peers := (tr_peers t)(pid \<mapsto> url)\<rparr>"

definition SetPeers :: "(u64 \<rightharpoonup> bytes) \<Rightarrow> HTTPTransport \<Rightarrow> HTTPTransport" where
  "SetPeers peers t = t\<lparr>tr_peers := peers\<rparr>"

definition raft_url :: "bytes \<Rightarrow> bytes" where
  "raft_url url = (if \<not> HasSuffix url (lit ''/raft'') then url @ lit ''/raft'' else url)"

text \<open>
  The goroutine that \<open>Send\<close> starts for a message: the URL and the body it posts, if it posts.
  \<open>to\<close> and \<open>marshal\<close> are the message's receiver and wire format.
\<close>

definition send_message :: "('msg \<Rightarrow> u64) \<Rightarrow> ('msg \<Rightarrow> bytes option) \<Rightarrow> HTTPTransport \<Rightarrow> 'msg \<Rightarrow> (bytes \<times> bytes) option" where
  "send_message to marshal t m =
     (case tr_peers t (to m) of
        None \<Rightarrow> None
      | Some url \<Rightarrow>
          (case marshal m of
             None \<Rightarrow> None
           | Some data \<Rightarrow> Some (raft_url url, data)))"

definition Send :: "('msg \<Rightarrow> u64) \<Rightarrow> ('msg \<Rightarrow> bytes option) \<Rightarrow> HTTPTransport \<Rightarrow> 'msg list \<Rightarrow> (bytes \<times> bytes) list" where
  "Send to marshal t msgs = List.map_filter (send_message to marshal t) msgs"

text \<open>The receiving handler: the status of the answer and the message it steps the node with.\<close>

definition transport_Handler :: "(bytes \<Rightarrow> 'msg option) \<Rightarrow> bytes \<Rightarrow> bytes option \<Rightarrow> nat \<times> 'msg option" where
  "transport_Handler unmarshal req_method body =
     (if req_method \<noteq> lit ''POST'' then (405, None)
      else case body of
             None \<Rightarrow> (400, None)
           | Some data \<Rightarrow>
               (case unmarshal data of
                  None \<Rightarrow> (400, None)
                | Some m \<Rightarrow> (200, Some m)))"

section \<open>Properties\<close>

lemma handle_ready_no_snapshot:
  assumes "IsEmptySnap (rd_Snapshot rd)"
  shows "case handle_ready S A rd n of
      Fatal n' \<Rightarrow> nd_applier n' = nd_applier n
    | Advanced n' msgs \<Rightarrow> nd_applier n' = fold (apply_entry A) (rd_CommittedEntries rd) (nd_applier n) \<and>
        msgs = rd_Messages rd"
  using assms by (auto simp: handle_ready_def Let_def split: prod.splits bool.splits)

text \<open>
  Over any sequence of \<open>Ready\<close> values without snapshots the state machine has applied the
  normal, non-empty entries of all committed lists in their order.
\<close>

lemma run_ready_applies:
  assumes "\<forall>rd \<in> set rds. IsEmptySnap (rd_Snapshot rd)"
  shows "case run_ready S A rds n of
      Advanced n' msgs \<Rightarrow>
        nd_applier n' = fold (apply_entry A) (concat (map rd_CommittedEntries rds)) (nd_applier n) \<and>
        msgs = concat (map rd_Messages rds)
    | Fatal n' \<Rightarrow> \<exists>k < length rds.
        nd_applier n' = fold (apply_entry A) (concat (map rd_CommittedEntries (take k rds))) (nd_applier n)"
  using assms
proof (induction rds arbitrary: n)
  case Nil
  then show ?case by simp
next
  case (Cons rd rds)
  have "IsEmptySnap (rd_Snapshot rd)" using Cons.prems by simp
  note h = handle_ready_no_snapshot [OF this, where S = S and A = A and n = n]
  show ?case
  proof (cases "handle_ready S A rd n")
    case (Fatal n')
    with h show ?thesis by (auto intro!: exI [of _ 0])
  next
    case (Advanced n1 msgs)
    note IH = Cons.IH [of n1]
    show ?thesis
    proof (cases "run_ready S A rds n1")
      case (Fatal n2)
      then obtain k where "k < length rds"
        "nd_applier n2 = fold (apply_entry A) (concat (map rd_CommittedEntries (take k rds))) (nd_applier n1)"
        using IH Cons.prems by auto
      with Advanced Fatal h show ?thesis by (auto intro!: exI [of _ "Suc k"])
    next
      case (Advanced n2 msgs')
      with \<open>handle_ready S A rd n = Advanced n1 msgs\<close> h IH Cons.prems show ?thesis by simp
    qed
  qed
qed

definition quiet_ready :: "Entry list \<Rightarrow> nat Ready" where
  "quiet_ready es = \<lparr>rd_Entries = es, rd_HardState = \<lparr>hs_Term = 0, hs_Vote = 0, hs_Commit = 0\<rparr>, rd_Messages = [7],
     rd_CommittedEntries = es, rd_Snapshot = \<lparr>sn_Data = [], sn_Voters = [], sn_Index = 0, sn_Term = 0\<rparr>\<rparr>"

definition log_applier :: "bytes list Applier" where
  "log_applier = \<lparr>ap_Apply = (\<lambda>e a. a @ [en_Data e]), ap_GetSnapshot = (\<lambda>a. Some (concat a)),
     ap_Restore = (\<lambda>d a. (True, [d]))\<rparr>"

text \<open>
  The guard of the snapshot in numbers: the unsigned subtraction does not underflow, and the
  last committed index has to be more than 50 above the first index of the log, so a log of
  51 entries does not trigger a snapshot yet.
\<close>

lemma snapshot_threshold:
  "snapshot_check S A committed st a =
     (if committed \<noteq> [] \<and> unat (st_FirstIndex S st) + 50 < unat (en_Index (last committed))
      then (case ap_GetSnapshot A a of
              None \<Rightarrow> st
            | Some data \<Rightarrow> snd (st_CreateSnapshot S (en_Index (last committed)) [1, 2, 3] data st))
      else st)"
proof -
  have "fi < la \<and> 50 < la - fi \<longleftrightarrow> unat fi + 50 < unat la" for fi la :: u64
  proof (cases "fi < la")
    case True
    then have "unat (la - fi) = unat la - unat fi" by (simp add: unat_sub)
    with True show ?thesis by (auto simp: word_less_nat_alt)
  next
    case False
    then show ?thesis by (simp add: word_less_nat_alt)
  qed
  then show ?thesis by (auto simp: snapshot_check_def Let_def)
qed

text \<open>
  A snapshot undoes the entries of its turn: the loop applies the committed entries before
  it restores the snapshot of the same \<open>Ready\<close>, so with a state machine whose \<open>Restore\<close>
  replaces its state, the entries leave no trace, whatever they are.
\<close>

theorem snapshot_undoes_entries:
  assumes "handle_ready S A rd n = Advanced n' msgs" and "\<not> IsEmptySnap (rd_Snapshot rd)"
    and "\<forall>a b. ap_Restore A (sn_Data (rd_Snapshot rd)) a = ap_Restore A (sn_Data (rd_Snapshot rd)) b"
  shows "nd_applier n' = snd (ap_Restore A (sn_Data (rd_Snapshot rd)) (nd_applier n))"
proof -
  have "nd_applier n' = snd (ap_Restore A (sn_Data (rd_Snapshot rd))
      (fold (apply_entry A) (rd_CommittedEntries rd) (nd_applier n)))"
    using assms(1,2) by (auto simp: handle_ready_def Let_def split: prod.splits bool.splits)
  with assms(3) show ?thesis by metis
qed

theorem snapshot_undoes_entries_witness:
  "\<exists>n' msgs. handle_ready (memoryStorageWrapper list_mem_ops) log_applier
      ((quiet_ready sample_entries)\<lparr>rd_Snapshot := \<lparr>sn_Data = [9], sn_Voters = [], sn_Index = 5, sn_Term = 1\<rparr>\<rparr>)
      \<lparr>nd_storage = mem_New list_mem_ops, nd_applier = []\<rparr> = Advanced n' msgs \<and> nd_applier n' = [[9]]"
proof -
  let ?rd = "(quiet_ready sample_entries)\<lparr>rd_Snapshot := \<lparr>sn_Data = [9], sn_Voters = [], sn_Index = 5, sn_Term = 1\<rparr>\<rparr>"
  let ?n = "\<lparr>nd_storage = mem_New list_mem_ops, nd_applier = [] :: bytes list\<rparr>"
  obtain n' msgs where h: "handle_ready (memoryStorageWrapper list_mem_ops) log_applier ?rd ?n = Advanced n' msgs"
    by (simp add: handle_ready_def memoryStorageWrapper_def wrapper_Save_def Let_def case_prod_beta)
  with snapshot_undoes_entries [OF h] show ?thesis
    by (auto simp: quiet_ready_def IsEmptySnap_def log_applier_def)
qed

text \<open>
  Messages reach their receiver: \<open>Send\<close> posts each message to a known peer that marshals,
  in order and nothing else, to a URL that ends in the raft endpoint exactly once, and the
  receiving handler steps its node with the same message.
\<close>

theorem transport_delivers:
  assumes "\<forall>m data. marshal m = Some data \<longrightarrow> unmarshal data = Some m"
  shows "Send to marshal t msgs =
      List.map_filter (\<lambda>m. case (tr_peers t (to m), marshal m) of
        (Some url, Some data) \<Rightarrow> Some (raft_url url, data) | _ \<Rightarrow> None) msgs \<and>
    (\<forall>(url, data) \<in> set (Send to marshal t msgs).
      HasSuffix url (lit ''/raft'') \<and>
      (\<exists>m \<in> set msgs. transport_Handler unmarshal (lit ''POST'') (Some data) = (200, Some m)))"
proof -
  have suf: "HasSuffix (raft_url url) (lit ''/raft'')" for url
    by (simp add: raft_url_def HasSuffix_def)
  have "send_message to marshal t = (\<lambda>m. case (tr_peers t (to m), marshal m) of
        (Some url, Some data) \<Rightarrow> Some (raft_url url, data) | _ \<Rightarrow> None)"
    by (auto simp: send_message_def fun_eq_iff split: option.split)
  moreover have "\<exists>m \<in> set msgs. marshal m = Some data" and "HasSuffix url (lit ''/raft'')"
    if "(url, data) \<in> set (Send to marshal t msgs)" for url data
    using that suf by (auto simp: Send_def map_filter_def send_message_def split: option.splits)
  ultimately show ?thesis
    using assms by (fastforce simp: Send_def transport_Handler_def)
qed

theorem transport_delivers_witness:
  "Send (\<lambda>_. 2) (\<lambda>m. Some m) (AddPeer 2 (lit ''http://h:1'') NewHTTPTransport) [[1, 2]] = [(lit ''http://h:1/raft'', [1, 2])]"
proof -
  have u: "raft_url (lit ''http://h:1'') = lit ''http://h:1/raft''" by code_simp
  have "Send (\<lambda>_. 2) (\<lambda>m. Some m) (AddPeer 2 (lit ''http://h:1'') NewHTTPTransport) [[1, 2]] =
      List.map_filter (\<lambda>m. case (tr_peers (AddPeer 2 (lit ''http://h:1'') NewHTTPTransport) 2, Some m) of
        (Some url, Some data) \<Rightarrow> Some (raft_url url, data) | _ \<Rightarrow> None) [[1, 2]]"
    using transport_delivers [of "\<lambda>m. Some m" "\<lambda>d. Some d" "\<lambda>_. 2" "AddPeer 2 (lit ''http://h:1'') NewHTTPTransport" "[[1, 2]]"]
    by simp
  then show ?thesis by (simp add: map_filter_simps AddPeer_def NewHTTPTransport_def u)
qed

end
