(* ===== verification/Raft_Run.thy ===== *)
theory Raft_Run
  imports Raft_Node
begin

text \<open>
  The main loop of the raft node, \<open>Run\<close> of \<^verbatim>\<open>internal/raft/node.go\<close>, with \<open>Propose\<close> and \<open>Step\<close>,
  which other goroutines call while it runs.  Ticks, \<open>Ready\<close> values and the calls of the other
  goroutines interleave in any order.  The library's node is a parameter: a state and the
  operations the code calls; it shares the storage with the loop.
\<close>

section \<open>The loop\<close>

record ('r, 's, 'msg) raft_lib =
  rn_Tick :: "'s \<Rightarrow> 'r \<Rightarrow> 'r"
  rn_Ready :: "'s \<Rightarrow> 'r \<Rightarrow> 'msg Ready option"      \<comment> \<open>the value waiting in the channel\<close>
  rn_Advance :: "'s \<Rightarrow> 'r \<Rightarrow> 'r"
  rn_Stop :: "'r \<Rightarrow> 'r"
  rn_Propose :: "bytes \<Rightarrow> 's \<Rightarrow> 'r \<Rightarrow> bool \<times> 'r"
  rn_Step :: "'msg \<Rightarrow> 's \<Rightarrow> 'r \<Rightarrow> bool \<times> 'r"

datatype phase = Looping | Stopped | Died

record ('r, 's, 'a, 'msg) run =
  run_raft :: 'r
  run_node :: "('s, 'a) node"
  run_sent :: "'msg list"         \<comment> \<open>handed to the transport\<close>
  run_phase :: phase
  run_taken :: "'msg Ready list"  \<comment> \<open>the values taken from the library so far, for the proofs\<close>

definition node_Propose :: "('r, 's, 'msg) raft_lib \<Rightarrow> bytes \<Rightarrow> ('r, 's, 'a, 'msg) run \<Rightarrow> bool \<times> ('r, 's, 'a, 'msg) run" where
  "node_Propose L data x =
     (case rn_Propose L data (nd_storage (run_node x)) (run_raft x) of (ok, r) \<Rightarrow> (ok, x\<lparr>run_raft := r\<rparr>))"

definition node_Step :: "('r, 's, 'msg) raft_lib \<Rightarrow> 'msg \<Rightarrow> ('r, 's, 'a, 'msg) run \<Rightarrow> bool \<times> ('r, 's, 'a, 'msg) run" where
  "node_Step L m x =
     (case rn_Step L m (nd_storage (run_node x)) (run_raft x) of (ok, r) \<Rightarrow> (ok, x\<lparr>run_raft := r\<rparr>))"

text \<open>The three cases of the \<^verbatim>\<open>select\<close>, and the calls from outside, which also come after \<open>Run\<close> has returned.\<close>

inductive run_step ::
  "('r, 's, 'msg) raft_lib \<Rightarrow> 's Storage \<Rightarrow> 'a Applier \<Rightarrow> ('r, 's, 'a, 'msg) run \<Rightarrow> ('r, 's, 'a, 'msg) run \<Rightarrow> bool"
  for L S A where
  stop: "run_phase x = Looping \<Longrightarrow>
    run_step L S A x (x\<lparr>run_raft := rn_Stop L (run_raft x), run_phase := Stopped\<rparr>)"
| tick: "run_phase x = Looping \<Longrightarrow>
    run_step L S A x (x\<lparr>run_raft := rn_Tick L (nd_storage (run_node x)) (run_raft x)\<rparr>)"
| ready: "run_phase x = Looping \<Longrightarrow> rn_Ready L (nd_storage (run_node x)) (run_raft x) = Some rd \<Longrightarrow>
    handle_ready S A rd (run_node x) = Advanced n msgs \<Longrightarrow>
    run_step L S A x (x\<lparr>run_raft := rn_Advance L (nd_storage n) (run_raft x), run_node := n, run_sent := run_sent x @ msgs,
      run_taken := run_taken x @ [rd]\<rparr>)"
| fatal: "run_phase x = Looping \<Longrightarrow> rn_Ready L (nd_storage (run_node x)) (run_raft x) = Some rd \<Longrightarrow>
    handle_ready S A rd (run_node x) = Fatal n \<Longrightarrow>
    run_step L S A x (x\<lparr>run_node := n, run_phase := Died\<rparr>)"
| propose: "run_phase x \<noteq> Died \<Longrightarrow> run_step L S A x (snd (node_Propose L data x))"
| step: "run_phase x \<noteq> Died \<Longrightarrow> run_step L S A x (snd (node_Step L m x))"

inductive_cases run_step_cases: "run_step L S A x y"

lemma handle_ready_Fatal: "handle_ready S A rd n = Fatal n' \<Longrightarrow> nd_applier n' = nd_applier n"
  by (auto simp: handle_ready_def Let_def split: prod.splits bool.splits if_splits)

lemma run_ready_snoc:
  "run_ready S A (rds @ [rd]) n =
     (case run_ready S A rds n of
        Fatal n' \<Rightarrow> Fatal n'
      | Advanced n' msgs \<Rightarrow>
          (case handle_ready S A rd n' of
             Fatal n'' \<Rightarrow> Fatal n''
           | Advanced n'' msgs' \<Rightarrow> Advanced n'' (msgs @ msgs')))"
  by (induction rds arbitrary: n) (simp_all split: turn.split)

text \<open>
  The state of a run that has not died is that of the \<open>Ready\<close> values it took, handled one
  after the other; ticks, proposals and messages leave the node alone.
\<close>

definition follows :: "'s Storage \<Rightarrow> 'a Applier \<Rightarrow> ('s, 'a) node \<Rightarrow> ('r, 's, 'a, 'msg) run \<Rightarrow> bool" where
  "follows S A n0 x \<longleftrightarrow>
     (if run_phase x = Died
      then \<exists>n msgs (rd :: 'msg Ready). run_ready S A (run_taken x) n0 = Advanced n msgs \<and> run_sent x = msgs \<and>
             handle_ready S A rd n = Fatal (run_node x)
      else run_ready S A (run_taken x) n0 = Advanced (run_node x) (run_sent x))"

lemma follows_step: "run_step L S A x y \<Longrightarrow> follows S A n0 x \<Longrightarrow> follows S A n0 y"
  by (erule run_step_cases)
     (auto simp: follows_def run_ready_snoc node_Propose_def node_Step_def split: prod.split)

definition start_run :: "'r \<Rightarrow> ('s, 'a) node \<Rightarrow> ('r, 's, 'a, 'msg) run" where
  "start_run r n = \<lparr>run_raft = r, run_node = n, run_sent = [], run_phase = Looping, run_taken = []\<rparr>"

lemma run_follows: "(run_step L S A)\<^sup>*\<^sup>* (start_run r n0) x \<Longrightarrow> follows S A n0 x"
proof (induction rule: rtranclp_induct)
  case base
  show ?case by (simp add: follows_def start_run_def)
next
  case (step y z)
  then show ?case by (blast intro: follows_step)
qed

section \<open>Invariants of the state machine\<close>

text \<open>
  What a state machine promises the loop: an invariant that good entries and good snapshots
  keep, and good snapshots of good states.
\<close>

locale applier_inv =
  fixes A :: "'a Applier" and I :: "'a \<Rightarrow> bool" and good_entry :: "Entry \<Rightarrow> bool" and good_data :: "bytes \<Rightarrow> bool"
  assumes Apply_keeps: "I a \<Longrightarrow> good_entry e \<Longrightarrow> I (ap_Apply A e a)"
    and Restore_keeps: "I a \<Longrightarrow> good_data d \<Longrightarrow> I (snd (ap_Restore A d a))"
    and GetSnapshot_good: "I a \<Longrightarrow> ap_GetSnapshot A a = Some d \<Longrightarrow> good_data d"
begin

lemma apply_entries_keep: "I a \<Longrightarrow> \<forall>e \<in> set es. good_entry e \<Longrightarrow> I (fold (apply_entry A) es a)"
  by (induction es arbitrary: a) (auto simp: apply_entry_def Apply_keeps)

lemma handle_ready_keeps:
  assumes "I (nd_applier n)" and "\<forall>e \<in> set (rd_CommittedEntries rd). good_entry e"
    and "IsEmptySnap (rd_Snapshot rd) \<or> good_data (sn_Data (rd_Snapshot rd))"
    and "handle_ready S A rd n = Advanced n' msgs"
  shows "I (nd_applier n')"
  using assms apply_entries_keep [OF assms(1,2)]
  by (auto simp: handle_ready_def Let_def intro: Restore_keeps split: prod.splits bool.splits if_splits)

lemma run_ready_keeps:
  assumes "I (nd_applier n)" and "run_ready S A rds n = Advanced n' msgs"
    and "\<forall>rd \<in> set rds. (\<forall>e \<in> set (rd_CommittedEntries rd). good_entry e) \<and>
      (IsEmptySnap (rd_Snapshot rd) \<or> good_data (sn_Data (rd_Snapshot rd)))"
  shows "I (nd_applier n')"
  using assms
proof (induction rds arbitrary: n msgs)
  case Nil
  then show ?case by simp
next
  case (Cons rd rds)
  then obtain n1 m1 m2 where h: "handle_ready S A rd n = Advanced n1 m1" "run_ready S A rds n1 = Advanced n' m2"
    by (auto split: turn.splits)
  have "I (nd_applier n1)" by (rule handle_ready_keeps [OF Cons.prems(1) _ _ h(1)]) (use Cons.prems(3) in simp_all)
  with Cons.IH [OF _ h(2)] Cons.prems(3) show ?case by simp
qed

lemma run_keeps:
  fixes x :: "('r, 's, 'a, 'msg) run"
  assumes "I (nd_applier n0)" and "(run_step L S A)\<^sup>*\<^sup>* (start_run r n0) x"
    and "\<forall>rd \<in> set (run_taken x). (\<forall>e \<in> set (rd_CommittedEntries rd). good_entry e) \<and>
      (IsEmptySnap (rd_Snapshot rd) \<or> good_data (sn_Data (rd_Snapshot rd)))"
  shows "I (nd_applier (run_node x))"
proof (cases "run_phase x = Died")
  case False
  then have "run_ready S A (run_taken x) n0 = Advanced (run_node x) (run_sent x)"
    using run_follows [OF assms(2)] by (simp add: follows_def)
  from run_ready_keeps [OF assms(1) this assms(3)] show ?thesis .
next
  case True
  then obtain n and rd :: "'msg Ready" where n: "run_ready S A (run_taken x) n0 = Advanced n (run_sent x)"
    "handle_ready S A rd n = Fatal (run_node x)"
    using run_follows [OF assms(2)] by (auto simp: follows_def)
  have "I (nd_applier n)" by (rule run_ready_keeps [OF assms(1) n(1) assms(3)])
  with handle_ready_Fatal [OF n(2)] show ?thesis by simp
qed

end

section \<open>Durability\<close>

text \<open>A \<open>Ready\<close> value of the first fifty entries that carries no snapshot and fits into the log file.\<close>

definition early_ready :: "raft_codec \<Rightarrow> 'msg Ready \<Rightarrow> bool" where
  "early_ready C rd \<longleftrightarrow> IsEmptySnap (rd_Snapshot rd) \<and> consecutive (rd_Entries rd) \<and>
     save_fits C (rd_Entries rd) (rd_HardState rd) \<and>
     (rd_CommittedEntries rd = [] \<or> unat (en_Index (last (rd_CommittedEntries rd))) \<le> 50)"

lemma snapshot_check_early:
  assumes "committed = [] \<or> unat (en_Index (last committed)) \<le> 50"
  shows "snapshot_check S A committed st a = st"
  using assms by (auto simp: snapshot_threshold)

definition recoverable :: "raft_codec \<Rightarrow> 'm mem_ops \<Rightarrow> ('m DiskStorage \<times> 'd, 'a) node \<Rightarrow> bool" where
  "recoverable C M n \<longleftrightarrow> replays C M (ds_wal (fst (nd_storage n))) (ds_mem (fst (nd_storage n)))"

lemma handle_ready_recoverable:
  fixes D :: "'c disk" and M :: "'b mem_ops"
  assumes "wire_format C" and "log_store M ents snap" and "recoverable C M n" and "early_ready C rd"
    and "handle_ready (disk_storage C M D) A rd n = Advanced n' msgs"
  shows "recoverable C M n'"
proof -
  obtain ds d where st: "nd_storage n = (ds, d)" by fastforce
  obtain err ds1 d1 where sv: "Save C M D (rd_Entries rd) (rd_HardState rd) ds d = (err, ds1, d1)" by (metis prod_cases3)
  have check: "snapshot_check S A (rd_CommittedEntries rd) st a = st" for S :: "('b DiskStorage \<times> 'c) Storage" and st a
    using assms(4) by (intro snapshot_check_early) (simp add: early_ready_def)
  have "err = None" and n': "nd_storage n' = (ds1, d1)"
    using assms(4,5) st sv
    by (auto simp: handle_ready_def disk_storage_def check early_ready_def Let_def split: bool.splits if_splits)
  then show ?thesis
    using wire_format.Save_replays [OF assms(1,2) _ _ _ sv [unfolded \<open>err = None\<close>]] assms(3,4) st
    by (simp add: recoverable_def early_ready_def)
qed

lemma run_ready_recoverable:
  assumes "wire_format C" and "log_store M ents snap" and "recoverable C M n" and "\<forall>rd \<in> set rds. early_ready C rd"
    and "run_ready (disk_storage C M D) A rds n = Advanced n' msgs"
  shows "recoverable C M n'"
  using assms(3-)
proof (induction rds arbitrary: n msgs)
  case Nil
  then show ?case by simp
next
  case (Cons rd rds)
  then obtain n1 m1 m2 where h: "handle_ready (disk_storage C M D) A rd n = Advanced n1 m1"
    "run_ready (disk_storage C M D) A rds n1 = Advanced n' m2"
    by (auto split: turn.splits)
  have "recoverable C M n1"
    by (rule handle_ready_recoverable [OF assms(1,2) Cons.prems(1) _ h(1)]) (use Cons.prems(2) in simp)
  from Cons.IH [OF this _ h(2)] Cons.prems(2) show ?case by simp
qed

lemma NewNode_recovers:
  assumes "replays C M w mem" and "walPath \<noteq> []"
  shows "\<exists>w'. NewNode C M D True (Some (wal_f w)) walPath peers d a =
    Inr (Inl \<lparr>nd_storage = (\<lparr>ds_mem = mem, ds_wal = w'\<rparr>, d), nd_applier = a\<rparr>,
      if mem_LastIndex M mem > 0 then RestartNode else StartNode peers)"
  using NewDiskStorage_replays [OF assms(1), of walPath] assms(2)
  by (auto simp: NewNode_def start_node_def disk_storage_def)

lemma NewNode_fresh:
  assumes "walPath \<noteq> []" and "NewNode C M D True None walPath peers d a = Inr (Inl n, mode)"
  shows "recoverable C M n \<and> nd_applier n = a"
  using assms by (auto simp: NewNode_def NewDiskStorage_def wal_Open_def wal_Iterate_def start_node_def recoverable_def replays_def
      split: prod.splits option.splits intro!: exI [of _ "[]"])

text \<open>The guard of the loop over the committed entries, as a filter.\<close>

lemma fold_apply_entry:
  "fold (apply_entry A) es a = fold (ap_Apply A) (filter (\<lambda>e. en_Type e = EntryNormal \<and> en_Data e \<noteq> []) es) a"
  by (induction es arbitrary: a) (auto simp: apply_entry_def)

lemma run_applied:
  fixes x :: "('r, 's, 'a, 'msg) run"
  assumes "(run_step L S A)\<^sup>*\<^sup>* (start_run r n0) x"
    and "\<forall>rd \<in> set (run_taken x). IsEmptySnap (rd_Snapshot rd)"
  shows "nd_applier (run_node x) =
      fold (ap_Apply A)
        (filter (\<lambda>e. en_Type e = EntryNormal \<and> en_Data e \<noteq> []) (concat (map rd_CommittedEntries (run_taken x))))
        (nd_applier n0)"
    and "run_sent x = concat (map rd_Messages (run_taken x))"
proof -
  note fol = run_follows [OF assms(1)]
  note app = run_ready_applies [OF assms(2), where S = S and A = A and n = n0, unfolded fold_apply_entry]
  obtain n where n: "run_ready S A (run_taken x) n0 = Advanced n (run_sent x)" "nd_applier (run_node x) = nd_applier n"
  proof (cases "run_phase x = Died")
    case False
    with fol that show ?thesis by (simp add: follows_def)
  next
    case True
    with fol obtain n and rd :: "'msg Ready" where
      "run_ready S A (run_taken x) n0 = Advanced n (run_sent x)" "handle_ready S A rd n = Fatal (run_node x)"
      by (auto simp: follows_def)
    with that handle_ready_Fatal show ?thesis by metis
  qed
  with app show "nd_applier (run_node x) =
      fold (ap_Apply A)
        (filter (\<lambda>e. en_Type e = EntryNormal \<and> en_Data e \<noteq> []) (concat (map rd_CommittedEntries (run_taken x))))
        (nd_applier n0)"
    and "run_sent x = concat (map rd_Messages (run_taken x))" by simp_all
qed

section \<open>Properties\<close>

text \<open>
  (C14) The loop is sequential whatever happens around it: take any interleaving of ticks,
  \<open>Ready\<close> values, proposals and messages in which no \<open>Ready\<close> value carries a snapshot.  The
  state machine has been given, by \<open>Apply\<close>, exactly the committed entries of the \<open>Ready\<close> values
  taken that are of the normal type and carry data, each once and in order, and nothing else;
  exactly the messages of those \<open>Ready\<close> values have been sent; and a run that has not died is
  in the state that handling them one after the other leads to.  When a save fails the process
  dies with the entries of that \<open>Ready\<close> value not applied.
\<close>

theorem Run_applies_in_order:
  fixes x :: "('r, 's, 'a, 'msg) run"
  assumes "(run_step L S A)\<^sup>*\<^sup>* (start_run r n0) x"
    and "\<forall>rd \<in> set (run_taken x). IsEmptySnap (rd_Snapshot rd)"
  shows "nd_applier (run_node x) =
      fold (ap_Apply A)
        (filter (\<lambda>e. en_Type e = EntryNormal \<and> en_Data e \<noteq> []) (concat (map rd_CommittedEntries (run_taken x))))
        (nd_applier n0) \<and>
    run_sent x = concat (map rd_Messages (run_taken x)) \<and>
    (run_phase x \<noteq> Died \<longrightarrow> run_ready S A (run_taken x) n0 = Advanced (run_node x) (run_sent x))"
  using run_applied [OF assms] run_follows [OF assms(1)] by (simp add: follows_def)

text \<open>A library whose state is the list of \<open>Ready\<close> values still to come, for the witnesses.\<close>

definition queue_lib :: "('msg Ready list, 's, 'msg) raft_lib" where
  "queue_lib = \<lparr>rn_Tick = (\<lambda>_ r. r), rn_Ready = (\<lambda>_ r. case r of [] \<Rightarrow> None | rd # _ \<Rightarrow> Some rd), rn_Advance = (\<lambda>_. tl),
     rn_Stop = (\<lambda>r. r), rn_Propose = (\<lambda>_ _ r. (True, r)), rn_Step = (\<lambda>_ _ r. (True, r))\<rparr>"

lemma queue_runs:
  assumes "run_ready S A rds (run_node x) = Advanced n msgs" and "run_phase x = Looping" and "run_raft x = rds"
  shows "(run_step queue_lib S A)\<^sup>*\<^sup>* x
    (x\<lparr>run_raft := [], run_node := n, run_sent := run_sent x @ msgs, run_taken := run_taken x @ rds\<rparr>)"
  using assms
proof (induction rds arbitrary: x msgs)
  case Nil
  then show ?case by (cases x) simp
next
  case (Cons rd rds)
  obtain n1 m1 m2 where h: "handle_ready S A rd (run_node x) = Advanced n1 m1"
    and r: "run_ready S A rds n1 = Advanced n m2" and m: "msgs = m1 @ m2"
    using Cons.prems(1) by (auto split: turn.splits)
  let ?y = "x\<lparr>run_raft := rds, run_node := n1, run_sent := run_sent x @ m1, run_taken := run_taken x @ [rd]\<rparr>"
  have "run_step queue_lib S A x ?y"
    using run_step.ready [where L = queue_lib and S = S and A = A and x = x, OF Cons.prems(2) _ h] Cons.prems(3)
    by (simp add: queue_lib_def)
  moreover have "(run_step queue_lib S A)\<^sup>*\<^sup>* ?y
      (?y\<lparr>run_raft := [], run_node := n, run_sent := run_sent ?y @ m2, run_taken := run_taken ?y @ rds\<rparr>)"
    by (rule Cons.IH) (use r Cons.prems(2) in simp_all)
  ultimately show ?case by (simp add: m)
qed

theorem Run_applies_in_order_witness:
  "\<exists>x. (run_step queue_lib (memoryStorageWrapper list_mem_ops) log_applier)\<^sup>*\<^sup>*
      (start_run [quiet_ready sample_entries, quiet_ready []] \<lparr>nd_storage = mem_New list_mem_ops, nd_applier = []\<rparr>) x \<and>
    nd_applier (run_node x) = [[7], [8]] \<and> run_sent x = [7, 7]"
proof -
  let ?rds = "[quiet_ready sample_entries, quiet_ready []]" and ?n = "\<lparr>nd_storage = mem_New list_mem_ops, nd_applier = []\<rparr>"
  obtain n msgs where "run_ready (memoryStorageWrapper list_mem_ops) log_applier ?rds ?n = Advanced n msgs"
    by (simp add: handle_ready_def memoryStorageWrapper_def wrapper_Save_def Let_def case_prod_beta)
  from queue_runs [of _ _ _ "start_run ?rds ?n", simplified start_run_def, simplified, OF this]
  obtain x where x: "(run_step queue_lib (memoryStorageWrapper list_mem_ops) log_applier)\<^sup>*\<^sup>* (start_run ?rds ?n) x"
    "run_taken x = ?rds"
    unfolding start_run_def by fastforce
  have "\<forall>rd \<in> set (run_taken x). IsEmptySnap (rd_Snapshot rd)"
    by (simp add: x(2) quiet_ready_def IsEmptySnap_def)
  from Run_applies_in_order [OF x(1) this] x show ?thesis
    by (auto simp: quiet_ready_def sample_entries_def apply_entry_def log_applier_def)
qed

text \<open>
  (C15) Crash recovery: a node starts on an empty log file and runs, with any interleaving of
  ticks, proposals and messages, through \<open>Ready\<close> values of its first fifty entries.  If the
  process stops at any moment between two turns, a node started from the file has exactly the
  entries, hard state and snapshot the storage had, and is restarted when there is an entry;
  and when the library then delivers the committed entries again, however they are divided,
  the state machine ends where it was.
\<close>

theorem crash_recovery:
  fixes x :: "('r, 'm DiskStorage \<times> 'd, 'a, 'msg) run"
  assumes "wire_format C" and "log_store M ents snap" and "walPath \<noteq> []"
    and "NewNode C M D True None walPath peers d a = Inr (Inl n0, mode)"
    and "(run_step L (disk_storage C M D) A)\<^sup>*\<^sup>* (start_run r n0) x" and "run_phase x \<noteq> Died"
    and "\<forall>rd \<in> set (run_taken x). early_ready C rd"
    and "nd_storage (run_node x) = (ds, d1)"
  shows "\<exists>n mode. NewNode C M D True (Some (wal_f (ds_wal ds))) walPath peers d1 a = Inr (Inl n, mode) \<and>
    ds_mem (fst (nd_storage n)) = ds_mem ds \<and> (mode = RestartNode \<longleftrightarrow> mem_LastIndex M (ds_mem ds) > 0) \<and>
    (\<forall>(rds :: 'msg Ready list) n' msgs. (\<forall>rd \<in> set rds. IsEmptySnap (rd_Snapshot rd)) \<longrightarrow>
      concat (map rd_CommittedEntries rds) = concat (map rd_CommittedEntries (run_taken x)) \<longrightarrow>
      run_ready (disk_storage C M D) A rds n = Advanced n' msgs \<longrightarrow> nd_applier n' = nd_applier (run_node x))"
proof -
  have run: "run_ready (disk_storage C M D) A (run_taken x) n0 = Advanced (run_node x) (run_sent x)"
    using run_follows [OF assms(5)] assms(6) by (simp add: follows_def)
  note fresh = NewNode_fresh [OF assms(3,4)]
  have "recoverable C M (run_node x)"
    by (rule run_ready_recoverable [OF assms(1,2) _ assms(7) run]) (use fresh in simp)
  then have "replays C M (ds_wal ds) (ds_mem ds)" using assms(8) by (simp add: recoverable_def)
  from NewNode_recovers [OF this assms(3), of D peers d1 a] obtain w' where
    new: "NewNode C M D True (Some (wal_f (ds_wal ds))) walPath peers d1 a =
      Inr (Inl \<lparr>nd_storage = (\<lparr>ds_mem = ds_mem ds, ds_wal = w'\<rparr>, d1), nd_applier = a\<rparr>,
        if mem_LastIndex M (ds_mem ds) > 0 then RestartNode else StartNode peers)" by blast
  have x: "nd_applier (run_node x) = fold (apply_entry A) (concat (map rd_CommittedEntries (run_taken x))) a"
    using run_ready_applies [where S = "disk_storage C M D" and A = A and n = n0 and rds = "run_taken x"] run fresh assms(7)
    by (simp add: early_ready_def)
  have "nd_applier n' = nd_applier (run_node x)"
    if "\<forall>rd \<in> set rds. IsEmptySnap (rd_Snapshot rd)"
      "concat (map rd_CommittedEntries rds) = concat (map rd_CommittedEntries (run_taken x))"
      "run_ready (disk_storage C M D) A rds \<lparr>nd_storage = (\<lparr>ds_mem = ds_mem ds, ds_wal = w'\<rparr>, d1), nd_applier = a\<rparr> = Advanced n' msgs"
    for n' msgs and rds :: "'msg Ready list"
    using run_ready_applies [OF that(1), where S = "disk_storage C M D" and A = A
        and n = "\<lparr>nd_storage = (\<lparr>ds_mem = ds_mem ds, ds_wal = w'\<rparr>, d1), nd_applier = a\<rparr>"] that(2,3) x
    by simp
  with new show ?thesis by auto
qed

definition saved_ready :: "nat Ready" where
  "saved_ready = (quiet_ready sample_entries)\<lparr>rd_HardState := sample_hs\<rparr>"

theorem crash_recovery_witness:
  "\<exists>n0 x ds n mode. NewNode be_codec list_mem_ops good_disk True None (lit ''x'') [1] () [] = Inr (Inl n0, StartNode [1]) \<and>
     (run_step queue_lib (disk_storage be_codec list_mem_ops good_disk) log_applier)\<^sup>*\<^sup>* (start_run [saved_ready] n0) x \<and>
     nd_applier (run_node x) = [[7], [8]] \<and> nd_storage (run_node x) = (ds, ()) \<and>
     NewNode be_codec list_mem_ops good_disk True (Some (wal_f (ds_wal ds))) (lit ''x'') [1] () ([] :: bytes list) = Inr (Inl n, mode) \<and>
     ls_ents (ds_mem (fst (nd_storage n))) = sample_entries"
proof -
  let ?S = "disk_storage be_codec list_mem_ops good_disk"
  let ?w = "\<lparr>wal_f = [], wal_pos = 0, wal_path = lit ''x''\<rparr>"
  let ?n0 = "\<lparr>nd_storage = (\<lparr>ds_mem = mem_New list_mem_ops, ds_wal = ?w\<rparr>, ()), nd_applier = [] :: bytes list\<rparr>"
  have "NewDiskStorage be_codec list_mem_ops True None (lit ''x'') = Inr \<lparr>ds_mem = mem_New list_mem_ops, ds_wal = ?w\<rparr>"
    by (simp add: NewDiskStorage_def wal_Open_def wal_Iterate_def)
  moreover have x: "lit ''x'' \<noteq> []" by (simp add: lit_def)
  ultimately have n0: "NewNode be_codec list_mem_ops good_disk True None (lit ''x'') [1] () [] = Inr (Inl ?n0, StartNode [1])"
    by (simp add: NewNode_def start_node_def disk_storage_def list_mem_ops_def ls_Last_def)
  have "\<exists>w. Save be_codec list_mem_ops good_disk sample_entries sample_hs \<lparr>ds_mem = mem_New list_mem_ops, ds_wal = ?w\<rparr> () =
      (None, \<lparr>ds_mem = mem_SetHardState list_mem_ops (mem_Append list_mem_ops (mem_New list_mem_ops) sample_entries) sample_hs, ds_wal = w\<rparr>, ())"
    using Save_good [where ds = "\<lparr>ds_mem = mem_New list_mem_ops, ds_wal = ?w\<rparr>" and C = be_codec]
    by (auto simp: be_codec_def be_marshal_Entry_def be_marshal_HardState_def be_Marshal_def IsEmptyHardState_def sample_hs_def)
  then obtain w mem where sv: "Save be_codec list_mem_ops good_disk sample_entries sample_hs \<lparr>ds_mem = mem_New list_mem_ops, ds_wal = ?w\<rparr> () =
      (None, \<lparr>ds_mem = mem, ds_wal = w\<rparr>, ())" and ents: "ls_ents mem = sample_entries"
    by (auto simp: sample_entries_def list_mem_ops_def ls_Append_def)
  have last: "unat (en_Index (last sample_entries)) \<le> 50" by (simp add: sample_entries_def)
  have early: "early_ready be_codec saved_ready"
    using sample_fits last by (simp add: early_ready_def saved_ready_def quiet_ready_def IsEmptySnap_def) (simp add: sample_entries_def)
  have apps: "fold (apply_entry log_applier) sample_entries [] = [[7], [8]]"
    by (simp add: sample_entries_def apply_entry_def log_applier_def)
  have h: "handle_ready ?S log_applier saved_ready ?n0 =
      Advanced \<lparr>nd_storage = (\<lparr>ds_mem = mem, ds_wal = w\<rparr>, ()), nd_applier = [[7], [8]]\<rparr> [7]"
    using sv last apps
    by (simp add: handle_ready_def saved_ready_def quiet_ready_def disk_storage_def IsEmptySnap_def snapshot_check_early Let_def)
  then have "run_ready ?S log_applier [saved_ready] ?n0 =
      Advanced \<lparr>nd_storage = (\<lparr>ds_mem = mem, ds_wal = w\<rparr>, ()), nd_applier = [[7], [8]]\<rparr> [7]" by simp
  from queue_runs [of _ _ _ "start_run [saved_ready] ?n0", simplified start_run_def, simplified, OF this]
  obtain x where run: "(run_step queue_lib ?S log_applier)\<^sup>*\<^sup>* (start_run [saved_ready] ?n0) x" "run_phase x \<noteq> Died"
    and taken: "run_taken x = [saved_ready]"
    and node: "run_node x = \<lparr>nd_storage = (\<lparr>ds_mem = mem, ds_wal = w\<rparr>, ()), nd_applier = [[7], [8]]\<rparr>"
    unfolding start_run_def by fastforce
  have "\<forall>rd \<in> set (run_taken x). early_ready be_codec rd" using early taken by simp
  note crash = crash_recovery [OF be.wire_format_axioms ls.log_store_axioms x n0 run this, of "\<lparr>ds_mem = mem, ds_wal = w\<rparr>" "()"]
  have "nd_storage (run_node x) = (\<lparr>ds_mem = mem, ds_wal = w\<rparr>, ())" using node by simp
  from crash [OF this] obtain n mode where
    "NewNode be_codec list_mem_ops good_disk True (Some (wal_f w)) (lit ''x'') [1] () ([] :: bytes list) = Inr (Inl n, mode)"
    "ds_mem (fst (nd_storage n)) = mem" unfolding DiskStorage.select_convs by blast
  with n0 run node ents show ?thesis
    by (intro exI [of _ ?n0] exI [of _ x] exI [of _ "\<lparr>ds_mem = mem, ds_wal = w\<rparr>"] exI [of _ n] exI [of _ mode]) simp
qed

end
