(* ===== verification/Shard_Server.thy ===== *)
theory Shard_Server
  imports Cluster Json_Bytes Range_Scan Raft_Run
begin

text \<open>
  The process of a shard server, \<^verbatim>\<open>cmd/shard-node/main.go\<close>: how it starts, the complete table
  of its routes with the texts that cross the wire, and the state machine it hands to the
  raft node, whose snapshots are JSON texts.
\<close>

section \<open>Snapshots as text\<close>

definition snapshot_text :: "json_doc \<Rightarrow> bytes" where
  "snapshot_text doc =
     (case doc of
        JObject ms \<Rightarrow> json_print (ObjV (map (\<lambda>(k, v). (k, slice_json v)) ms))
      | _ \<Rightarrow> lit ''null'')"

text \<open>What a text means to \<^verbatim>\<open>json.Unmarshal\<close> into a map of byte slices.\<close>

definition parse_snapshot :: "bytes \<Rightarrow> json_doc" where
  "parse_snapshot data =
     (case json_parse data of
        Some (ObjV ms) \<Rightarrow>
          (case those (map (\<lambda>(k, j). map_option (Pair k) (slice_field j)) ms) of
             Some kvs \<Rightarrow> JObject kvs
           | None \<Rightarrow> JOther)
      | Some NullV \<Rightarrow> JNull
      | _ \<Rightarrow> JOther)"

lemma parse_snapshot_text:
  "parse_snapshot (snapshot_text (JObject ms)) = JObject (map (\<lambda>(k, v). (json_string k, v)) ms)"
proof -
  let ?j = "ObjV (map (\<lambda>(k, v). (k, slice_json v)) ms)"
  have "json_fits (Suc d) ?j" for d by auto
  from this [of 9999] have fits: "json_fits 10000 ?j" by simp
  have "those (map (\<lambda>(k, j). map_option (Pair k) (slice_field j))
      (map (\<lambda>(k, v). (json_string k, json_coerce (slice_json v))) ms)) =
      Some (map (\<lambda>(k, v). (json_string k, v)) ms)"
    unfolding map_map by (rule those_map_Some) (auto simp: slice_field_json)
  moreover have "json_parse (snapshot_text (JObject ms)) = Some (json_coerce ?j)"
    unfolding snapshot_text_def json_doc.case by (rule json_parse_print(1) [OF fits])
  ultimately show ?thesis
    by (simp add: parse_snapshot_def comp_def case_prod_beta)
qed

lemma parse_GetSnapshotData: "parse_snapshot (snapshot_text (GetSnapshotData B s)) = GetSnapshotData B s"
  by (simp add: GetSnapshotData_def json_Encode_def Let_def parse_snapshot_text case_prod_beta json_string_idem comp_def)

section \<open>The state machine of the raft node\<close>

definition shard_applier ::
  "'t btree_ops \<Rightarrow> ('x, 'pe) sqlparser \<Rightarrow> ((bytes \<times> slice) list \<Rightarrow> (bytes \<times> slice) list) \<Rightarrow> 't ShardNode Applier" where
  "shard_applier B P range_order = \<lparr>
     ap_Apply = (\<lambda>e n. fst (shard_Apply B P n (en_Data e))),
     ap_GetSnapshot = (\<lambda>n. Some (snapshot_text (shard_GetSnapshot B n))),
     ap_Restore = (\<lambda>data n. case shard_Restore B range_order n (parse_snapshot data) of (n', err) \<Rightarrow> (err = None, n'))\<rparr>"

section \<open>Start-up\<close>

record Config =
  cfg_ID :: u64
  cfg_Peers :: "u64 list"
  cfg_WALPath :: bytes

datatype 'n started =
    StartPanic panic
  | StartFatal "io_error + replay_error iter_error"
  | Running Config HTTPTransport 'n start_mode

text \<open>\<^verbatim>\<open>%d\<close> of an \<^verbatim>\<open>int\<close>.\<close>

definition Sprint_int :: "int \<Rightarrow> bytes" where
  "Sprint_int i = (if i < 0 then 45 # Sprint_d (nat (- i)) else Sprint_d (nat i))"

definition new_shard :: "'t btree_ops \<Rightarrow> 't ShardNode" where
  "new_shard B = \<lparr>sn_engine = NewMemoryStore B, sn_metrics = empty_registry\<rparr>"

text \<open>
  The flags \<open>id\<close> and \<open>cluster\<close>, and the files: whether the log can be opened, and its content
  if there is one.
\<close>

definition shard_main ::
  "'t btree_ops \<Rightarrow> raft_codec \<Rightarrow> 'm mem_ops \<Rightarrow> 'd disk \<Rightarrow> int \<Rightarrow> bytes \<Rightarrow> (bytes \<Rightarrow> bool) \<Rightarrow> (bytes \<rightharpoonup> bytes) \<Rightarrow> 'd \<Rightarrow>
   (('m DiskStorage \<times> 'd, 't ShardNode) node + ('m, 't ShardNode) node) started" where
  "shard_main B C M D node_id cluster open_ok files d =
     (let engine = new_shard B in
      case shard_peers cluster of
        Inl p \<Rightarrow> StartPanic p
      | Inr (peersMap, peers) \<Rightarrow>
          let transport = SetPeers peersMap NewHTTPTransport;
              cfg = \<lparr>cfg_ID = of_int node_id, cfg_Peers = peers, cfg_WALPath = lit ''data/shard-'' @ Sprint_int node_id\<rparr>
          in case NewNode C M D (open_ok (cfg_WALPath cfg)) (files (cfg_WALPath cfg)) (cfg_WALPath cfg) (cfg_Peers cfg) d engine of
               Inl err \<Rightarrow> StartFatal err
             | Inr (n, mode) \<Rightarrow> Running cfg transport n mode)"

section \<open>Routes\<close>

datatype 'msg effect = NoEffect | Proposed bytes | Stepped 'msg

datatype http_body = Text bytes | MetricsMap "bytes \<rightharpoonup> u64" | ErrorText

text \<open>
  A request gives the new state of the server, what it hands to raft, the status and the body
  of the answer.  The order of a map is that of \<^verbatim>\<open>range\<close> in the export, \<open>range_order\<close> in the
  import; \<open>unmarshal\<close> decodes raft messages.
\<close>

definition shard_serve ::
  "'t btree_ops \<Rightarrow> ('x, 'pe) sqlparser \<Rightarrow> ((bytes \<rightharpoonup> slice) \<Rightarrow> (bytes \<times> slice) list) \<Rightarrow>
   ((bytes \<times> slice) list \<Rightarrow> (bytes \<times> slice) list) \<Rightarrow> (bytes \<Rightarrow> 'msg option) \<Rightarrow>
   bytes \<Rightarrow> bytes \<Rightarrow> bytes \<Rightarrow> bytes \<Rightarrow> 't ShardNode \<Rightarrow> 't ShardNode \<times> 'msg effect \<times> nat \<times> http_body" where
  "shard_serve B P order range_order unmarshal req_method path q body n =
     (if path = lit ''/metrics'' then (n, NoEffect, 200, MetricsMap (metrics_Handler (sn_metrics n)))
      else if path = lit ''/raft''
      then (case transport_Handler unmarshal req_method (Some body) of
              (status, None) \<Rightarrow> (n, NoEffect, status, ErrorText)
            | (status, Some m) \<Rightarrow> (n, Stepped m, status, Text []))
      else if path = lit ''/debug/export''
      then (n, NoEffect, 200,
            Text (encode_items (shard_export B order n (query_Get q (lit ''start'')) (query_Get q (lit ''end'')))))
      else if path = lit ''/debug/ingest''
      then (case shard_ingest B range_order n (decode_items body) of
              (n', status, k) \<Rightarrow>
                (n', NoEffect, status,
                 if status = 200 then Text (lit ''Ingested '' @ Sprint_d k @ lit '' items'') else ErrorText))
      else (case shard_mux path q body of
              None \<Rightarrow> (n, NoEffect, 404, ErrorText)
            | Some r \<Rightarrow>
                (case shard_handle B P n r of
                   (n', proposal, status, ans) \<Rightarrow> (n', Proposed proposal, status, Text (answer_text ans)))))"

lemma debug_paths [simp]:
  "lit ''/debug/export'' \<noteq> lit ''/metrics''" "lit ''/debug/export'' \<noteq> lit ''/raft''"
  "lit ''/debug/ingest'' \<noteq> lit ''/metrics''" "lit ''/debug/ingest'' \<noteq> lit ''/raft''"
  "lit ''/debug/ingest'' \<noteq> lit ''/debug/export''"
  by (simp_all add: lit_def)

lemma query_Get_Nil [simp]: "query_Get [] (lit ''start'') = []" "query_Get [] (lit ''end'') = []"
  by code_simp+

lemma fold_update_pairs:
  "distinct (map fst items) \<Longrightarrow> fold (\<lambda>(k, v) m. AList.update k v m) items [] = items"
  using fold_update_fresh [of "[]" fst items snd] by (simp add: case_prod_unfold)

lemma ScanRange_finite: "finite (dom (fst (ScanRange B s start e)))"
  by (simp add: ScanRange_items finite_dom_map_of)

section \<open>The state machine keeps its invariant\<close>

text \<open>Snapshots whose raw keys carry a timestamp.\<close>

definition versioned_data :: "bytes \<Rightarrow> bool" where
  "versioned_data data \<longleftrightarrow>
     (case parse_snapshot data of JObject ms \<Rightarrow> list_all (\<lambda>(k, v). versioned (json_string k)) ms | _ \<Rightarrow> True)"

lemma length_json_string: "length s \<le> length (json_string s)"
proof (induction s rule: json_string.induct)
  case (2 b bs)
  then show ?case by (auto simp: json_string.simps(2) Let_def RuneError_def simp del: rune_size.simps take.simps drop.simps)
qed simp

lemma versioned_json_string: "versioned raw \<Longrightarrow> versioned (json_string raw)"
  using length_json_string [of raw] by (simp add: versioned_def)

lemma set_fold_update: "fst ` set (fold (\<lambda>(k, v) m. AList.update (f k) v m) ms xs) = fst ` set xs \<union> (f \<circ> fst) ` set ms"
  by (induction ms arbitrary: xs) (simp_all add: case_prod_beta dom_update)

lemma RestoreSnapshot_inv:
  assumes "btree_api B tinv" and "store_inv B tinv s" and "\<forall>xs. mset (range_order xs) = mset xs"
    and "case doc of JObject ms \<Rightarrow> list_all (\<lambda>(k, v). versioned (json_string k)) ms | _ \<Rightarrow> True"
  shows "store_inv B tinv (fst (RestoreSnapshot B range_order s doc))"
proof (cases "json_Decode doc")
  case (Inl err)
  with assms(2) show ?thesis by (simp add: RestoreSnapshot_def)
next
  case (Inr kvs)
  note api = assms(1)
  have keys: "versioned k" if "k \<in> fst ` set kvs" for k
  proof (cases doc)
    case (JObject ms)
    then have "k \<in> (json_string \<circ> fst) ` set ms" using that Inr set_fold_update [of json_string ms "[]"] by auto
    with JObject assms(4) show ?thesis by (auto simp: list_all_iff)
  qed (use that Inr in auto)
  have "set (range_order kvs) = set kvs" using assms(3) by (metis mset_eq_setD)
  then have "dom (map_of (rev (range_order kvs))) = fst ` set kvs" by (simp add: dom_map_of_conv_image_fst)
  then show ?thesis
    using keys Inr btree_api.fold_insert_inv [OF api] btree_api.fold_insert_tree_map [OF api]
      btree_api.inv_Clear [OF api btree_api.store_invD(1) [OF api assms(2)]]
      btree_api.tree_map_Clear [OF api btree_api.store_invD(1) [OF api assms(2)]]
    by (simp add: RestoreSnapshot_def store_inv_def)
qed

lemma shard_applier_laws:
  assumes "btree_api B tinv" and "\<forall>xs. mset (range_order xs) = mset xs"
  shows "applier_inv (shard_applier B P range_order) (\<lambda>n. store_inv B tinv (sn_engine n)) (\<lambda>_. True) versioned_data"
proof (unfold_locales, goal_cases)
  case (1 n e)
  then show ?case using shard_Apply_inv [OF assms(1)] by (simp add: shard_applier_def)
next
  case (2 n d)
  then show ?case
    using RestoreSnapshot_inv [OF assms(1) _ assms(2), of "sn_engine n" "parse_snapshot d"]
    by (simp add: shard_applier_def shard_Restore_def versioned_data_def case_prod_beta)
next
  case (3 n d)
  have ver: "versioned (item_key it)" if "it \<in> set (bt_Ascend B (ms_tree (sn_engine n)))" for it
    using that btree_api.store_invD(2) [OF assms(1) 3(1)] by (auto simp: dom_tree_map)
  have "parse_snapshot d = JObject (snapshot_pairs B (sn_engine n))"
    using 3(2) btree_api.GetSnapshotData_pairs [OF assms(1) btree_api.store_invD(1) [OF assms(1) 3(1)]]
      parse_GetSnapshotData [of B "sn_engine n"]
    by (auto simp: shard_applier_def shard_GetSnapshot_def)
  with ver show ?case
    by (auto simp: versioned_data_def list_all_iff snapshot_pairs_def intro: versioned_json_string)
qed

interpretation shard_sl: applier_inv "shard_applier sl_btree P id" "\<lambda>n. store_inv sl_btree sl_inv (sn_engine n)" "\<lambda>_. True"
  versioned_data for P
  by (rule shard_applier_laws [OF sl.btree_api_axioms]) simp

section \<open>The replica as an abstract machine\<close>

text \<open>
  The log entry in which a transactional command of the store travels: the text that the
  handlers of the shard server propose.
\<close>

fun cmd_entry :: "store_cmd \<Rightarrow> bytes" where
  "cmd_entry (CPrepare key v txn) = prepare_msg key (slice_bytes v) txn"
| "cmd_entry (CCommit key txn ts) = commit_msg key txn (Sprint_d (unat ts))"
| "cmd_entry (CAbort key txn) = abort_msg key txn"
| "cmd_entry (COnePhaseCommit ops txn ts) =
     oneshot_msg (marshal_Req \<lparr>req_TxnID = txn, req_Ts = ts, req_Ops = map (\<lambda>bop. (op_Key bop, slice_bytes (op_Value bop))) ops\<rparr>)"
| "cmd_entry _ = []"

text \<open>Commands that their entry carries unchanged: words without blanks, bodies of well-formed UTF-8.\<close>

fun carried :: "store_cmd \<Rightarrow> bool" where
  "carried (CPrepare key v txn) \<longleftrightarrow> v \<noteq> None \<and> 32 \<notin> set key \<and> 32 \<notin> set (slice_bytes v) \<and> 32 \<notin> set txn"
| "carried (CCommit key txn ts) \<longleftrightarrow> 32 \<notin> set key \<and> 32 \<notin> set txn"
| "carried (CAbort key txn) \<longleftrightarrow> 32 \<notin> set key \<and> 32 \<notin> set txn"
| "carried (COnePhaseCommit ops txn ts) \<longleftrightarrow> utf8_valid txn \<and>
     (\<forall>bop \<in> set ops. op_Value bop \<noteq> None \<and> utf8_valid (op_Key bop) \<and> utf8_valid (slice_bytes (op_Value bop)))"
| "carried _ \<longleftrightarrow> False"

lemma apply_oneshot_cmd:
  assumes "carried (COnePhaseCommit ops txn ts)"
  shows "sn_engine (fst (shard_Apply B P n (cmd_entry (COnePhaseCommit ops txn ts)))) =
    fst (OnePhaseCommit B (sn_engine n) ops txn ts)"
proof -
  let ?r = "\<lparr>req_TxnID = txn, req_Ts = ts, req_Ops = map (\<lambda>bop. (op_Key bop, slice_bytes (op_Value bop))) ops\<rparr>"
  have "coerce_Req ?r = ?r" using assms by (simp add: coerce_Req_def utf8_valid_def)
  moreover have "map (\<lambda>bop. \<lparr>op_Key = op_Key bop, op_Value = Some (slice_bytes (op_Value bop))\<rparr>) ops = ops"
    using assms by (intro map_idI) (auto simp: slice_bytes_def)
  ultimately show ?thesis by (simp add: apply_oneshot unmarshal_marshal_Req case_prod_beta comp_def)
qed

lemma apply_cmd_entry:
  assumes "carried c"
  shows "sn_engine (fst (shard_Apply B P n (cmd_entry c))) = exec_cmd B (sn_engine n) c"
proof (cases c)
  case (COnePhaseCommit ops txn ts)
  with assms show ?thesis using apply_oneshot_cmd by (simp del: cmd_entry.simps carried.simps)
qed (use assms in \<open>auto simp: apply_prepare apply_commit apply_abort case_prod_beta slice_bytes_def\<close>)

lemma replica_refines:
  assumes "btree_api B tinv" and "store_inv B tinv (sn_engine n)"
    and "map en_Data es = map cmd_entry cs" and "list_all carried cs"
  shows "view B (sn_engine (fold (ap_Apply (shard_applier B P range_order)) es n)) = foldl spec_cmd (view B (sn_engine n)) cs"
  using assms(2-4)
proof (induction cs arbitrary: es n)
  case Nil
  then show ?case by simp
next
  case (Cons c cs)
  then obtain e es' where es: "es = e # es'" "en_Data e = cmd_entry c" "map en_Data es' = map cmd_entry cs"
    by (cases es) auto
  have c: "carried c" "cmd_txn c \<noteq> None" "cmd_ok c" using Cons.prems(3) by (cases c; simp)+
  let ?n = "fst (shard_Apply B P n (cmd_entry c))"
  have eng: "sn_engine ?n = exec_cmd B (sn_engine n) c" by (rule apply_cmd_entry [OF c(1)])
  have "store_inv B tinv (sn_engine ?n)"
    unfolding eng by (rule btree_api.store_inv_exec_cmd [OF assms(1) Cons.prems(1) c(3)])
  from Cons.IH [OF this es(3)] Cons.prems(3)
  show ?case
    using btree_api.exec_cmd_refines [OF assms(1) Cons.prems(1) c(2)] by (simp add: es shard_applier_def eng)
qed

lemma shard_main_new:
  "shard_main B C M D node_id cluster open_ok files d = Running cfg transport (Inl n0) mode \<Longrightarrow> nd_applier n0 = new_shard B"
  by (auto simp: shard_main_def NewNode_def start_node_def Let_def lit_def split: sum.splits prod.splits)

text \<open>Whatever entries and snapshots of versioned keys it is given, the store keeps its invariant.\<close>

lemma replica_keeps_inv:
  assumes "btree_api B tinv" and "\<forall>xs. mset (range_order xs) = mset xs"
    and "shard_main B C M D node_id cluster open_ok files d = Running cfg transport (Inl n0) mode"
    and "(run_step L (disk_storage C M D) (shard_applier B P range_order))\<^sup>*\<^sup>* (start_run r n0) x"
    and "\<forall>rd \<in> set (run_taken x). IsEmptySnap (rd_Snapshot rd) \<or> versioned_data (sn_Data (rd_Snapshot rd))"
  shows "store_inv B tinv (sn_engine (nd_applier (run_node x)))"
proof -
  have "store_inv B tinv (sn_engine (nd_applier n0))"
    using btree_api.store_inv_New [OF assms(1)] shard_main_new [OF assms(3)] by (simp add: new_shard_def)
  from applier_inv.run_keeps [OF shard_applier_laws [OF assms(1,2)] this assms(4)] assms(5) show ?thesis by simp
qed

section \<open>Properties\<close>

text \<open>
  (C31) Migration over HTTP: the text that \<^verbatim>\<open>/debug/export\<close> of one server answers, posted to
  \<^verbatim>\<open>/debug/ingest\<close> of another, is accepted and counted; the target then has every version of
  the source, and its own wherever the source has none.  The source and the intents of the
  target stay as they are.  Neither request hands anything to raft: the other replicas of
  the target never see the data.
\<close>

theorem migration_over_http:
  assumes "btree_api B tinv" and "store_inv B tinv (sn_engine src)" and "store_inv B tinv (sn_engine dst)"
    and "\<forall>m. finite (dom m) \<longrightarrow> enumerates (order m) m" and "\<forall>xs. mset (range_order xs) = mset xs"
    and "shard_serve B P order range_order unmarshal (lit ''GET'') (lit ''/debug/export'') [] [] src =
      (src', effect1, status1, Text body)"
    and "shard_serve B P order range_order unmarshal (lit ''POST'') (lit ''/debug/ingest'') [] body dst =
      (dst', effect2, status2, answer)"
  shows "src' = src \<and> effect1 = NoEffect \<and> status1 = 200 \<and> effect2 = NoEffect \<and> status2 = 200 \<and>
    answer = Text (lit ''Ingested '' @ Sprint_d (card (dom (tree_map B (ms_tree (sn_engine src))))) @ lit '' items'') \<and>
    store_inv B tinv (sn_engine dst') \<and>
    versions (view B (sn_engine dst')) key ts =
      (case versions (view B (sn_engine src)) key ts of
         Some v \<Rightarrow> Some v | None \<Rightarrow> versions (view B (sn_engine dst)) key ts) \<and>
    intents (view B (sn_engine dst')) = intents (view B (sn_engine dst))"
proof -
  let ?M = "fst (ScanRange B (sn_engine src) [] None)"
  define items where "items = order ?M"
  have items: "enumerates items ?M" unfolding items_def using assms(4) ScanRange_finite by blast
  have body: "src' = src" "effect1 = NoEffect" "status1 = 200" "body = encode_items items"
    using assms(6) by (auto simp: shard_serve_def shard_export_def items_def)
  define data where "data = range_order items"
  have m: "mset data = mset items" using assms(5) by (simp add: data_def)
  have d: "distinct (map fst items)" "map_of items = ?M" using items by (auto simp: enumerates_def)
  have "distinct (map fst data)"
    using d(1) mset_eq_imp_distinct_iff [of "map fst data" "map fst items"] m by (metis mset_map)
  moreover from this have "map_of data = map_of items"
    using d(1) mset_eq_setD [OF m] by (simp add: map_of_inject_set)
  ultimately have en: "enumerates data ?M" using d by (simp add: enumerates_def)
  note ing = btree_api.Ingest_ScanRange [OF assms(1,2,3) en]
  have "shard_ingest B range_order dst (decode_items body) =
      (dst\<lparr>sn_engine := fst (Ingest B (sn_engine dst) data)\<rparr>, 200, length items)"
    using d(1) by (simp add: body(4) decode_encode_items shard_ingest_def fold_update_pairs data_def Ingest_def)
  then have dst: "dst' = dst\<lparr>sn_engine := fst (Ingest B (sn_engine dst) data)\<rparr>" "effect2 = NoEffect" "status2 = 200"
    "answer = Text (lit ''Ingested '' @ Sprint_d (length items) @ lit '' items'')"
    using assms(7) by (auto simp: shard_serve_def)
  have "length items = card (dom (map_of items))"
    using distinct_card [OF d(1)] by (simp add: dom_map_of_conv_image_fst)
  then have "length items = card (dom (tree_map B (ms_tree (sn_engine src))))"
    using d(2) btree_api.ScanRange_all [OF assms(1,2)] by simp
  with body dst ing show ?thesis by (simp del: view_sel)
qed

text \<open>An order of the visits of a map, for the witnesses: by key.\<close>

definition key_order :: "(bytes \<rightharpoonup> slice) \<Rightarrow> (bytes \<times> slice) list" where
  "key_order m = map (\<lambda>k. (k, the (m k))) (sorted_list_of_set (dom m))"

lemma key_order_enumerates: "finite (dom m) \<Longrightarrow> enumerates (key_order m) m"
proof -
  assume fin: "finite (dom m)"
  have "map_of (key_order m) k = m k" for k
    using fin by (cases "m k") (auto simp: key_order_def map_of_map_restrict restrict_map_def domIff)
  then show "enumerates (key_order m) m"
    using fin by (simp add: enumerates_def key_order_def comp_def fun_eq_iff)
qed

theorem migration_over_http_witness:
  "\<exists>body dst'. shard_serve sl_btree (fixed_parser (OtherStatement ())) key_order (\<lambda>xs. xs) (\<lambda>_. None :: unit option)
      (lit ''GET'') (lit ''/debug/export'') [] [] sample_node = (sample_node, NoEffect, 200, Text body) \<and>
    shard_serve sl_btree (fixed_parser (OtherStatement ())) key_order (\<lambda>xs. xs) (\<lambda>_. None :: unit option)
      (lit ''POST'') (lit ''/debug/ingest'') [] body (new_shard sl_btree) =
      (dst', NoEffect, 200, Text (lit ''Ingested 2 items'')) \<and>
    versions (view sl_btree (sn_engine dst')) (lit ''k'') 10 = Some (Some (lit ''v10''))"
proof -
  let ?serve = "shard_serve sl_btree (fixed_parser (OtherStatement ())) key_order (\<lambda>xs. xs) (\<lambda>_. None :: unit option)"
  obtain src' e1 st1 body where 1: "?serve (lit ''GET'') (lit ''/debug/export'') [] [] sample_node = (src', e1, st1, Text body)"
    by (simp add: shard_serve_def)
  obtain dst' e2 st2 ans where 2: "?serve (lit ''POST'') (lit ''/debug/ingest'') [] body (new_shard sl_btree) = (dst', e2, st2, ans)"
    by (metis prod.exhaust)
  have inv: "store_inv sl_btree sl_inv (sn_engine sample_node)" "store_inv sl_btree sl_inv (sn_engine (new_shard sl_btree))"
    by (code_simp, simp add: new_shard_def sl.store_inv_New)
  have card: "card (dom (tree_map sl_btree (ms_tree (sn_engine sample_node)))) = 2"
    unfolding dom_tree_map by code_simp
  have v: "versions (view sl_btree (sn_engine sample_node)) (lit ''k'') 10 = Some (Some (lit ''v10''))"
    unfolding view_sel tree_map_def by code_simp
  have t: "lit ''Ingested '' @ Sprint_d 2 @ lit '' items'' = lit ''Ingested 2 items''" by code_simp
  from migration_over_http [OF sl.btree_api_axioms inv _ _ 1 2, of "lit ''k''" 10] key_order_enumerates card v t
  show ?thesis using 1 2 by (auto simp del: view_sel)
qed

text \<open>
  (C38) Replicas diverge through a snapshot: a snapshot holds the versions and not the intents.
  A follower that is brought up to date by the snapshot of a replica that has applied a
  prepare ignores the commit that follows in the log, while the replica publishes the
  value: after the same log the two stores differ.
\<close>

theorem snapshot_drops_intents:
  assumes "btree_api B tinv" and "store_inv B tinv (sn_engine n)" and "store_inv B tinv (sn_engine f)"
    and "\<forall>xs. mset (range_order xs) = mset xs"
    and "\<forall>raw \<in> dom (tree_map B (ms_tree (sn_engine n))). utf8_valid raw"
    and "32 \<notin> set key" and "32 \<notin> set val" and "32 \<notin> set txn"
    and "available (view B (sn_engine n)) key txn" and "versions (view B (sn_engine n)) key ts = None"
    and "intents (view B (sn_engine f)) key = None"
    and "A = shard_applier B P range_order" and "n1 = fst (shard_Apply B P n (prepare_msg key val txn))"
    and "ap_GetSnapshot A n1 = Some data" and "ap_Restore A data f = (ok, f1)"
    and "n2 = fst (shard_Apply B P n1 (commit_msg key txn (Sprint_d (unat ts))))"
    and "f2 = fst (shard_Apply B P f1 (commit_msg key txn (Sprint_d (unat ts))))"
  shows "ok \<and> versions (view B (sn_engine f1)) = versions (view B (sn_engine n1)) \<and>
    versions (view B (sn_engine n2)) key ts = Some (Some val) \<and> versions (view B (sn_engine f2)) key ts = None"
proof -
  note api = assms(1)
  have inv1: "store_inv B tinv (sn_engine n1)" unfolding assms(13) by (rule shard_Apply_inv [OF api assms(2)])
  have n1: "view B (sn_engine n1) = spec_cmd (view B (sn_engine n)) (CPrepare key (Some val) txn)"
    unfolding assms(13) using assms(6-8) by (intro apply_txn_msgs(1) [OF api assms(2)]) auto
  have n2: "view B (sn_engine n2) = spec_cmd (view B (sn_engine n1)) (CCommit key txn ts)"
    unfolding assms(16) using assms(6,8) by (intro apply_txn_msgs(2) [OF api inv1]) auto
  have tree: "ms_tree (sn_engine n1) = ms_tree (sn_engine n)"
    using assms(6-8) unfolding assms(13) by (simp add: apply_prepare case_prod_beta)
  obtain s err where r: "RestoreSnapshot B range_order (sn_engine f) (GetSnapshotData B (sn_engine n1)) = (s, err)"
    by fastforce
  have f1: "ok = (err = None)" "f1 = f\<lparr>sn_engine := s\<rparr>"
    using assms(12,14,15) r
    by (auto simp: shard_applier_def shard_GetSnapshot_def shard_Restore_def parse_GetSnapshotData)
  note inv = btree_api.store_invD(1) [OF api]
  note res = btree_api.RestoreSnapshot_tree_map [OF api inv inv assms(4), OF inv1 assms(3), unfolded r, simplified]
  have tm: "tree_map B (ms_tree s) = tree_map B (ms_tree (sn_engine n))"
    using res(2) btree_api.snapshot_pairs_valid [OF api inv [OF inv1]] assms(5) tree by simp
  have invs: "store_inv B tinv s" using res(4) tm assms(2) by (simp add: store_inv_def)
  have f2: "view B (sn_engine f2) = spec_cmd (view B s) (CCommit key txn ts)"
    unfolding assms(17) using assms(6,8) invs f1(2) by (subst apply_txn_msgs(2) [OF api]) auto
  have "ok" using f1(1) res(1) by simp
  moreover have "versions (view B (sn_engine f1)) = versions (view B (sn_engine n1))"
    using tm tree f1(2) by (simp add: fun_eq_iff)
  moreover have "versions (view B (sn_engine n2)) key ts = Some (Some val)"
    using assms(9) by (simp add: n2 n1 available_def holds_intent_def spec_release_def spec_add_version_def del: view_sel)
  moreover have "intents (view B s) key = None"
    using res(3) assms(11) by simp
  then have "versions (view B (sn_engine f2)) key ts = versions (view B s) key ts"
    by (simp add: f2 del: view_sel)
  then have "versions (view B (sn_engine f2)) key ts = None"
    using tm assms(10) by simp
  ultimately show ?thesis by blast
qed

theorem snapshot_drops_intents_witness:
  "\<exists>n1 data f1. n1 = fst (shard_Apply sl_btree any_parser (new_shard sl_btree) (prepare_msg (lit ''k'') (lit ''v'') (lit ''t''))) \<and>
     ap_GetSnapshot (shard_applier sl_btree any_parser id) n1 = Some data \<and>
     ap_Restore (shard_applier sl_btree any_parser id) data (new_shard sl_btree) = (True, f1) \<and>
     versions (view sl_btree (sn_engine (fst (shard_Apply sl_btree any_parser n1
       (commit_msg (lit ''k'') (lit ''t'') (Sprint_d (unat (7 :: u64)))))))) (lit ''k'') 7 = Some (Some (lit ''v'')) \<and>
     versions (view sl_btree (sn_engine (fst (shard_Apply sl_btree any_parser f1
       (commit_msg (lit ''k'') (lit ''t'') (Sprint_d (unat (7 :: u64)))))))) (lit ''k'') 7 = None"
proof -
  let ?n = "new_shard sl_btree" and ?A = "shard_applier sl_btree any_parser id"
  let ?n1 = "fst (shard_Apply sl_btree any_parser ?n (prepare_msg (lit ''k'') (lit ''v'') (lit ''t'')))"
  have inv: "store_inv sl_btree sl_inv (sn_engine ?n)" by (simp add: new_shard_def sl.store_inv_New)
  have new: "tree_map sl_btree (ms_tree (sn_engine ?n)) = Map.empty" "ms_locks (sn_engine ?n) = Map.empty"
    by (simp_all add: new_shard_def NewMemoryStore_def tree_map_def sl_btree_simps)
  have words: "32 \<notin> set (lit ''k'')" "32 \<notin> set (lit ''v'')" "32 \<notin> set (lit ''t'')" by code_simp+
  obtain data where data: "ap_GetSnapshot ?A ?n1 = Some data" by (simp add: shard_applier_def)
  obtain ok f1 where f1: "ap_Restore ?A data ?n = (ok, f1)" by fastforce
  from snapshot_drops_intents [OF sl.btree_api_axioms inv inv _ _ words _ _ _ refl refl data f1 refl refl, of 7] new
  show ?thesis using data f1 by (auto simp: available_def)
qed

text \<open>
  (C16) A replica carries out its log: take a shard server from its start through any run of its
  raft loop, with ticks, proposals and messages in any order, in which no snapshot is handed
  to it, and let the entries committed so far that are of the normal type and carry data be
  the texts of prepares, commits, aborts and one-phase commits (words without blanks, bodies of
  well-formed UTF-8).  Then the versions and intents of its store are what the abstract store,
  which starts empty, has after these commands in this order: a prepare that finds its key
  free or its own leaves an intent, a commit of the holder makes it a version, an abort of the
  holder releases it, a one-phase commit whose keys are all free or its own publishes its
  batch, and every other command has no effect.
\<close>

theorem replica_refines_log:
  assumes "btree_api B tinv"
    and "shard_main B C M D node_id cluster open_ok files d = Running cfg transport (Inl n0) mode"
    and "(run_step L (disk_storage C M D) (shard_applier B P range_order))\<^sup>*\<^sup>* (start_run r n0) x"
    and "\<forall>rd \<in> set (run_taken x). IsEmptySnap (rd_Snapshot rd)"
    and "map en_Data (filter (\<lambda>e. en_Type e = EntryNormal \<and> en_Data e \<noteq> [])
           (concat (map rd_CommittedEntries (run_taken x)))) = map cmd_entry cs"
    and "list_all carried cs"
  shows "view B (sn_engine (nd_applier (run_node x))) =
    foldl spec_cmd \<lparr>versions = (\<lambda>_. Map.empty), intents = Map.empty\<rparr> cs"
proof -
  have n0: "sn_engine (nd_applier n0) = NewMemoryStore B"
    using shard_main_new [OF assms(2)] by (simp add: new_shard_def)
  have "store_inv B tinv (sn_engine (nd_applier n0))"
    unfolding n0 by (rule btree_api.store_inv_New [OF assms(1)])
  from replica_refines [OF assms(1) this assms(5,6), of P range_order] run_applied(1) [OF assms(3,4)]
  show ?thesis by (simp only: n0 btree_api.view_New [OF assms(1)])
qed

text \<open>A \<open>Ready\<close> value that only commits, and the start of a server without files.\<close>

definition commit_ready :: "bytes \<Rightarrow> nat Ready" where
  "commit_ready data = (quiet_ready [])\<lparr>rd_CommittedEntries := [\<lparr>en_Term = 1, en_Index = 1, en_Type = EntryNormal, en_Data = data\<rparr>]\<rparr>"

lemma shard_path: "lit ''data/shard-'' \<noteq> []"
  by (simp add: lit_def)

lemma shard_main_fresh:
  "\<exists>cfg w mode. shard_main B be_codec list_mem_ops good_disk 1 [] (\<lambda>_. True) Map.empty () =
    Running cfg \<lparr>tr_peers = Map.empty\<rparr>
      (Inl \<lparr>nd_storage = (\<lparr>ds_mem = mem_New list_mem_ops, ds_wal = w\<rparr>, ()), nd_applier = new_shard B\<rparr>) mode"
  by (simp add: shard_main_def shard_peers_def NewNode_def NewDiskStorage_def wal_Open_def wal_Iterate_def start_node_def
      shard_path SetPeers_def NewHTTPTransport_def Let_def)

lemma handle_commit_ready:
  "\<exists>mem. handle_ready (disk_storage C M D) A (commit_ready data) \<lparr>nd_storage = (\<lparr>ds_mem = m, ds_wal = w\<rparr>, d), nd_applier = a\<rparr> =
    Advanced \<lparr>nd_storage = (\<lparr>ds_mem = mem, ds_wal = w\<rparr>, d),
      nd_applier = apply_entry A \<lparr>en_Term = 1, en_Index = 1, en_Type = EntryNormal, en_Data = data\<rparr> a\<rparr> [7]"
  by (simp add: handle_ready_def commit_ready_def quiet_ready_def disk_storage_def Save_def IsEmptyHardState_def IsEmptySnap_def
      snapshot_check_early Let_def)

lemma commit_readies:
  "\<exists>n. run_ready (disk_storage C M D) A (map commit_ready ds) \<lparr>nd_storage = (\<lparr>ds_mem = m, ds_wal = w\<rparr>, d), nd_applier = a\<rparr> =
    Advanced n (replicate (length ds) 7)"
proof (induction ds arbitrary: m a)
  case Nil
  then show ?case by simp
next
  case (Cons e ds)
  obtain mem where h: "handle_ready (disk_storage C M D) A (commit_ready e) \<lparr>nd_storage = (\<lparr>ds_mem = m, ds_wal = w\<rparr>, d), nd_applier = a\<rparr> =
    Advanced \<lparr>nd_storage = (\<lparr>ds_mem = mem, ds_wal = w\<rparr>, d),
      nd_applier = apply_entry A \<lparr>en_Term = 1, en_Index = 1, en_Type = EntryNormal, en_Data = e\<rparr> a\<rparr> [7]"
    using handle_commit_ready [where C = C and M = M and D = D and A = A and data = e and m = m and w = w and d = d and a = a]
    by blast
  from Cons.IH [of mem "apply_entry A \<lparr>en_Term = 1, en_Index = 1, en_Type = EntryNormal, en_Data = e\<rparr> a"]
  show ?case by (auto simp: h)
qed

definition two_cmds :: "store_cmd list" where
  "two_cmds = [CPrepare (lit ''k'') (Some (lit ''v'')) (lit ''t''), CCommit (lit ''k'') (lit ''t'') 7]"

theorem replica_refines_log_witness:
  "\<exists>cfg transport n0 mode x. shard_main sl_btree be_codec list_mem_ops good_disk 1 [] (\<lambda>_. True) Map.empty () =
      Running cfg transport (Inl n0) mode \<and>
    (run_step queue_lib (disk_storage be_codec list_mem_ops good_disk) (shard_applier sl_btree any_parser id))\<^sup>*\<^sup>*
      (start_run (map commit_ready (map cmd_entry two_cmds)) n0) x \<and> run_taken x \<noteq> [] \<and>
    versions (view sl_btree (sn_engine (nd_applier (run_node x)))) (lit ''k'') 7 = Some (Some (lit ''v''))"
proof -
  let ?S = "disk_storage be_codec list_mem_ops good_disk" and ?A = "shard_applier sl_btree any_parser id"
  define rds where "rds = map commit_ready (map cmd_entry two_cmds)"
  obtain cfg w mode where start: "shard_main sl_btree be_codec list_mem_ops good_disk 1 [] (\<lambda>_. True) Map.empty () =
    Running cfg \<lparr>tr_peers = Map.empty\<rparr>
      (Inl \<lparr>nd_storage = (\<lparr>ds_mem = mem_New list_mem_ops, ds_wal = w\<rparr>, ()), nd_applier = new_shard sl_btree\<rparr>) mode"
    using shard_main_fresh by blast
  define n0 where "n0 = \<lparr>nd_storage = (\<lparr>ds_mem = mem_New list_mem_ops, ds_wal = w\<rparr>, ()), nd_applier = new_shard sl_btree\<rparr>"
  note start = start [folded n0_def]
  obtain n msgs where "run_ready ?S ?A rds n0 = Advanced n msgs"
    using commit_readies [of be_codec list_mem_ops good_disk ?A "map cmd_entry two_cmds"] unfolding n0_def rds_def by blast
  from queue_runs [of _ _ _ "start_run rds n0", simplified start_run_def, simplified, OF this]
  obtain x where run: "(run_step queue_lib ?S ?A)\<^sup>*\<^sup>* (start_run rds n0) x" and taken: "run_taken x = rds"
    unfolding start_run_def by fastforce
  have plain: "\<forall>rd \<in> set (run_taken x). IsEmptySnap (rd_Snapshot rd)"
    by (auto simp: taken rds_def commit_ready_def quiet_ready_def IsEmptySnap_def)
  have ents: "map en_Data (filter (\<lambda>e. en_Type e = EntryNormal \<and> en_Data e \<noteq> [])
      (concat (map rd_CommittedEntries (run_taken x)))) = map cmd_entry two_cmds"
    by (simp add: taken rds_def commit_ready_def two_cmds_def prepare_msg_def commit_msg_def lit_def)
  have carried: "list_all carried two_cmds" by code_simp
  have "versions (foldl spec_cmd \<lparr>versions = (\<lambda>_. Map.empty), intents = Map.empty\<rparr> two_cmds) (lit ''k'') 7 = Some (Some (lit ''v''))"
    by (simp add: two_cmds_def available_def spec_release_def spec_add_version_def)
  then have "versions (view sl_btree (sn_engine (nd_applier (run_node x)))) (lit ''k'') 7 = Some (Some (lit ''v''))"
    by (simp only: replica_refines_log [OF sl.btree_api_axioms start run plain ents carried])
  moreover have "run_taken x \<noteq> []" by (simp add: taken rds_def two_cmds_def)
  ultimately show ?thesis using start run unfolding rds_def by (intro exI conjI)
qed

text \<open>
  (C39) A restart behind a snapshot starts empty: after a snapshot has been created, a server
  started from the log file comes up with a storage that holds the snapshot and none of the
  entries, and with an empty store; the data in the snapshot is never handed to the state
  machine, and no entry is left from which it could be rebuilt.
\<close>

theorem restart_after_snapshot_empty:
  assumes "wire_format C" and "log_store M ents snap" and "btree_api B tinv"
    and "replays C M (ds_wal ds) (ds_mem ds)"
    and "\<forall>sp b. marshal_Snapshot C sp = Some b \<longrightarrow> sn_Data sp = data \<and> sn_Voters sp = cs \<longrightarrow> record_fits C RecordSnapshot b"
    and "ds_CreateSnapshot C M D i cs data ds d = (Inr sp, ds', d')"
    and "shard_peers cluster = Inr (peersMap, peers)"
    and "files (lit ''data/shard-'' @ Sprint_int node_id) = Some (wal_f (ds_wal ds'))"
  shows "\<exists>cfg n mode. shard_main B C M D node_id cluster (\<lambda>_. True) files d' = Running cfg \<lparr>tr_peers = peersMap\<rparr> (Inl n) mode \<and>
    sn_Data (snap (ds_mem (fst (nd_storage n)))) = data \<and> sn_Index (snap (ds_mem (fst (nd_storage n)))) = i \<and>
    ents (ds_mem (fst (nd_storage n))) = [] \<and> versions (view B (sn_engine (nd_applier n))) key ts = None"
proof -
  obtain mem where mem: "replays C M (ds_wal ds') mem" "ents mem = []" "snap mem = sp"
    using wire_format.CreateSnapshot_replays [OF assms(1,2,4,5,6)] by blast
  have "mem_CreateSnapshot M (ds_mem ds) i cs data = (fst (mem_CreateSnapshot M (ds_mem ds) i cs data), Some sp)"
    using assms(6) by (auto simp: ds_CreateSnapshot_def Let_def split: prod.splits option.splits bool.splits)
  from log_store.CreateSnapshot_ok [OF assms(2) this] have sp: "sn_Data sp = data" "sn_Index sp = i" by simp_all
  have "versions (view B (sn_engine (new_shard B))) key ts = None"
    using btree_api.view_New [OF assms(3)] by (simp add: new_shard_def)
  moreover from NewNode_recovers [OF mem(1), of "lit ''data/shard-'' @ Sprint_int node_id" D peers d' "new_shard B"]
  obtain w' where "NewNode C M D True (Some (wal_f (ds_wal ds'))) (lit ''data/shard-'' @ Sprint_int node_id) peers d' (new_shard B) =
    Inr (Inl \<lparr>nd_storage = (\<lparr>ds_mem = mem, ds_wal = w'\<rparr>, d'), nd_applier = new_shard B\<rparr>,
      if mem_LastIndex M mem > 0 then RestartNode else StartNode peers)"
    by (auto simp: shard_path)
  ultimately show ?thesis
    using assms(7,8) mem sp by (simp add: shard_main_def Let_def SetPeers_def NewHTTPTransport_def)
qed

theorem restart_after_snapshot_empty_witness:
  "\<exists>ds sp ds' cfg n mode. ds_CreateSnapshot be_codec list_mem_ops good_disk 1 [1] [] ds () = (Inr sp, ds', ()) \<and>
     ls_ents (ds_mem ds) = sample_entries \<and>
     shard_main sl_btree be_codec list_mem_ops good_disk 1 [] (\<lambda>_. True) (\<lambda>_. Some (wal_f (ds_wal ds'))) () =
       Running cfg \<lparr>tr_peers = Map.empty\<rparr> (Inl n) mode \<and> ls_ents (ds_mem (fst (nd_storage n))) = []"
proof -
  obtain ds sp ds' where s: "replays be_codec list_mem_ops (ds_wal ds) (ds_mem ds)" "ls_ents (ds_mem ds) = sample_entries"
    "\<forall>sp b. marshal_Snapshot be_codec sp = Some b \<longrightarrow> sn_Data sp = [] \<and> sn_Voters sp = [1] \<longrightarrow> record_fits be_codec RecordSnapshot b"
    "ds_CreateSnapshot be_codec list_mem_ops good_disk 1 [1] [] ds () = (Inr sp, ds', ())"
    by (rule sample_CreateSnapshot)
  have "shard_peers [] = Inr (Map.empty, [])" by (simp add: shard_peers_def)
  from restart_after_snapshot_empty [OF be.wire_format_axioms ls.log_store_axioms sl.btree_api_axioms s(1,3,4) this,
      of "\<lambda>_. Some (wal_f (ds_wal ds'))" 1] s(2,4)
  show ?thesis by blast
qed

end
