(* ===== verification/Meta_Node.thy ===== *)
theory Meta_Node
  imports Shard_Server
begin

text \<open>
  The meta server of \<^verbatim>\<open>cmd/meta-node/main.go\<close>: its cluster flag, its start, its routes, and the
  meta store as the state machine of its raft node.
\<close>

fun meta_peers_loop :: "bytes list \<Rightarrow> HTTPTransport \<Rightarrow> u64 list \<Rightarrow> HTTPTransport \<times> u64 list" where
  "meta_peers_loop [] t peers = (t, peers)"
| "meta_peers_loop (p # ps) t peers =
     (case Split p 61 of
        [k, v] \<Rightarrow> meta_peers_loop ps (AddPeer (Sscan_d k) v t) (peers @ [Sscan_d k])
      | _ \<Rightarrow> meta_peers_loop ps t peers)"

definition meta_peers :: "bytes \<Rightarrow> HTTPTransport \<times> u64 list" where
  "meta_peers cluster = meta_peers_loop (Split cluster 44) NewHTTPTransport []"

section \<open>The state machine\<close>

text \<open>A panic in \<open>Apply\<close> ends the process: the state is the panic from then on.\<close>

definition meta_applier :: "(panic + MetaStore) Applier" where
  "meta_applier = \<lparr>
     ap_Apply = (\<lambda>e s. case s of Inl p \<Rightarrow> Inl p | Inr m \<Rightarrow> meta_Apply m (en_Data e)),
     ap_GetSnapshot = (\<lambda>s. case s of Inl p \<Rightarrow> None | Inr m \<Rightarrow> Some (meta_GetSnapshot m)),
     ap_Restore = (\<lambda>data s. case s of Inl p \<Rightarrow> (False, Inl p)
                             | Inr m \<Rightarrow> (case meta_Restore m data of (m', ok) \<Rightarrow> (ok, Inr m')))\<rparr>"

section \<open>Start-up\<close>

datatype 'n meta_started = NoDataDir | MetaStarted "'n started"

definition meta_main ::
  "raft_codec \<Rightarrow> 'm mem_ops \<Rightarrow> 'd disk \<Rightarrow> u64 \<Rightarrow> bytes \<Rightarrow> bool \<Rightarrow> (bytes \<Rightarrow> bool) \<Rightarrow> (bytes \<rightharpoonup> bytes) \<Rightarrow> 'd \<Rightarrow>
   (('m DiskStorage \<times> 'd, panic + MetaStore) node + ('m, panic + MetaStore) node) meta_started" where
  "meta_main C M D node_id cluster mkdir_ok open_ok files d =
     (let store = NewMetaStore;
          (transport, peers) = meta_peers cluster
      in if \<not> mkdir_ok then NoDataDir
         else let walPath = lit ''data/meta-wal-'' @ Sprint_d (unat node_id) @ lit ''.log'';
                  cfg = \<lparr>cfg_ID = node_id, cfg_Peers = peers, cfg_WALPath = walPath\<rparr>
              in MetaStarted
                   (case NewNode C M D (open_ok walPath) (files walPath) (cfg_WALPath cfg) (cfg_Peers cfg) d (Inr store) of
                      Inl err \<Rightarrow> StartFatal err
                    | Inr (n, mode) \<Rightarrow> Running cfg transport n mode))"

section \<open>Routes\<close>

text \<open>
  \<open>/route\<close> answers with the key and its shard; the encoder sorts the two members.  A panic in the
  handler only ends the request.
\<close>

definition meta_route :: "MetaStore \<Rightarrow> bytes \<Rightarrow> panic + bytes" where
  "meta_route s q =
     (let key = query_Get q (lit ''key'')
      in case GetShard s key of
           Inl p \<Rightarrow> Inl p
         | Inr shardID \<Rightarrow> Inr (json_print (ObjV [(lit ''key'', StrV key), (lit ''shard_id'', uint64_json shardID)]) @ [10]))"

definition meta_serve ::
  "(bytes \<Rightarrow> 'msg option) \<Rightarrow> bytes \<Rightarrow> bytes \<Rightarrow> bytes \<Rightarrow> bytes \<Rightarrow> MetaStore \<Rightarrow> panic + 'msg effect \<times> nat \<times> http_body" where
  "meta_serve unmarshal req_method path q body s =
     (if path = lit ''/raft''
      then Inr (case transport_Handler unmarshal req_method (Some body) of
              (status, None) \<Rightarrow> (NoEffect, status, ErrorText)
            | (status, Some m) \<Rightarrow> (Stepped m, status, Text []))
      else if path = lit ''/route''
      then (case meta_route s q of Inl p \<Rightarrow> Inl p | Inr t \<Rightarrow> Inr (NoEffect, 200, Text t))
      else Inr (NoEffect, 404, ErrorText))"

section \<open>The meta store keeps its invariant\<close>

text \<open>Entries whose splits carry a key and whose shard addresses are text, and snapshots of good stores.\<close>

definition good_store :: "MetaStore \<Rightarrow> bool" where
  "good_store s \<longleftrightarrow> meta_inv s \<and> shards_ok s"

definition good_command :: "Entry \<Rightarrow> bool" where
  "good_command e \<longleftrightarrow> (\<forall>cmd. unmarshal_Command (en_Data e) = Some cmd \<longrightarrow> split_key_given cmd \<and>
     (\<forall>as. sc_Addrs (cmd_Shard cmd) = Some as \<longrightarrow> (\<forall>a \<in> set as. utf8_valid a)))"

definition good_snapshot :: "bytes \<Rightarrow> bool" where
  "good_snapshot data \<longleftrightarrow> (\<exists>s. good_store s \<and> data = meta_GetSnapshot s)"

lemma in_set_update: "x \<in> set (AList.update k v m) \<Longrightarrow> x = (k, v) \<or> x \<in> set m"
  by (induction m) (auto split: if_splits)

lemma meta_apply_command_shards:
  assumes "meta_apply_command s cmd = Inr s'" and "shards_ok s"
    and "\<forall>as. sc_Addrs (cmd_Shard cmd) = Some as \<longrightarrow> (\<forall>a \<in> set as. utf8_valid a)"
  shows "shards_ok s'"
proof -
  have same: "meta_Shards t = meta_Shards s \<Longrightarrow> shards_ok t" for t
    using assms(2) by (simp add: shards_ok_def)
  have split: "split_range s k i j = Inr t \<Longrightarrow> meta_Shards t = meta_Shards s" for k i j t
    by (auto simp: split_range_def Let_def split: if_splits)
  have new: "shards_ok (s\<lparr>meta_Shards := Some (AList.update k (cmd_Shard cmd) m)\<rparr>)"
    if "meta_Shards s = Some m" for k m
    using that assms(2,3) by (auto simp: shards_ok_def distinct_update dest!: in_set_update)
  show ?thesis
    using assms(1) by (auto simp: meta_apply_command_def intro: same split new split: if_splits option.splits)
qed

lemma meta_Apply_good:
  assumes "good_store s" and "good_command e"
  shows "\<exists>s'. meta_Apply s (en_Data e) = Inr s' \<and> good_store s'"
proof (cases "unmarshal_Command (en_Data e)")
  case None
  with assms(1) show ?thesis by (simp add: meta_Apply_def)
next
  case (Some cmd)
  with assms obtain s' where "meta_apply_command s cmd = Inr s'" "meta_inv s'"
    using meta_apply_command_inv [of s cmd] by (auto simp: good_store_def good_command_def)
  with Some assms meta_apply_command_shards [of s cmd s'] show ?thesis
    by (simp add: meta_Apply_def good_store_def good_command_def)
qed

lemma meta_Restore_good:
  assumes "good_snapshot data"
  shows "\<exists>s'. meta_Restore s data = (s', True) \<and> good_store s'"
proof -
  obtain t where t: "good_store t" "data = meta_GetSnapshot t" using assms by (auto simp: good_snapshot_def)
  let ?s = "s\<lparr>meta_Ranges := meta_Ranges t, meta_Shards := map_option by_text (meta_Shards t)\<rparr>"
  have set: "set (by_text m) = set m" for m by (simp add: by_text_def)
  have "shards_ok ?s"
    using t(1) unfolding good_store_def shards_ok_def
    by (cases "meta_Shards t") (simp_all add: set distinct_by_text)
  moreover have "meta_inv ?s" using t(1) by (simp add: good_store_def meta_inv_def)
  moreover have "meta_Restore s data = (?s, True)"
    using t meta_Restore_GetSnapshot [of t s] by (simp add: good_store_def)
  ultimately show ?thesis by (simp add: good_store_def)
qed

interpretation meta: applier_inv meta_applier "\<lambda>s. \<exists>m. s = Inr m \<and> good_store m" good_command good_snapshot
proof (unfold_locales, goal_cases)
  case (1 a e)
  then obtain m m' where "a = Inr m" "meta_Apply m (en_Data e) = Inr m'" "good_store m'"
    using meta_Apply_good by blast
  then show ?case by (simp add: meta_applier_def)
next
  case (2 a d)
  then obtain m m' where "a = Inr m" "meta_Restore m d = (m', True)" "good_store m'"
    using meta_Restore_good by blast
  then show ?case by (simp add: meta_applier_def)
next
  case (3 a d)
  then obtain m where "a = Inr m" "good_store m" "d = meta_GetSnapshot m" by (auto simp: meta_applier_def)
  then show ?case by (auto simp: good_snapshot_def)
qed

section \<open>Properties\<close>

text \<open>
  (C24) The meta server always answers: in every run of a meta server from its start, with any
  interleaving of ticks, proposals and messages, as long as the committed splits carry a key,
  the registered addresses are text and the snapshots are those of meta servers, the process
  does not panic, the ranges partition the key space, and \<open>/route\<close> answers every key with
  status 200 and the shard of the one range that holds it.
\<close>

theorem meta_server_answers:
  assumes "meta_main C M D node_id cluster True open_ok files d = MetaStarted (Running cfg transport (Inl n0) mode)"
    and "(run_step L (disk_storage C M D) meta_applier)\<^sup>*\<^sup>* (start_run r n0) x"
    and "\<forall>rd \<in> set (run_taken x). (\<forall>e \<in> set (rd_CommittedEntries rd). good_command e) \<and>
      (IsEmptySnap (rd_Snapshot rd) \<or> good_snapshot (sn_Data (rd_Snapshot rd)))"
  shows "\<exists>s rg. nd_applier (run_node x) = Inr s \<and> partition_ranges (meta_Ranges s) \<and>
    rg \<in> set (meta_Ranges s) \<and> in_range (query_Get q (lit ''key'')) rg \<and>
    meta_serve unmarshal req_method (lit ''/route'') q body s =
      Inr (NoEffect, 200, Text (json_print (ObjV [(lit ''key'', StrV (query_Get q (lit ''key''))),
        (lit ''shard_id'', uint64_json (r_ShardID rg))]) @ [10]))"
proof -
  have "nd_applier n0 = Inr NewMetaStore"
    using assms(1) by (auto simp: meta_main_def NewNode_def start_node_def Let_def lit_def split: sum.splits prod.splits)
  moreover have "good_store NewMetaStore"
    using meta_inv_New by (simp add: good_store_def shards_ok_def NewMetaStore_def)
  ultimately obtain s where s: "nd_applier (run_node x) = Inr s" "good_store s"
    using meta.run_keeps [OF _ assms(2,3)] by auto
  then have p: "partition_ranges (meta_Ranges s)" by (simp add: good_store_def meta_inv_def)
  obtain rg where rg: "rg \<in> set (meta_Ranges s)" "in_range (query_Get q (lit ''key'')) rg"
    "GetShard s (query_Get q (lit ''key'')) = Inr (r_ShardID rg)"
    using GetShard_owner [OF p] by blast
  have "lit ''/route'' \<noteq> lit ''/raft''" by (simp add: lit_def)
  with s(1) p rg show ?thesis
    by (intro exI [of _ s] exI [of _ rg]) (simp add: meta_serve_def meta_route_def)
qed

lemma meta_main_fresh:
  "\<exists>cfg transport w mode. meta_main be_codec list_mem_ops good_disk node_id cluster True (\<lambda>_. True) Map.empty () =
    MetaStarted (Running cfg transport
      (Inl \<lparr>nd_storage = (\<lparr>ds_mem = mem_New list_mem_ops, ds_wal = w\<rparr>, ()), nd_applier = Inr NewMetaStore\<rparr>) mode)"
proof -
  have "lit ''data/meta-wal-'' \<noteq> []" by (simp add: lit_def)
  then show ?thesis
    by (simp add: meta_main_def NewNode_def NewDiskStorage_def wal_Open_def wal_Iterate_def start_node_def Let_def
        split: prod.split)
qed

theorem meta_server_answers_witness:
  "\<exists>cfg transport n0 mode x s rg. meta_main be_codec list_mem_ops good_disk 10 (lit ''10=http://meta-node:9000'') True (\<lambda>_. True) Map.empty () =
      MetaStarted (Running cfg transport (Inl n0) mode) \<and>
    (run_step queue_lib (disk_storage be_codec list_mem_ops good_disk) meta_applier)\<^sup>*\<^sup>*
      (start_run [commit_ready (json_print (split_json (Some (lit ''m''))))] n0) x \<and>
    nd_applier (run_node x) = Inr s \<and> rg \<in> set (meta_Ranges s) \<and> in_range (query_Get [] (lit ''key'')) rg"
proof -
  let ?S = "disk_storage be_codec list_mem_ops good_disk" and ?rd = "commit_ready (json_print (split_json (Some (lit ''m''))))"
  obtain cfg transport w mode where start: "meta_main be_codec list_mem_ops good_disk 10 (lit ''10=http://meta-node:9000'') True (\<lambda>_. True)
      Map.empty () = MetaStarted (Running cfg transport
      (Inl \<lparr>nd_storage = (\<lparr>ds_mem = mem_New list_mem_ops, ds_wal = w\<rparr>, ()), nd_applier = Inr NewMetaStore\<rparr>) mode)"
    using meta_main_fresh by blast
  define n0 where "n0 = \<lparr>nd_storage = (\<lparr>ds_mem = mem_New list_mem_ops, ds_wal = w\<rparr>, ()), nd_applier = Inr NewMetaStore :: panic + MetaStore\<rparr>"
  obtain n where "handle_ready ?S meta_applier ?rd n0 = Advanced n [7]"
    using handle_commit_ready [of be_codec list_mem_ops good_disk meta_applier] unfolding n0_def by blast
  then have "run_ready ?S meta_applier [?rd] n0 = Advanced n [7]" by simp
  from queue_runs [of _ _ _ "start_run [?rd] n0", simplified start_run_def, simplified, OF this]
  obtain x where run: "(run_step queue_lib ?S meta_applier)\<^sup>*\<^sup>* (start_run [?rd] n0) x" and taken: "run_taken x = [?rd]"
    unfolding start_run_def by fastforce
  have "\<forall>rd \<in> set (run_taken x). (\<forall>e \<in> set (rd_CommittedEntries rd). good_command e) \<and>
      (IsEmptySnap (rd_Snapshot rd) \<or> good_snapshot (sn_Data (rd_Snapshot rd)))"
    by (simp add: taken commit_ready_def quiet_ready_def IsEmptySnap_def good_command_def unmarshal_split split_command_def
        split_key_given_def zero_Command_def zero_ShardConfig_def)
  from meta_server_answers [OF start [folded n0_def] run this, where q = "[]"] start [folded n0_def] run
  show ?thesis by blast
qed

section \<open>The cluster flag\<close>

text \<open>The flag that lists peers and their URLs.\<close>

definition cluster_flag :: "(u64 \<times> bytes) list \<Rightarrow> bytes" where
  "cluster_flag ps = Join (map (\<lambda>(pid, url). Sprint_d (unat pid) @ [61] @ url) ps) [44]"

lemma digits_no_sep: "61 \<notin> set (Sprint_d n)" "44 \<notin> set (Sprint_d n)"
  using Sprint_d_digits [of n] by (auto simp: is_digit_def)

lemma Split_peer:
  "61 \<notin> set url \<Longrightarrow> Split (Sprint_d n @ [61] @ url) 61 = [Sprint_d n, url]"
  by (simp add: Split_append digits_no_sep Split_no_sep)

lemma Split_cluster_flag:
  assumes "ps \<noteq> []" and "\<forall>(pid, url) \<in> set ps. 44 \<notin> set url"
  shows "Split (cluster_flag ps) 44 = map (\<lambda>(pid, url). Sprint_d (unat pid) @ [61] @ url) ps"
  unfolding cluster_flag_def using assms digits_no_sep by (intro Split_Join) auto

lemma shard_peers_loop_flag:
  assumes "\<forall>(pid, url) \<in> set ps. 61 \<notin> set url"
  shows "shard_peers_loop (map (\<lambda>(pid, url). Sprint_d (unat pid) @ [61] @ url) ps) m is =
    Inr (m ++ map_of (rev ps), is @ map fst ps)"
  using assms by (induction ps arbitrary: m "is") (auto simp: Split_peer simp del: append.simps)

lemma meta_peers_loop_flag:
  assumes "\<forall>(pid, url) \<in> set ps. 61 \<notin> set url"
  shows "meta_peers_loop (map (\<lambda>(pid, url). Sprint_d (unat pid) @ [61] @ url) ps) t is =
    (t\<lparr>tr_peers := tr_peers t ++ map_of (rev ps)\<rparr>, is @ map fst ps)"
  using assms by (induction ps arbitrary: t "is") (auto simp: Split_peer AddPeer_def simp del: append.simps)

text \<open>
  The cluster flag: both servers read a well-formed, non-empty list of peers back as the
  same peers in the same order, and the same map from peers to URLs, the last one winning
  where an identifier is repeated.
\<close>

theorem cluster_flag_roundtrip:
  assumes "ps \<noteq> []" and "\<forall>(pid, url) \<in> set ps. 44 \<notin> set url \<and> 61 \<notin> set url"
  shows "shard_peers (cluster_flag ps) = Inr (map_of (rev ps), map fst ps) \<and>
    meta_peers (cluster_flag ps) = (\<lparr>tr_peers = map_of (rev ps)\<rparr>, map fst ps)"
proof -
  have sp: "Split (cluster_flag ps) 44 = map (\<lambda>(pid, url). Sprint_d (unat pid) @ [61] @ url) ps"
    using assms by (intro Split_cluster_flag) auto
  have ne: "cluster_flag ps \<noteq> []"
  proof
    assume "cluster_flag ps = []"
    with sp have "map (\<lambda>(pid, url). Sprint_d (unat pid) @ [61] @ url) ps = [[]]" by simp
    then show False by (cases ps) auto
  qed
  have "\<forall>(pid, url) \<in> set ps. 61 \<notin> set url" using assms(2) by auto
  then show ?thesis
    using ne by (simp add: shard_peers_def meta_peers_def sp shard_peers_loop_flag meta_peers_loop_flag
        NewHTTPTransport_def del: append.simps)
qed

theorem cluster_flag_roundtrip_witness:
  "shard_peers (cluster_flag [(1, lit ''http://a:9001''), (2, lit ''http://b:9002'')]) =
     Inr ([2 \<mapsto> lit ''http://b:9002'', 1 \<mapsto> lit ''http://a:9001''], [1, 2])"
proof -
  have u: "44 \<notin> set (lit ''http://a:9001'')" "61 \<notin> set (lit ''http://a:9001'')"
    "44 \<notin> set (lit ''http://b:9002'')" "61 \<notin> set (lit ''http://b:9002'')"
    by (simp_all add: lit_def)
  have "shard_peers (cluster_flag [(1, lit ''http://a:9001''), (2, lit ''http://b:9002'')]) =
      Inr (map_of (rev [(1, lit ''http://a:9001''), (2, lit ''http://b:9002'')]),
        map fst [(1 :: u64, lit ''http://a:9001''), (2, lit ''http://b:9002'')])"
    using cluster_flag_roundtrip [of "[(1, lit ''http://a:9001''), (2, lit ''http://b:9002'')]"] u by simp
  then show ?thesis by (simp add: fun_upd_twist)
qed

end
