(* ===== verification/Cluster_Txn.thy ===== *)
theory Cluster_Txn
  imports Cluster
begin

text \<open>
  Transactions on the cluster when things go wrong or end early: a write that meets another
  transaction's intent, a rollback, the one-phase path, and the draining of the queues.
\<close>

text \<open>
  (C6) A lost write is reported as a success: shards answer a prepare before it is applied, so
  the coordinator never learns of a conflict.  Take an active transaction with writes to
  different keys that live on more than one shard of the cluster, without blanks, where another
  transaction holds one of the keys: \<open>Commit\<close> still succeeds; after all calls and queues, that
  key is as it was, still held by the other transaction, while every key of the same
  transaction that was free has been committed.  (On one shard the transaction is all or
  nothing, see the one-phase commit below.)
  Each shard address is a server of its own that applies every accepted proposal once and in
  order, and every call is answered.
\<close>

theorem conflicting_commit_torn:
  assumes "shard_cluster B tinv P sched" and "cluster_inv B tinv cl" and "\<forall>c \<in> set txnID. unreserved c"
    and "co_transactions c txnID = Some txn" and "tx_State txn = StateActive"
    and "\<not> (\<exists>shard. \<forall>x \<in> set (tx_Writes txn). Locate (co_router c) (wi_Key x) = shard)"
    and "distinct (map wi_Key (tx_Writes txn))"
    and ready: "\<forall>x \<in> set (tx_Writes txn). good_addr (Locate (co_router c) (wi_Key x)) \<and>
      Locate (co_router c) (wi_Key x) \<in> dom cl \<and> 32 \<notin> set (wi_Key x) \<and> 32 \<notin> set (wi_Value x)"
    and "\<forall>g. mset (ord1 g) = mset g" and "\<forall>g. mset (ord2 g) = mset g"
    and "coord_Commit (cluster_net B P sched) ord1 ord2 now txnID c cl = (c', calls, cl1, err)"
    and "mset calls' = mset calls"
    and "net_exec (cluster_net B P sched) (cluster_step B P) calls' cl1 cl2" and applied: "all_applied cl2"
    and y: "y \<in> set (tx_Writes txn)" "cluster_state B P cl (Locate (co_router c) (wi_Key y)) = Some m"
      "intents m (wi_Key y) = Some l" "lock_TxnID l \<noteq> txnID"
    and x: "x \<in> set (tx_Writes txn)" "cluster_state B P cl (Locate (co_router c) (wi_Key x)) = Some mx"
      "available mx (wi_Key x) txnID"
  shows "err = None \<and> txn_state c' txnID = Some StateCommitted \<and>
    (\<exists>srv. cl2 (Locate (co_router c) (wi_Key y)) = Some srv \<and>
      versions (view B (sn_engine (srv_node srv))) (wi_Key y) = versions m (wi_Key y) \<and>
      intents (view B (sn_engine (srv_node srv))) (wi_Key y) = Some l) \<and>
    (\<exists>srv. cl2 (Locate (co_router c) (wi_Key x)) = Some srv \<and>
      versions (view B (sn_engine (srv_node srv))) (wi_Key x) now = Some (Some (wi_Value x)))"
proof -
  let ?loc = "\<lambda>x. Locate (co_router c) (wi_Key x)"
  have "\<forall>x \<in> set (tx_Writes txn). good_addr (?loc x) \<and> cluster_state B P cl (?loc x) \<noteq> None \<and>
      32 \<notin> set (wi_Key x) \<and> 32 \<notin> set (wi_Value x)"
    using ready by (auto simp: cluster_state_def)
  note eff = txn_network.commit_effect [OF shard_cluster.is_txn_network [OF assms(1)] assms(2-7) this assms(9-13)]
  have "cell_of (cluster_state B P cl2) (?loc y) (wi_Key y) = Some (versions m (wi_Key y), Some l)"
    using eff y by (simp add: cell_of_def [of "cluster_state B P cl"] cell_write_def may_take_def)
  note cy = applied_cell [OF applied this]
  have cx: "\<exists>srv. cl2 (?loc x) = Some srv \<and> versions (view B (sn_engine (srv_node srv))) (wi_Key x) now = Some (Some (wi_Value x)) \<and>
      intents (view B (sn_engine (srv_node srv))) (wi_Key x) = None"
    using eff x(1) by (intro written_cell [OF applied x(2,3)]) blast
  show ?thesis using eff cy cx by (auto simp del: view_sel)
qed

text \<open>The key on the second shard is held by another transaction.\<close>

definition held_server :: "item list server" where
  "held_server = \<lparr>srv_node = \<lparr>sn_engine = fst (Prepare (NewMemoryStore sl_btree) (lit ''z'') (Some (lit ''0'')) (lit ''txn-5'')),
     sn_metrics = empty_registry\<rparr>, srv_queue = []\<rparr>"

definition held_shards :: "item list cluster" where
  "held_shards = [lit ''http://s1'' \<mapsto> new_server sl_btree, lit ''http://s2'' \<mapsto> held_server]"

theorem conflicting_commit_torn_witness:
  "\<exists>c' calls cl1 cl2 s1 s2.
     coord_Commit (cluster_net sl_btree any_parser id) id id 9 (lit ''txn-7'') two_coordinator held_shards = (c', calls, cl1, None) \<and>
     net_exec (cluster_net sl_btree any_parser id) (cluster_step sl_btree any_parser) calls cl1 cl2 \<and>
     cl2 (lit ''http://s1'') = Some s1 \<and> cl2 (lit ''http://s2'') = Some s2 \<and>
     versions (view sl_btree (sn_engine (srv_node s1))) (lit ''a'') 9 = Some (Some (lit ''1'')) \<and>
     versions (view sl_btree (sn_engine (srv_node s2))) (lit ''z'') = Map.empty"
proof -
  let ?P = any_parser and ?s = "fst (Prepare (NewMemoryStore sl_btree) (lit ''z'') (Some (lit ''0'')) (lit ''txn-5''))"
  obtain c' calls cl1 err where r:
    "coord_Commit (cluster_net sl_btree ?P id) id id 9 (lit ''txn-7'') two_coordinator held_shards = (c', calls, cl1, err)"
    by (rule commit_result)
  obtain cl2 where cl2: "net_exec (cluster_net sl_btree ?P id) (cluster_step sl_btree ?P) calls cl1 cl2" "all_applied cl2"
    using commit_drains [OF lazy.shard_cluster_axioms _ r] by (auto simp: held_shards_def)
  have inv: "cluster_inv sl_btree sl_inv held_shards"
    using sl.store_inv_New sl.store_inv_Prepare [OF sl.store_inv_New]
    by (auto simp: cluster_inv_def held_shards_def held_server_def new_server_def ran_def)
  have st: "cluster_state sl_btree ?P held_shards (lit ''http://s1'') = Some (view sl_btree (NewMemoryStore sl_btree))"
    "cluster_state sl_btree ?P held_shards (lit ''http://s2'') = Some (view sl_btree ?s)"
    using two_facts(3) by (simp_all add: cluster_state_def held_shards_def held_server_def new_server_def settled_def shard_run_def)
  have av: "available (view sl_btree (NewMemoryStore sl_btree)) k t" for k t
    by (simp add: available_def NewMemoryStore_def)
  have l: "intents (view sl_btree ?s) (lit ''z'') = Some \<lparr>lock_TxnID = lit ''txn-5'', lock_Value = Some (lit ''0'')\<rparr>"
    "lit ''txn-5'' \<noteq> lit ''txn-7''"
    by (simp_all add: Prepare_def NewMemoryStore_def) (simp add: lit_def)
  have v: "versions (view sl_btree ?s) (lit ''z'') = Map.empty"
    by (simp add: view_def fun_eq_iff NewMemoryStore_def tree_map_def)
  show ?thesis
    using conflicting_commit_torn [OF lazy.shard_cluster_axioms inv two_facts(5) two_txn _ _ _ _ _ _ r refl cl2,
        where y = "\<lparr>wi_Key = lit ''z'', wi_Value = lit ''2''\<rparr>" and x = "\<lparr>wi_Key = lit ''a'', wi_Value = lit ''1''\<rparr>"
        and m = "view sl_btree ?s" and mx = "view sl_btree (NewMemoryStore sl_btree)"
        and l = "\<lparr>lock_TxnID = lit ''txn-5'', lock_Value = Some (lit ''0'')\<rparr>"]
      two_facts two_locate st av l v r cl2
    by (auto simp: held_shards_def simp del: view_sel)
qed

text \<open>
  (C12) Rollback, end to end: after \<open>Abort\<close> and all the calls and queues it leads to, no key that
  the transaction wrote carries an intent of it, the versions of those keys and the intents
  of other transactions are untouched, and so is every other key.  The keys are different and
  without blanks, on shards of the cluster.
  Each shard address is a server of its own that applies every accepted proposal once and in
  order, and every call is answered.
\<close>

theorem distributed_rollback:
  assumes "shard_cluster B tinv P sched" and "cluster_inv B tinv cl" and "\<forall>c \<in> set txnID. unreserved c"
    and "co_transactions c txnID = Some txn" and "distinct (map wi_Key (tx_Writes txn))"
    and ready: "\<forall>x \<in> set (tx_Writes txn). good_addr (Locate (co_router c) (wi_Key x)) \<and>
      Locate (co_router c) (wi_Key x) \<in> dom cl \<and> 32 \<notin> set (wi_Key x)"
    and "coord_Abort txnID c = (c', calls, err)" and "mset calls' = mset calls"
    and "net_exec (cluster_net B P sched) (cluster_step B P) calls' cl cl2"
  shows "err = None \<and> txn_state c' txnID = Some StateAborted \<and>
    (\<forall>x \<in> set (tx_Writes txn). \<forall>vs i. cell_of (cluster_state B P cl) (Locate (co_router c) (wi_Key x)) (wi_Key x) = Some (vs, i) \<longrightarrow>
      cell_of (cluster_state B P cl2) (Locate (co_router c) (wi_Key x)) (wi_Key x) =
        Some (vs, if \<exists>l. i = Some l \<and> lock_TxnID l = txnID then None else i)) \<and>
    (\<forall>a k. (\<forall>x \<in> set (tx_Writes txn). (Locate (co_router c) (wi_Key x), wi_Key x) \<noteq> (a, k)) \<longrightarrow>
      cell_of (cluster_state B P cl2) a k = cell_of (cluster_state B P cl) a k)"
proof -
  let ?loc = "\<lambda>x. Locate (co_router c) (wi_Key x)"
  have "\<forall>x \<in> set (tx_Writes txn). good_addr (?loc x) \<and> cluster_state B P cl (?loc x) \<noteq> None \<and> 32 \<notin> set (wi_Key x)"
    using ready by (auto simp: cluster_state_def)
  note eff = txn_network.abort_effect [OF shard_cluster.is_txn_network [OF assms(1)] assms(2-5) this assms(7-9)]
  have "cell_cmd (CAbort k txnID) (vs, i) = (vs, if \<exists>l. i = Some l \<and> lock_TxnID l = txnID then None else i)" for k vs i
    by (simp split: option.split)
  with eff show ?thesis by (simp del: cell_cmd.simps)
qed

text \<open>The transaction itself has prepared its key on the second shard.\<close>

definition prepared_server :: "item list server" where
  "prepared_server = \<lparr>srv_node = \<lparr>sn_engine = fst (Prepare (NewMemoryStore sl_btree) (lit ''z'') (Some (lit ''2'')) (lit ''txn-7'')),
     sn_metrics = empty_registry\<rparr>, srv_queue = []\<rparr>"

definition prepared_shards :: "item list cluster" where
  "prepared_shards = [lit ''http://s1'' \<mapsto> new_server sl_btree, lit ''http://s2'' \<mapsto> prepared_server]"

theorem distributed_rollback_witness:
  "\<exists>c' calls cl2. coord_Abort (lit ''txn-7'') two_coordinator = (c', calls, None) \<and>
     net_exec (cluster_net sl_btree any_parser id) (cluster_step sl_btree any_parser) calls prepared_shards cl2 \<and>
     cell_of (cluster_state sl_btree any_parser prepared_shards) (lit ''http://s2'') (lit ''z'') =
       Some (Map.empty, Some \<lparr>lock_TxnID = lit ''txn-7'', lock_Value = Some (lit ''2'')\<rparr>) \<and>
     cell_of (cluster_state sl_btree any_parser cl2) (lit ''http://s2'') (lit ''z'') = Some (Map.empty, None)"
proof -
  let ?P = any_parser
  obtain c' calls err where r: "coord_Abort (lit ''txn-7'') two_coordinator = (c', calls, err)" by (metis surj_pair)
  obtain cl2 where cl2: "net_exec (cluster_net sl_btree ?P id) (cluster_step sl_btree ?P) calls prepared_shards cl2"
    using exec_drains [OF lazy.shard_cluster_axioms, of prepared_shards ?P calls] by (auto simp: prepared_shards_def)
  have inv: "cluster_inv sl_btree sl_inv prepared_shards"
    using sl.store_inv_New sl.store_inv_Prepare [OF sl.store_inv_New]
    by (auto simp: cluster_inv_def prepared_shards_def prepared_server_def new_server_def ran_def)
  have cell: "cell_of (cluster_state sl_btree ?P prepared_shards) (lit ''http://s2'') (lit ''z'') =
      Some (Map.empty, Some \<lparr>lock_TxnID = lit ''txn-7'', lock_Value = Some (lit ''2'')\<rparr>)"
    by (simp add: cell_of_def cluster_state_def prepared_shards_def prepared_server_def settled_def shard_run_def
        Prepare_def NewMemoryStore_def tree_map_def fun_eq_iff)
  show ?thesis
    using distributed_rollback [OF lazy.shard_cluster_axioms inv two_facts(5) two_txn _ _ r refl cl2]
      two_facts two_locate r cl2 cell
    by (auto simp: prepared_shards_def)
qed

definition batch_of :: "WriteIntent list \<Rightarrow> BatchOp list" where
  "batch_of ws = map (\<lambda>w. \<lparr>op_Key = wi_Key w, op_Value = Some (wi_Value w)\<rparr>) ws"

lemma apply_oneshot_body:
  assumes "btree_api B tinv" and "store_inv B tinv (sn_engine n)" and "utf8_valid txn"
    and "\<forall>w \<in> set ws. utf8_valid (wi_Key w) \<and> utf8_valid (wi_Value w)"
  shows "view B (sn_engine (fst (shard_Apply B P n
      (oneshot_msg (marshal_Req \<lparr>req_TxnID = txn, req_Ts = ts, req_Ops = map (\<lambda>w. (wi_Key w, wi_Value w)) ws\<rparr>))))) =
    spec_cmd (view B (sn_engine n)) (COnePhaseCommit (batch_of ws) txn ts)"
proof -
  have "coerce_Req \<lparr>req_TxnID = txn, req_Ts = ts, req_Ops = map (\<lambda>w. (wi_Key w, wi_Value w)) ws\<rparr> =
      \<lparr>req_TxnID = txn, req_Ts = ts, req_Ops = map (\<lambda>w. (wi_Key w, wi_Value w)) ws\<rparr>"
    using assms(3,4) by (simp add: coerce_Req_def utf8_valid_def)
  then show ?thesis
    using btree_api.exec_cmd_refines [OF assms(1,2), of "COnePhaseCommit (batch_of ws) txn ts"]
    by (simp add: apply_oneshot unmarshal_marshal_Req case_prod_beta batch_of_def comp_def del: spec_cmd.simps)
qed

text \<open>What a batch of writes to different keys does to one key.\<close>

lemma batch_cell:
  assumes "distinct (map wi_Key ws)" and "w \<in> set ws"
  shows "versions (spec_write_batch (batch_of ws) ts m) (wi_Key w) = (versions m (wi_Key w))(ts \<mapsto> Some (wi_Value w))"
    and "intents (spec_write_batch (batch_of ws) ts m) (wi_Key w) = None"
proof -
  have "map_of (rev (map (\<lambda>bop. (op_Key bop, op_Value bop)) (batch_of ws))) (wi_Key w) = Some (Some (wi_Value w))"
    using assms by (intro map_of_is_SomeI) (auto simp: batch_of_def comp_def simp flip: rev_map)
  then show "versions (spec_write_batch (batch_of ws) ts m) (wi_Key w) = (versions m (wi_Key w))(ts \<mapsto> Some (wi_Value w))"
    by (auto simp: spec_write_batch_versions spec_write_batch_versions_other fun_eq_iff)
  show "intents (spec_write_batch (batch_of ws) ts m) (wi_Key w) = None"
    using assms(2) by (simp add: spec_write_batch_intents batch_of_def image_image)
qed

lemma batch_other:
  assumes "\<forall>w \<in> set ws. wi_Key w \<noteq> k"
  shows "versions (spec_write_batch (batch_of ws) ts m) k = versions m k" and "intents (spec_write_batch (batch_of ws) ts m) k = intents m k"
proof -
  have "k \<notin> op_Key ` set (batch_of ws)" using assms by (auto simp: batch_of_def)
  then show "versions (spec_write_batch (batch_of ws) ts m) k = versions m k" "intents (spec_write_batch (batch_of ws) ts m) k = intents m k"
    by (simp_all add: spec_write_batch_versions_other spec_write_batch_intents fun_eq_iff)
qed

text \<open>The call that carries a batch, and \<open>Commit\<close> on one shard.\<close>

lemma oneshot_effect:
  assumes "shard_cluster B tinv P sched" and "cluster_inv B tinv cl" and "good_addr shard"
    and "cluster_state B P cl shard \<noteq> None" and "utf8_valid txnID"
    and "\<forall>w \<in> set ws. utf8_valid (wi_Key w) \<and> utf8_valid (wi_Value w)"
    and h: "cluster_net B P sched (oneshot_call shard ws txnID now) cl = (resp, cl2)"
  shows "ok_response resp \<and> cluster_inv B tinv cl2 \<and>
    cluster_state B P cl2 = spec_op (shard, COnePhaseCommit (batch_of ws) txnID now) (cluster_state B P cl)"
proof (rule shard_cluster.net_proposal [OF assms(1,2) _ decode_txn_calls(4) [OF assms(3)] _ _ h])
  show "cluster_state B P cl shard \<noteq> None" by (rule assms(4))
  fix n :: "'a ShardNode"
  show "shard_handle B P n (ReqOneShot (marshal_Req \<lparr>req_TxnID = txnID, req_Ts = now, req_Ops = map (\<lambda>w. (wi_Key w, wi_Value w)) ws\<rparr>)) =
      (n, oneshot_msg (marshal_Req \<lparr>req_TxnID = txnID, req_Ts = now, req_Ops = map (\<lambda>w. (wi_Key w, wi_Value w)) ws\<rparr>), 200, EmptyBody)"
    by (simp add: shard_handle_def)
  have "btree_api B tinv" using assms(1) by (simp add: shard_cluster_def)
  then show "view B (sn_engine (fst (shard_Apply B P n
      (oneshot_msg (marshal_Req \<lparr>req_TxnID = txnID, req_Ts = now, req_Ops = map (\<lambda>w. (wi_Key w, wi_Value w)) ws\<rparr>))))) =
    spec_cmd (view B (sn_engine n)) (COnePhaseCommit (batch_of ws) txnID now)" if "store_inv B tinv (sn_engine n)"
    using apply_oneshot_body [OF _ that assms(5)] assms(6) by blast
qed

lemma one_phase_effect:
  assumes "shard_cluster B tinv P sched" and "cluster_inv B tinv cl"
    and "co_transactions c txnID = Some txn" and "tx_State txn = StateActive" and "tx_Writes txn \<noteq> []"
    and "\<forall>w \<in> set (tx_Writes txn). Locate (co_router c) (wi_Key w) = shard" and "distinct (map wi_Key (tx_Writes txn))"
    and "good_addr shard" and st: "cluster_state B P cl shard = Some m" and "utf8_valid txnID"
    and "\<forall>w \<in> set (tx_Writes txn). utf8_valid (wi_Key w) \<and> utf8_valid (wi_Value w)"
    and "coord_Commit (cluster_net B P sched) ord1 ord2 now txnID c cl = (c', calls, cl1, err)"
  shows "err = None \<and> txn_state c' txnID = Some StateCommitted \<and> calls = [] \<and> cluster_inv B tinv cl1 \<and>
    (\<exists>m1. cluster_state B P cl1 = (cluster_state B P cl)(shard \<mapsto> m1) \<and>
      (if \<forall>w \<in> set (tx_Writes txn). available m (wi_Key w) txnID
       then (\<forall>w \<in> set (tx_Writes txn). versions m1 (wi_Key w) = (versions m (wi_Key w))(now \<mapsto> Some (wi_Value w)) \<and>
           intents m1 (wi_Key w) = None) \<and>
         (\<forall>k. (\<forall>w \<in> set (tx_Writes txn). wi_Key w \<noteq> k) \<longrightarrow> versions m1 k = versions m k \<and> intents m1 k = intents m k)
       else m1 = m))"
proof -
  let ?r = "co_router c" and ?ws = "tx_Writes txn"
  obtain sh ws where g: "group_by_shard ?r ?ws = [(sh, ws)]"
    using group_single_iff [OF assms(5), of ?r] assms(6) by (metis surj_pair)
  have ws: "mset ws = mset ?ws" and sh: "sh = shard"
    using group_single [OF g] assms(5,6) by (auto simp: neq_Nil_conv)
  have set: "set ws = set ?ws" using ws by (rule mset_eq_setD)
  have d: "distinct (map wi_Key ws)" using assms(7) ws by (metis mset_eq_imp_distinct_iff mset_map)
  let ?call = "oneshot_call shard ws txnID now"
  obtain resp cl2 where h: "cluster_net B P sched ?call cl = (resp, cl2)" by fastforce
  have "cluster_state B P cl shard \<noteq> None" using st by simp
  note one = oneshot_effect [OF assms(1,2,8) this assms(10) _ h]
  then have eff: "ok_response resp" "cluster_inv B tinv cl2"
      "cluster_state B P cl2 = (cluster_state B P cl)(shard \<mapsto> spec_cmd m (COnePhaseCommit (batch_of ws) txnID now))"
    using one assms(11) set st by (simp_all add: spec_op_def del: spec_cmd.simps)
  then have send: "sendOneShot (cluster_net B P sched) shard ws txnID now cl = (None, cl2)"
    using h by (auto simp: sendOneShot_def send_def ok_response_def)
  then have res: "err = None" "c' = set_state txnID StateCommitted c" "calls = []" "cl1 = cl2"
    using assms(3,4,5,12) g sh by (auto simp: coord_Commit_def)
  have "(\<forall>bop \<in> set (batch_of ws). available m (op_Key bop) txnID) \<longleftrightarrow> (\<forall>w \<in> set ?ws. available m (wi_Key w) txnID)"
    using set by (auto simp: batch_of_def)
  then show ?thesis
    using res eff(2,3) assms(3) batch_cell [OF d] batch_other [of ws] set by (auto intro!: exI)
qed

text \<open>
  (C9) One-phase commit, end to end: a transaction whose writes are UTF-8 text for different keys
  of one shard is committed by one call.  When no key is held by another transaction, every
  write is a version at the commit timestamp, no intent is left and the other keys are as they
  were; when one is, the shard is left as it was, all or nothing.  In both cases \<open>Commit\<close>
  reports success, and other shards are untouched.
  Each shard address is a server of its own that applies every accepted proposal once and in
  order, and every call is answered.
\<close>

theorem distributed_one_phase:
  assumes "shard_cluster B tinv P sched" and "cluster_inv B tinv cl"
    and "co_transactions c txnID = Some txn" and "tx_State txn = StateActive" and "tx_Writes txn \<noteq> []"
    and "\<forall>w \<in> set (tx_Writes txn). Locate (co_router c) (wi_Key w) = shard" and "distinct (map wi_Key (tx_Writes txn))"
    and "good_addr shard" and st: "cluster_state B P cl shard = Some m" and "utf8_valid txnID"
    and "\<forall>w \<in> set (tx_Writes txn). utf8_valid (wi_Key w) \<and> utf8_valid (wi_Value w)"
    and "coord_Commit (cluster_net B P sched) ord1 ord2 now txnID c cl = (c', calls, cl1, err)"
  shows "err = None \<and> txn_state c' txnID = Some StateCommitted \<and> calls = [] \<and>
    (\<exists>m1. cluster_state B P cl1 = (cluster_state B P cl)(shard \<mapsto> m1) \<and>
      (if \<forall>w \<in> set (tx_Writes txn). available m (wi_Key w) txnID
       then (\<forall>w \<in> set (tx_Writes txn). versions m1 (wi_Key w) = (versions m (wi_Key w))(now \<mapsto> Some (wi_Value w)) \<and>
           intents m1 (wi_Key w) = None) \<and>
         (\<forall>k. (\<forall>w \<in> set (tx_Writes txn). wi_Key w \<noteq> k) \<longrightarrow> versions m1 k = versions m k \<and> intents m1 k = intents m k)
       else m1 = m))"
  using one_phase_effect [OF assms] by blast

theorem distributed_one_phase_witness:
  "\<exists>c' cl1 m1. coord_Commit (cluster_net sl_btree any_parser id) id id 9 (lit ''txn-7'')
      (fst (AddWrite (lit ''txn-7'') (lit ''a'') (lit ''1'') (fst (Begin 7 (NewCoordinator two_router))))) two_shards = (c', [], cl1, None) \<and>
     cluster_state sl_btree any_parser cl1 (lit ''http://s1'') = Some m1 \<and> versions m1 (lit ''a'') 9 = Some (Some (lit ''1''))"
proof -
  let ?P = any_parser and ?c = "fst (AddWrite (lit ''txn-7'') (lit ''a'') (lit ''1'') (fst (Begin 7 (NewCoordinator two_router))))"
  obtain c' calls cl1 err where r:
    "coord_Commit (cluster_net sl_btree ?P id) id id 9 (lit ''txn-7'') ?c two_shards = (c', calls, cl1, err)"
    by (rule commit_result)
  have t: "co_transactions ?c (lit ''txn-7'') = Some \<lparr>tx_ID = lit ''txn-7'', tx_State = StateActive, tx_StartTime = 7,
       tx_Writes = [\<lparr>wi_Key = lit ''a'', wi_Value = lit ''1''\<rparr>]\<rparr>"
    by code_simp
  have l: "Locate (co_router ?c) (lit ''a'') = lit ''http://s1''" by code_simp
  have u: "utf8_valid (lit ''txn-7'')" "utf8_valid (lit ''a'')" "utf8_valid (lit ''1'')"
    unfolding utf8_valid_def by code_simp+
  have st: "cluster_state sl_btree ?P two_shards (lit ''http://s1'') = Some (view sl_btree (NewMemoryStore sl_btree))"
    using two_facts(3) by (simp add: cluster_state_def two_shards_def new_server_def settled_def shard_run_def)
  have av: "available (view sl_btree (NewMemoryStore sl_btree)) k t" for k t
    by (simp add: available_def NewMemoryStore_def)
  show ?thesis
    using distributed_one_phase [OF lazy.shard_cluster_axioms two_shards_inv t _ _ _ _ two_facts(1) st u(1) _ r] l u av r
    by (auto simp del: view_sel)
qed

text \<open>
  Progress: the internal steps of a finite cluster come to an end whatever their order, a
  cluster without a further step has applied everything it accepted, and along the way
  neither the invariant nor the abstract state changes; so every execution of any calls can
  be continued to a state in which all queues are applied.
\<close>

theorem cluster_settles:
  assumes "shard_cluster B tinv P sched" and "cluster_inv B tinv cl" and "finite (dom cl)"
  shows "wfp (\<lambda>cl2 cl1. finite (dom cl1) \<and> cluster_step B P cl1 cl2) \<and>
    ((\<nexists>cl'. cluster_step B P cl cl') \<longleftrightarrow> all_applied cl) \<and>
    (\<forall>cl'. (cluster_step B P)\<^sup>*\<^sup>* cl cl' \<longrightarrow> cluster_inv B tinv cl' \<and> cluster_state B P cl' = cluster_state B P cl) \<and>
    (\<forall>calls. \<exists>cl'. net_exec (cluster_net B P sched) (cluster_step B P) calls cl cl' \<and> all_applied cl')"
proof -
  have "wfp (\<lambda>cl2 cl1. finite (dom cl1) \<and> cluster_step B P cl1 cl2)"
    by (rule wfp_if_convertible_to_nat [where f = backlog]) (auto intro: backlog_step)
  moreover have "btree_api B tinv" using assms(1) by (simp add: shard_cluster_def)
  ultimately show ?thesis
    using stuck_iff_applied [of B P cl] cluster_steps_keep [OF _ assms(2), of P] exec_drains [OF assms(1,3)] by blast
qed

theorem cluster_settles_witness:
  "\<exists>cl'. net_exec (cluster_net sl_btree any_parser id) (cluster_step sl_btree any_parser)
     [commit_call (lit ''http://s1'') (lit ''a'') (lit ''txn-1'') 9] two_shards cl' \<and> all_applied cl'"
  using cluster_settles [OF lazy.shard_cluster_axioms two_shards_inv, of any_parser] by (simp add: two_shards_def)

end
