(* ===== verification/Tree_Refinement.thy ===== *)
theory Tree_Refinement
  imports Store_Machine Snapshot
begin

text \<open>
  The tree under the store does not show: a store over any tree with the documented
  behaviour of the btree package behaves exactly like the store over the sorted list of its
  items.  \<open>flatten\<close> is the refinement map; every operation commutes with it and returns the
  same result.  A program over the store can so be evaluated over lists and the result
  holds for every tree.
\<close>

definition flatten_store :: "'t btree_ops \<Rightarrow> 't MemoryStore \<Rightarrow> item list MemoryStore" where
  "flatten_store B s = \<lparr>ms_tree = bt_Ascend B (ms_tree s), ms_locks = ms_locks s\<rparr>"

lemma flatten_sel [simp]:
  "ms_tree (flatten_store B s) = bt_Ascend B (ms_tree s)" "ms_locks (flatten_store B s) = ms_locks s"
  by (simp_all add: flatten_store_def)

lemma sorted_items_unique:
  assumes "sorted_wrt item_Less xs" and "sorted_wrt item_Less ys" and "set xs = set ys"
  shows "xs = ys"
proof -
  have "map item_key xs = map item_key ys"
    using assms by (intro strict_sorted_equal) (auto simp: sorted_wrt_item_Less)
  moreover have "inj_on item_key (set xs \<union> set ys)"
    using assms(1,3) by (simp add: sorted_wrt_item_Less strict_sorted_iff distinct_map)
  ultimately show ?thesis by (rule map_inj_on)
qed

lemma opc_validate_flatten: "opc_validate (flatten_store B s) ops txn = opc_validate s ops txn"
  by (induction ops) (simp_all split: option.split)

context btree_api
begin

lemma Ascend_insert: "tinv t \<Longrightarrow> bt_Ascend B (bt_ReplaceOrInsert B t i) = sl_insert (bt_Ascend B t) i"
  by (rule sorted_items_unique)
     (auto simp: Ascend_sorted inv_ReplaceOrInsert sorted_sl_insert Ascend_ReplaceOrInsert set_sl_insert neq_iff)

lemma Ascend_delete: "tinv t \<Longrightarrow> bt_Ascend B (bt_Delete B t i) = sl_delete (bt_Ascend B t) i"
  by (rule sorted_items_unique)
     (auto simp: Ascend_sorted inv_Delete sl_delete_def Ascend_Delete neq_iff intro: sorted_wrt_filter)

lemma Ascend_inserts:
  "tinv t \<Longrightarrow> bt_Ascend B (fold (\<lambda>(k, v) t. bt_ReplaceOrInsert B t (mk_item k v)) kvs t) =
     fold (\<lambda>(k, v) t. sl_insert t (mk_item k v)) kvs (bt_Ascend B t)"
  by (induction kvs arbitrary: t) (auto simp: inv_ReplaceOrInsert Ascend_insert)

lemma Ascend_deletes:
  "tinv t \<Longrightarrow>
   (case fold (\<lambda>k (t, n). (bt_Delete B t k, n + 1)) ks (t, m) of (t', n) \<Rightarrow> (bt_Ascend B t', n :: nat)) =
     fold (\<lambda>k (t, n). (sl_delete t k, n + 1)) ks (bt_Ascend B t, m)"
  by (induction ks arbitrary: t m) (auto simp: inv_Delete Ascend_delete)

lemma flatten_New: "flatten_store B (NewMemoryStore B) = NewMemoryStore sl_btree"
  by (simp add: flatten_store_def NewMemoryStore_def Ascend_New)

lemma flatten_Prepare:
  "Prepare (flatten_store B s) key v txn = map_prod (flatten_store B) id (Prepare s key v txn)"
  by (auto simp: Prepare_def flatten_store_def Let_def split: option.split)

lemma flatten_Abort: "Abort (flatten_store B s) key txn = map_prod (flatten_store B) id (Abort s key txn)"
  by (auto simp: Abort_def flatten_store_def Let_def split: option.split)

lemma flatten_Commit:
  "store_inv B tinv s \<Longrightarrow>
   Commit sl_btree (flatten_store B s) key txn ts = map_prod (flatten_store B) id (Commit B s key txn ts)"
  by (auto simp: Commit_def flatten_store_def Let_def Ascend_insert [OF store_invD(1)] split: option.split)

lemma flatten_opc_write:
  "store_inv B tinv s \<Longrightarrow> opc_write sl_btree (flatten_store B s) ops ts = flatten_store B (opc_write B s ops ts)"
proof (induction ops arbitrary: s)
  case Nil
  then show ?case by simp
next
  case (Cons bop ops)
  let ?s = "s\<lparr>ms_tree := bt_ReplaceOrInsert B (ms_tree s) (mk_item (EncodeKey (op_Key bop) ts) (op_Value bop)),
     ms_locks := (ms_locks s)(op_Key bop := None)\<rparr>"
  have "store_inv B tinv ?s" by (rule store_inv_insert [OF Cons.prems]) simp
  from Cons.IH [OF this] show ?case
    by (simp add: Let_def flatten_store_def Ascend_insert [OF store_invD(1) [OF Cons.prems]])
qed

lemma flatten_OnePhaseCommit:
  "store_inv B tinv s \<Longrightarrow>
   OnePhaseCommit sl_btree (flatten_store B s) ops txn ts = map_prod (flatten_store B) id (OnePhaseCommit B s ops txn ts)"
  by (auto simp: OnePhaseCommit_def opc_validate_flatten flatten_opc_write split: option.split)

lemma flatten_RunGC:
  assumes "store_inv B tinv s"
  shows "RunGC sl_btree (flatten_store B s) safeTs = map_prod (flatten_store B) id (RunGC B s safeTs)"
proof -
  let ?ks = "keysToDelete (iterate (gc_visit safeTs) (bt_Ascend B (ms_tree s))
      \<lparr>currentUserKey = [], foundSnapshot = False, keysToDelete = []\<rparr>)"
  show ?thesis
    using Ascend_deletes [OF store_invD(1) [OF assms], of ?ks 0]
    by (auto simp: RunGC_def flatten_store_def Let_def split: prod.splits)
qed

lemma flatten_Ingest:
  "store_inv B tinv s \<Longrightarrow> Ingest sl_btree (flatten_store B s) data = map_prod (flatten_store B) id (Ingest B s data)"
  by (simp add: Ingest_def flatten_store_def Ascend_inserts [OF store_invD(1)])

lemma flatten_AscendGreaterOrEqual:
  "store_inv B tinv s \<Longrightarrow>
   bt_AscendGreaterOrEqual sl_btree (bt_Ascend B (ms_tree s)) p = bt_AscendGreaterOrEqual B (ms_tree s) p"
  by (simp add: AscendGreaterOrEqual_filter [OF store_invD(1)])

lemma flatten_mvccGetLocked:
  "store_inv B tinv s \<Longrightarrow> mvccGetLocked sl_btree (flatten_store B s) key readTs = mvccGetLocked B s key readTs"
  using flatten_AscendGreaterOrEqual [of s] by (simp add: mvccGetLocked_def Let_def del: sl_btree_simps(6))

lemma flatten_reads:
  assumes "store_inv B tinv s"
  shows "GetTxn sl_btree (flatten_store B s) key readTs = GetTxn B s key readTs"
    and "Scan sl_btree (flatten_store B s) start end iter x = Scan B s start end iter x"
    and "ScanRange sl_btree (flatten_store B s) start end = ScanRange B s start end"
    and "GetSnapshotData sl_btree (flatten_store B s) = GetSnapshotData B s"
  using flatten_AscendGreaterOrEqual [OF assms] flatten_mvccGetLocked [OF assms]
  by (simp_all add: GetTxn_def Scan_def ScanRange_def GetSnapshotData_def Let_def del: sl_btree_simps(6) split: option.split)

lemmas flatten_ops = flatten_Prepare flatten_Abort flatten_Commit flatten_OnePhaseCommit flatten_RunGC flatten_Ingest

lemma flatten_exec_cmd:
  "store_inv B tinv s \<Longrightarrow> exec_cmd sl_btree (flatten_store B s) c = flatten_store B (exec_cmd B s c)"
  by (cases c) (simp_all add: flatten_ops)

lemma flatten_exec_cmds:
  "store_inv B tinv s \<Longrightarrow> list_all cmd_ok cs \<Longrightarrow>
   exec_cmds sl_btree (flatten_store B s) cs = flatten_store B (exec_cmds B s cs) \<and> store_inv B tinv (exec_cmds B s cs)"
proof (induction cs arbitrary: s)
  case (Cons c cs)
  then have "store_inv B tinv (exec_cmd B s c)" by (simp add: store_inv_exec_cmd)
  with Cons show ?case by (simp add: flatten_exec_cmd)
qed simp

end

end
