(* ===== verification/Tools.thy ===== *)
theory Tools
  imports Tree_Refinement Shard_Server
begin

text \<open>
  The verification programs under \<^verbatim>\<open>cmd/tools\<close>: what they print when they are run against the
  components.  \<^verbatim>\<open>verify_gc\<close> works on a store of its own; \<^verbatim>\<open>verify_2pc\<close> and \<^verbatim>\<open>verify_migration\<close>
  talk HTTP to shard servers, and sleep until the servers have applied what was proposed.
\<close>

section \<open>verify_gc\<close>

text \<open>The error of a read is dropped, and its value is then \<open>nil\<close>.\<close>

definition read_value :: "store_error + slice \<Rightarrow> slice" where
  "read_value r = (case r of Inl _ \<Rightarrow> None | Inr v \<Rightarrow> v)"

definition verify_gc :: "'t btree_ops \<Rightarrow> bytes list" where
  "verify_gc B =
     (let key = lit ''keyA'';
          s0 = NewMemoryStore B;
          s1 = fst (Commit B (fst (Prepare s0 key (Some (lit ''val10'')) (lit ''txn1''))) key (lit ''txn1'') 10);
          s2 = fst (Commit B (fst (Prepare s1 key (Some (lit ''val20'')) (lit ''txn2''))) key (lit ''txn2'') 20);
          s3 = fst (Commit B (fst (Prepare s2 key (Some (lit ''val30'')) (lit ''txn3''))) key (lit ''txn3'') 30);
          val = read_value (GetTxn B s3 key 25)
      in lit ''Initial State Created.'' #
         (if slice_bytes val \<noteq> lit ''val20''
          then [lit ''FAIL: Pre-GC Read 25 expected val20, got '' @ slice_bytes val]
          else (case RunGC B s3 25 of (s, deleted) \<Rightarrow>
                  let val15 = read_value (GetTxn B s key 15);
                      val25 = read_value (GetTxn B s key 25);
                      val35 = read_value (GetTxn B s key 35)
                  in [lit ''Running GC(25)...'',
                      lit ''Deleted items: '' @ Sprint_d deleted,
                      if val15 \<noteq> None then lit ''FAIL: Read 15 expected nil (deleted), got '' @ slice_bytes val15
                      else lit ''PASS: Version 10 is gone.'',
                      if slice_bytes val25 \<noteq> lit ''val20'' then lit ''FAIL: Read 25 expected val20, got '' @ slice_bytes val25
                      else lit ''PASS: Version 20 remained.'',
                      if slice_bytes val35 \<noteq> lit ''val30'' then lit ''FAIL: Read 35 expected val30, got '' @ slice_bytes val35
                      else lit ''PASS: Version 30 remained.''])))"

definition gc_cmds :: "store_cmd list" where
  "gc_cmds = [CPrepare (lit ''keyA'') (Some (lit ''val10'')) (lit ''txn1''), CCommit (lit ''keyA'') (lit ''txn1'') 10,
     CPrepare (lit ''keyA'') (Some (lit ''val20'')) (lit ''txn2''), CCommit (lit ''keyA'') (lit ''txn2'') 20,
     CPrepare (lit ''keyA'') (Some (lit ''val30'')) (lit ''txn3''), CCommit (lit ''keyA'') (lit ''txn3'') 30]"

lemma verify_gc_any_tree:
  assumes "btree_api B tinv"
  shows "verify_gc B = verify_gc sl_btree"
proof -
  note api = assms
  have ok: "list_all cmd_ok gc_cmds" by (simp add: gc_cmds_def)
  define s where "s = exec_cmds B (NewMemoryStore B) gc_cmds"
  define l where "l = exec_cmds sl_btree (NewMemoryStore sl_btree) gc_cmds"
  have l: "flatten_store B s = l" and inv: "store_inv B tinv s"
    using btree_api.flatten_exec_cmds [OF api btree_api.store_inv_New [OF api] ok]
    by (simp_all add: s_def l_def btree_api.flatten_New [OF api])
  note gc = btree_api.flatten_RunGC [OF api inv, of 25, unfolded l]
  have inv': "store_inv B tinv (fst (RunGC B s 25))" by (rule btree_api.store_inv_RunGC [OF api inv])
  have reads: "GetTxn B s k t = GetTxn sl_btree l k t"
    "GetTxn B (fst (RunGC B s 25)) k t = GetTxn sl_btree (fst (RunGC sl_btree l 25)) k t" for k t
    using btree_api.flatten_reads(1) [OF api inv, of k t] btree_api.flatten_reads(1) [OF api inv', of k t] l gc by simp_all
  have s: "s = fst (Commit B (fst (Prepare (fst (Commit B (fst (Prepare (fst (Commit B (fst (Prepare (NewMemoryStore B)
      (lit ''keyA'') (Some (lit ''val10'')) (lit ''txn1''))) (lit ''keyA'') (lit ''txn1'') 10))
      (lit ''keyA'') (Some (lit ''val20'')) (lit ''txn2''))) (lit ''keyA'') (lit ''txn2'') 20))
      (lit ''keyA'') (Some (lit ''val30'')) (lit ''txn3''))) (lit ''keyA'') (lit ''txn3'') 30)"
    by (simp add: s_def gc_cmds_def)
  have lS: "l = fst (Commit sl_btree (fst (Prepare (fst (Commit sl_btree (fst (Prepare (fst (Commit sl_btree (fst (Prepare (NewMemoryStore sl_btree)
      (lit ''keyA'') (Some (lit ''val10'')) (lit ''txn1''))) (lit ''keyA'') (lit ''txn1'') 10))
      (lit ''keyA'') (Some (lit ''val20'')) (lit ''txn2''))) (lit ''keyA'') (lit ''txn2'') 20))
      (lit ''keyA'') (Some (lit ''val30'')) (lit ''txn3''))) (lit ''keyA'') (lit ''txn3'') 30)"
    by (simp add: l_def gc_cmds_def)
  show ?thesis
    unfolding verify_gc_def Let_def s [symmetric] lS [symmetric] case_prod_beta reads using gc by simp
qed

text \<open>
  \<^verbatim>\<open>verify_gc\<close> passes on every tree: the program prints that one item was deleted and that
  version 10 is gone while versions 20 and 30 remained.
\<close>

theorem verify_gc_passes:
  assumes "btree_api B tinv"
  shows "verify_gc B = [lit ''Initial State Created.'', lit ''Running GC(25)...'', lit ''Deleted items: 1'',
     lit ''PASS: Version 10 is gone.'', lit ''PASS: Version 20 remained.'', lit ''PASS: Version 30 remained.'']"
  unfolding verify_gc_any_tree [OF assms] by code_simp

theorem verify_gc_passes_witness:
  "verify_gc rb_btree = [lit ''Initial State Created.'', lit ''Running GC(25)...'', lit ''Deleted items: 1'',
     lit ''PASS: Version 10 is gone.'', lit ''PASS: Version 20 remained.'', lit ''PASS: Version 30 remained.'']"
  by (rule verify_gc_passes [OF rb.btree_api_axioms])

end
