(* ===== verification/Tools_Http.thy ===== *)
theory Tools_Http
  imports Tools
begin

text \<open>
  The verification programs that drive shard servers over HTTP: \<^verbatim>\<open>verify_2pc\<close> walks one key
  through prepare, read, commit and read on one shard, \<^verbatim>\<open>verify_migration\<close> copies a row from
  one shard to another with the debug endpoints.  The network is a parameter; the theorems
  run the programs against shard servers with their complete route table, and a sleep is
  any time in which the servers apply everything that has been proposed.
\<close>

section \<open>The network\<close>

text \<open>A request by method, URL and body; the answer is an error text, or status and body.\<close>

type_synonym 'w net = "bytes \<Rightarrow> bytes \<Rightarrow> bytes \<Rightarrow> 'w \<Rightarrow> (bytes + nat \<times> bytes) \<times> 'w"

text \<open>
  Shard servers behind their addresses.  \<open>texts\<close> gives the texts the model leaves open: that of
  a metrics map, and that of an error with its status.
\<close>

record texts =
  text_Metrics :: "(bytes \<rightharpoonup> u64) \<Rightarrow> bytes"
  text_Error :: "nat \<Rightarrow> bytes"
  text_Refused :: bytes

fun body_text :: "texts \<Rightarrow> nat \<Rightarrow> http_body \<Rightarrow> bytes" where
  "body_text T status (Text b) = b"
| "body_text T status (MetricsMap m) = text_Metrics T m"
| "body_text T status ErrorText = text_Error T status"

fun queue_effect :: "'msg effect \<Rightarrow> bytes list" where
  "queue_effect (Proposed p) = [p]"
| "queue_effect _ = []"

definition shards_net ::
  "'t btree_ops \<Rightarrow> ('x, 'pe) sqlparser \<Rightarrow> ((bytes \<rightharpoonup> slice) \<Rightarrow> (bytes \<times> slice) list) \<Rightarrow>
   ((bytes \<times> slice) list \<Rightarrow> (bytes \<times> slice) list) \<Rightarrow> (bytes \<Rightarrow> 'msg option) \<Rightarrow> texts \<Rightarrow> 't cluster net" where
  "shards_net B P order range_order unmarshal T req_method url body cl =
     (case split_url url of (addr, path, q) \<Rightarrow>
        case cl addr of
          None \<Rightarrow> (Inl (text_Refused T), cl)
        | Some srv \<Rightarrow>
            (case shard_serve B P order range_order unmarshal req_method path q body (srv_node srv) of
               (n, effect, status, ans) \<Rightarrow>
                 (Inr (status, body_text T status ans),
                  cl(addr \<mapsto> \<lparr>srv_node = n, srv_queue = srv_queue srv @ queue_effect effect\<rparr>))))"

section \<open>verify_2pc\<close>

definition req_2pc :: "'w net \<Rightarrow> bytes \<Rightarrow> bytes \<Rightarrow> 'w \<Rightarrow> bytes \<times> 'w" where
  "req_2pc net req_method url w =
     (case net (lit ''GET'') url [] w of
        (Inl err, w') \<Rightarrow> (req_method @ lit '' '' @ url @ lit '' -> Error: '' @ err, w')
      | (Inr (status, body), w') \<Rightarrow>
          (req_method @ lit '' '' @ url @ lit '' -> '' @ Sprint_d status @ lit '': '' @ body, w'))"

definition prepare_url :: bytes where
  "prepare_url = lit ''http://127.0.0.1:9001/txn/prepare?key=t:test2pc&val=myvalue&txn=txverify''"

definition commit_url :: bytes where
  "commit_url = lit ''http://127.0.0.1:9001/txn/commit?key=t:test2pc&txn=txverify&ts=2000''"

definition select_url :: bytes where
  "select_url = lit ''http://127.0.0.1:9001/execute?sql=SELECT+*+FROM+t+WHERE+k='' @ [39] @ lit ''test2pc'' @ [39]"

text \<open>The lines it prints; \<open>sleep\<close> takes milliseconds.\<close>

definition verify_2pc :: "'w net \<Rightarrow> (nat \<Rightarrow> 'w \<Rightarrow> 'w) \<Rightarrow> 'w \<Rightarrow> bytes list \<times> 'w" where
  "verify_2pc net sleep w0 =
     (case req_2pc net (lit ''GET'') prepare_url w0 of (o1, w1) \<Rightarrow>
      case req_2pc net (lit ''GET'') select_url (sleep 1000 w1) of (o2, w2) \<Rightarrow>
      case req_2pc net (lit ''GET'') commit_url w2 of (o3, w3) \<Rightarrow>
      case req_2pc net (lit ''GET'') select_url (sleep 1000 w3) of (o4, w4) \<Rightarrow>
        ([lit ''1. Sending PREPARE...'', o1, lit ''2. Reading (Expect Locked)...'', o2,
          lit ''3. Sending COMMIT...'', o3, lit ''4. Reading (Expect Success)...'', o4], w4))"

section \<open>verify_migration\<close>

definition req_migration :: "'w net \<Rightarrow> bytes \<Rightarrow> bytes \<Rightarrow> bytes \<Rightarrow> 'w \<Rightarrow> bytes \<times> bytes list \<times> 'w" where
  "req_migration net req_method url body w =
     (case net req_method url body w of
        (Inl err, w') \<Rightarrow> ([], [lit ''FAIL: '' @ req_method @ lit '' '' @ url @ lit '' -> '' @ err], w')
      | (Inr (status, ans), w') \<Rightarrow>
          (ans, if status \<ge> 400 then [lit ''ERROR '' @ Sprint_d status @ lit '': '' @ ans] else [], w'))"

definition insert_sql :: bytes where
  "insert_sql = lit ''INSERT INTO t VALUES ('' @ [39] @ lit ''KeyM'' @ [39] @ lit '', '' @ [39] @ lit ''ValM'' @ [39] @ lit '')''"

definition point_sql :: bytes where
  "point_sql = lit ''SELECT * FROM t WHERE k='' @ [39] @ lit ''KeyM'' @ [39]"

definition scan_sql :: bytes where
  "scan_sql = lit ''SELECT * FROM t''"

definition verify_migration :: "'w net \<Rightarrow> (nat \<Rightarrow> 'w \<Rightarrow> 'w) \<Rightarrow> 'w \<Rightarrow> bytes list \<times> 'w" where
  "verify_migration net sleep w0 =
     (let s1Export = lit ''http://localhost:9001/debug/export'';
          s2Ingest = lit ''http://localhost:9002/debug/ingest'';
          s2Execute = lit ''http://localhost:9002/execute?sql=''
      in case req_migration net (lit ''POST'') (lit ''http://localhost:9001/execute?sql='' @ QueryEscape insert_sql) [] w0 of
           (_, e1, w1) \<Rightarrow>
         case req_migration net (lit ''GET'') s1Export [] (sleep 500 w1) of (exportJson, e2, w2) \<Rightarrow>
           let out2 = lit ''1. Insert KeyM to S1 (via Proxy)'' # e1 @ lit ''2. Export from S1'' # e2 @
                      [lit ''Exported Data Length: '' @ Sprint_d (length exportJson) @ lit '' bytes'']
           in if length exportJson < 10 then (out2 @ [lit ''FAIL: Export looks empty?''], w2)
              else case req_migration net (lit ''POST'') s2Ingest exportJson w2 of (_, e3, w3) \<Rightarrow>
                   case req_migration net (lit ''GET'') (s2Execute @ QueryEscape point_sql) [] w3 of (res, e4, w4) \<Rightarrow>
                   case req_migration net (lit ''GET'') (s2Execute @ QueryEscape scan_sql) [] w4 of (resScan, e5, w5) \<Rightarrow>
                   case req_migration net (lit ''GET'') (lit ''http://localhost:9002/debug/export'') [] w5 of (s2Dump, e6, w6) \<Rightarrow>
                     (out2 @ lit ''3. Ingest to S2'' # e3 @ lit ''4. Verify S2 has Data (Direct Read)'' # e4 @
                      [lit ''S2 Point Result: '' @ res] @ e5 @ [lit ''S2 Scan Result: '' @ resScan] @ e6 @
                      [lit ''S2 Dump: '' @ s2Dump] @
                      [if res = lit ''[['' @ json_quote (lit ''ValM'') @ lit '']]'' \<or>
                          res = lit ''[['' @ json_quote (lit ''KeyM,ValM'') @ lit '']]'' \<or> length res > 5
                       then lit ''SUCCESS: Data migrated to S2!'' else lit ''FAILURE: Data not found on S2.''], w6))"

section \<open>Servers that catch up\<close>

definition catches_up :: "'t btree_ops \<Rightarrow> ('x, 'pe) sqlparser \<Rightarrow> ('t cluster \<Rightarrow> 't cluster) \<Rightarrow> bool" where
  "catches_up B P sleep \<longleftrightarrow> (\<forall>cl. finite (dom cl) \<longrightarrow> (cluster_step B P)\<^sup>*\<^sup>* cl (sleep cl) \<and> all_applied (sleep cl))"

lemma cluster_steps_settled:
  "(cluster_step B P)\<^sup>*\<^sup>* cl cl' \<Longrightarrow> map_option (settled B P) (cl' a) = map_option (settled B P) (cl a)"
proof (induction rule: rtranclp_induct)
  case (step y z)
  from step(2) show ?case
    by cases (use step(3) in \<open>auto simp: settled_deliver simp del: deliver.simps\<close>)
qed simp

lemma sleep_server:
  assumes "catches_up B P sleep" and "finite (dom cl)"
  shows "sleep cl = (\<lambda>a. map_option (\<lambda>srv. \<lparr>srv_node = settled B P srv, srv_queue = []\<rparr>) (cl a))"
proof
  fix a
  have st: "map_option (settled B P) (sleep cl a) = map_option (settled B P) (cl a)" and ap: "all_applied (sleep cl)"
    using assms cluster_steps_settled [of B P cl "sleep cl" a] by (auto simp: catches_up_def)
  show "sleep cl a = map_option (\<lambda>srv. \<lparr>srv_node = settled B P srv, srv_queue = []\<rparr>) (cl a)"
  proof (cases "sleep cl a")
    case None
    with st show ?thesis by simp
  next
    case (Some srv')
    with ap have "srv_queue srv' = []" by (auto simp: all_applied_def ran_def)
    then have "settled B P srv' = srv_node srv'" by (simp add: settled_def shard_run_def)
    with \<open>srv_queue srv' = []\<close> Some st show ?thesis by (cases srv'; cases "cl a") auto
  qed
qed

lemma sleep_dom: "catches_up B P sleep \<Longrightarrow> finite (dom cl) \<Longrightarrow> dom (sleep cl) = dom cl"
  unfolding sleep_server by (simp add: dom_def)

text \<open>The servers that apply everything at once.\<close>

definition apply_all :: "'t btree_ops \<Rightarrow> ('x, 'pe) sqlparser \<Rightarrow> 't cluster \<Rightarrow> 't cluster" where
  "apply_all B P cl = (\<lambda>a. map_option (\<lambda>srv. \<lparr>srv_node = settled B P srv, srv_queue = []\<rparr>) (cl a))"

lemma deliver_all:
  "cl a = Some srv \<Longrightarrow> (cluster_step B P)\<^sup>*\<^sup>* cl (cl(a \<mapsto> \<lparr>srv_node = settled B P srv, srv_queue = []\<rparr>))"
proof (induction "srv_queue srv" arbitrary: cl srv)
  case Nil
  then have "cl(a \<mapsto> \<lparr>srv_node = settled B P srv, srv_queue = []\<rparr>) = cl"
    by (cases srv) (auto simp: settled_def shard_run_def)
  then show ?case by simp
next
  case (Cons m ms)
  let ?cl = "cl(a \<mapsto> deliver B P srv)"
  have "cluster_step B P cl ?cl" using Cons by (intro cluster_step.intros) auto
  moreover have "(cluster_step B P)\<^sup>*\<^sup>* ?cl (?cl(a \<mapsto> \<lparr>srv_node = settled B P (deliver B P srv), srv_queue = []\<rparr>))"
    using Cons(2) [symmetric] by (intro Cons.hyps(1)) simp_all
  ultimately show ?case by (simp add: settled_deliver del: deliver.simps)
qed

lemma apply_all_catches_up: "catches_up B P (apply_all B P)"
  unfolding catches_up_def
proof (intro allI impI conjI)
  fix cl :: "'a cluster"
  assume fin: "finite (dom cl)"
  let ?up = "\<lambda>A a. if a \<in> A then map_option (\<lambda>srv. \<lparr>srv_node = settled B P srv, srv_queue = []\<rparr>) (cl a) else cl a"
  have "(cluster_step B P)\<^sup>*\<^sup>* cl (?up A)" if "finite A" for A
    using that
  proof (induction A)
    case (insert b A)
    show ?case
    proof (cases "cl b")
      case None
      then have "?up (insert b A) = ?up A" by (auto simp: fun_eq_iff)
      with insert show ?thesis by simp
    next
      case (Some srv)
      then have "(cluster_step B P)\<^sup>*\<^sup>* (?up A) ((?up A)(b \<mapsto> \<lparr>srv_node = settled B P srv, srv_queue = []\<rparr>))"
        using insert(2) by (intro deliver_all) simp
      moreover have "(?up A)(b \<mapsto> \<lparr>srv_node = settled B P srv, srv_queue = []\<rparr>) = ?up (insert b A)"
        using Some by (auto simp: fun_eq_iff)
      ultimately show ?thesis using insert(3) by simp
    qed
  qed simp
  from this [OF fin] show "(cluster_step B P)\<^sup>*\<^sup>* cl (apply_all B P cl)"
    by (rule back_subst [of "(cluster_step B P)\<^sup>*\<^sup>* cl"]) (auto simp: apply_all_def fun_eq_iff domIff)
  show "all_applied (apply_all B P cl)" by (auto simp: all_applied_def apply_all_def ran_def)
qed

section \<open>Requests to the statement and transaction endpoints\<close>

lemma net_mux:
  assumes "split_url url = (a, path, q)" and "shard_mux path q body = Some r" and "cl a = Some srv"
    and "shard_handle B P (srv_node srv) r = (n, p, status, ans)"
  shows "shards_net B P order range_order unmarshal T req_method url body cl =
    (Inr (status, answer_text ans), cl(a \<mapsto> \<lparr>srv_node = n, srv_queue = srv_queue srv @ [p]\<rparr>))"
proof -
  have "path \<in> {lit ''/execute'', lit ''/txn/prepare'', lit ''/txn/commit'', lit ''/txn/abort'', lit ''/txn/oneshot''}"
    using assms(2) by (auto simp: shard_mux_def split: if_splits)
  then have "path \<noteq> lit ''/metrics''" "path \<noteq> lit ''/raft''" "path \<noteq> lit ''/debug/export''" "path \<noteq> lit ''/debug/ingest''"
    by (auto simp: lit_def)
  with assms show ?thesis by (simp add: shards_net_def shard_serve_def)
qed

lemma handle_select:
  assumes "HasPrefix (ToUpper sql) (lit ''SELECT'')" and "ParseToPlan P sql = Inr plan" and "sql \<noteq> []"
    and "Execute (memory_engine B) (Some plan) (sn_engine n) MaxUint64 = (sn_engine n, res)"
  shows "shard_handle B P n (ReqExecute sql body) =
    (n\<lparr>sn_metrics := metrics_Inc (lit ''ops_select'') (sn_metrics n)\<rparr>, lit ''SQL:'' @ sql, 200,
     RowsJSON (case res of Inl _ \<Rightarrow> None | Inr rows \<Rightarrow> rows))"
  using assms by (simp add: shard_handle_def Let_def)

lemma req_2pc_ok:
  assumes "net (lit ''GET'') url [] w = (Inr (200, b), w')"
  shows "req_2pc net (lit ''GET'') url w = (lit ''GET '' @ url @ lit '' -> 200: '' @ b, w')"
proof -
  have "lit ''GET'' @ lit '' '' = lit ''GET ''" and "lit '' -> '' @ Sprint_d 200 @ lit '': '' = lit '' -> 200: ''"
    by code_simp+
  then have "lit ''GET'' @ lit '' '' @ url @ lit '' -> '' @ Sprint_d 200 @ lit '': '' @ b = lit ''GET '' @ url @ lit '' -> 200: '' @ b"
    by (metis append.assoc)
  with assms show ?thesis by (simp add: req_2pc_def)
qed

lemma verify_2pc_urls:
  "split_url prepare_url = (lit ''http://127.0.0.1:9001'', lit ''/txn/prepare'', lit ''key=t:test2pc&val=myvalue&txn=txverify'')"
  "split_url commit_url = (lit ''http://127.0.0.1:9001'', lit ''/txn/commit'', lit ''key=t:test2pc&txn=txverify&ts=2000'')"
  "split_url select_url = (lit ''http://127.0.0.1:9001'', lit ''/execute'',
     lit ''sql=SELECT+*+FROM+t+WHERE+k='' @ [39] @ lit ''test2pc'' @ [39])"
  "shard_mux (lit ''/txn/prepare'') (lit ''key=t:test2pc&val=myvalue&txn=txverify'') [] =
     Some (ReqPrepare (lit ''t:test2pc'') (lit ''myvalue'') (lit ''txverify''))"
  "shard_mux (lit ''/txn/commit'') (lit ''key=t:test2pc&txn=txverify&ts=2000'') [] =
     Some (ReqCommit (lit ''t:test2pc'') (lit ''txverify'') (Sprint_d (unat (2000 :: u64))))"
  "shard_mux (lit ''/execute'') (lit ''sql=SELECT+*+FROM+t+WHERE+k='' @ [39] @ lit ''test2pc'' @ [39]) [] =
     Some (ReqExecute (lit ''SELECT * FROM t WHERE k='' @ [39] @ lit ''test2pc'' @ [39]) [])"
  by code_simp+

section \<open>Properties\<close>

text \<open>The store of the shard along the run, for every tree.\<close>

lemma two_phase_reads:
  assumes "btree_api B tinv"
  defines "s1 \<equiv> fst (Prepare (NewMemoryStore B) (lit ''t:test2pc'') (Some (lit ''myvalue'')) (lit ''txverify''))"
  shows "executePointGet (memory_engine B) (lit ''t'') (lit ''test2pc'') s1 MaxUint64 =
      Inl (EngineError (LockedBy (lit ''t:test2pc'') (lit ''txverify'')))"
    and "executePointGet (memory_engine B) (lit ''t'') (lit ''test2pc'')
        (fst (Commit B s1 (lit ''t:test2pc'') (lit ''txverify'') 2000)) MaxUint64 = Inr (Some [[lit ''test2pc'', lit ''myvalue'']])"
proof -
  let ?cs = "[CPrepare (lit ''t:test2pc'') (Some (lit ''myvalue'')) (lit ''txverify''), CCommit (lit ''t:test2pc'') (lit ''txverify'') 2000]"
  have k: "userKey (lit ''t'') (lit ''test2pc'') = lit ''t:test2pc''" by code_simp
  have "ms_locks s1 (lit ''t:test2pc'') = Some \<lparr>lock_TxnID = lit ''txverify'', lock_Value = Some (lit ''myvalue'')\<rparr>"
    by (simp add: s1_def Prepare_def NewMemoryStore_def Let_def)
  then show "executePointGet (memory_engine B) (lit ''t'') (lit ''test2pc'') s1 MaxUint64 =
      Inl (EngineError (LockedBy (lit ''t:test2pc'') (lit ''txverify'')))"
    by (simp add: executePointGet_def k GetTxn_def)
  have "list_all cmd_ok ?cs" by simp
  from btree_api.flatten_exec_cmds [OF assms(1) btree_api.store_inv_New [OF assms(1)] this]
    btree_api.flatten_New [OF assms(1)]
  have inv: "store_inv B tinv (exec_cmds B (NewMemoryStore B) ?cs)"
    and l: "flatten_store B (exec_cmds B (NewMemoryStore B) ?cs) = exec_cmds sl_btree (NewMemoryStore sl_btree) ?cs"
    by simp_all
  have "GetTxn sl_btree (exec_cmds sl_btree (NewMemoryStore sl_btree) ?cs) (lit ''t:test2pc'') MaxUint64 = Inr (Some (lit ''myvalue''))"
    by code_simp
  then have "GetTxn B (exec_cmds B (NewMemoryStore B) ?cs) (lit ''t:test2pc'') MaxUint64 = Inr (Some (lit ''myvalue''))"
    unfolding l [symmetric] btree_api.flatten_reads(1) [OF assms(1) inv] .
  then show "executePointGet (memory_engine B) (lit ''t'') (lit ''test2pc'')
        (fst (Commit B s1 (lit ''t:test2pc'') (lit ''txverify'') 2000)) MaxUint64 = Inr (Some [[lit ''test2pc'', lit ''myvalue'']])"
    by (simp add: executePointGet_def k s1_def)
qed

text \<open>
  \<^verbatim>\<open>verify_2pc\<close> shows isolation on every tree: run against a fresh shard whose parser
  understands the query, with sleeps in which the shard applies what was proposed, the
  program sees no rows while the intent is held and exactly the committed row afterwards;
  all four requests are answered with 200.
\<close>

theorem verify_2pc_passes:
  assumes "btree_api B tinv" and "finite (dom cl)"
    and "cl (lit ''http://127.0.0.1:9001'') = Some \<lparr>srv_node = new_shard B, srv_queue = []\<rparr>"
    and "ParseToPlan P (lit ''SELECT * FROM t WHERE k='' @ [39] @ lit ''test2pc'' @ [39]) = Inr (PointGetNode (lit ''t'') (lit ''test2pc''))"
    and "\<forall>t. catches_up B P (sleep t)"
  shows "fst (verify_2pc (shards_net B P order range_order unmarshal T) sleep cl) =
    [lit ''1. Sending PREPARE...'', lit ''GET '' @ prepare_url @ lit '' -> 200: '',
     lit ''2. Reading (Expect Locked)...'', lit ''GET '' @ select_url @ lit '' -> 200: '' @ encode_rows None,
     lit ''3. Sending COMMIT...'', lit ''GET '' @ commit_url @ lit '' -> 200: '',
     lit ''4. Reading (Expect Success)...'',
     lit ''GET '' @ select_url @ lit '' -> 200: '' @ encode_rows (Some [[lit ''test2pc'', lit ''myvalue'']])]"
proof -
  let ?a = "lit ''http://127.0.0.1:9001''" and ?net = "shards_net B P order range_order unmarshal T"
  let ?k = "lit ''t:test2pc''" and ?v = "lit ''myvalue''" and ?t = "lit ''txverify''"
  let ?sel = "lit ''SELECT * FROM t WHERE k='' @ [39] @ lit ''test2pc'' @ [39]"
  let ?ts = "Sprint_d (unat (2000 :: u64))"
  have sel: "HasPrefix (ToUpper ?sel) (lit ''SELECT'')" "?sel \<noteq> []" by code_simp+
  have words: "32 \<notin> set ?k" "32 \<notin> set ?v" "32 \<notin> set ?t" by code_simp+
  note rd = two_phase_reads [OF assms(1)]
  define n1 where "n1 = (new_shard B)\<lparr>sn_engine := fst (Prepare (NewMemoryStore B) ?k (Some ?v) ?t)\<rparr>"
  define n2 where "n2 = n1\<lparr>sn_metrics := metrics_Inc (lit ''ops_select'') (sn_metrics n1)\<rparr>"
  define n3 where "n3 = n2\<lparr>sn_metrics := metrics_Inc (lit ''ops_insert'') (sn_metrics n2)\<rparr>"
  define n4 where "n4 = n3\<lparr>sn_engine := fst (Commit B (sn_engine n1) ?k ?t 2000)\<rparr>"
  have ex1: "Execute (memory_engine B) (Some (PointGetNode (lit ''t'') (lit ''test2pc''))) (sn_engine n1) MaxUint64 =
      (sn_engine n1, Inl (EngineError (LockedBy ?k ?t)))"
    by (simp add: Execute_def rd(1) n1_def)
  have ex4: "Execute (memory_engine B) (Some (PointGetNode (lit ''t'') (lit ''test2pc''))) (sn_engine n4) MaxUint64 =
      (sn_engine n4, Inr (Some [[lit ''test2pc'', ?v]]))"
    by (simp add: Execute_def rd(2) n4_def n1_def)
  have h1: "shard_handle B P n1 (ReqExecute ?sel []) = (n2, lit ''SQL:'' @ ?sel, 200, RowsJSON None)"
    by (simp only: handle_select [OF sel(1) assms(4) sel(2) ex1] n2_def sum.case)
  have h4: "\<exists>n5. shard_handle B P n4 (ReqExecute ?sel []) = (n5, lit ''SQL:'' @ ?sel, 200, RowsJSON (Some [[lit ''test2pc'', ?v]]))"
    by (simp only: handle_select [OF sel(1) assms(4) sel(2) ex4] sum.case) simp
  have set1: "settled B P \<lparr>srv_node = new_shard B, srv_queue = [prepare_msg ?k ?v ?t]\<rparr> = n1"
    by (simp add: settled_def shard_run_def apply_prepare [OF words] n1_def new_shard_def case_prod_beta)
  have sql: "fst (shard_Apply B P n2 (lit ''SQL:'' @ ?sel)) = n3"
    unfolding apply_sql assms(4) by (simp add: n3_def Execute_def)
  have set2: "settled B P \<lparr>srv_node = n2, srv_queue = [lit ''SQL:'' @ ?sel, commit_msg ?k ?t ?ts]\<rparr> = n4"
    using sql apply_commit [OF words(1,3), of B P n3 2000]
    by (simp add: settled_def shard_run_def n4_def case_prod_beta) (simp add: n3_def n2_def)
  define cl1 where "cl1 = cl(?a \<mapsto> \<lparr>srv_node = new_shard B, srv_queue = [prepare_msg ?k ?v ?t]\<rparr>)"
  define cl2 where "cl2 = sleep 1000 cl1"
  define cl3 where "cl3 = cl2(?a \<mapsto> \<lparr>srv_node = n2, srv_queue = [lit ''SQL:'' @ ?sel, commit_msg ?k ?t ?ts]\<rparr>)"
  have up: "catches_up B P (sleep 1000)" using assms(5) by blast
  have r1: "?net (lit ''GET'') prepare_url [] cl = (Inr (200, []), cl1)"
    using net_mux [OF verify_2pc_urls(1,4), where cl = cl, OF assms(3), of B P "new_shard B" "prepare_msg ?k ?v ?t" 200 EmptyBody]
    by (simp add: shard_handle_def cl1_def)
  have fin1: "finite (dom cl1)" using assms(2) by (simp add: cl1_def)
  have a2: "cl2 ?a = Some \<lparr>srv_node = n1, srv_queue = []\<rparr>"
    unfolding cl2_def sleep_server [OF up fin1] by (simp add: cl1_def set1)
  have fin2: "finite (dom cl2)" unfolding cl2_def sleep_dom [OF up fin1] by (rule fin1)
  have r2: "?net (lit ''GET'') select_url [] cl2 =
      (Inr (200, encode_rows None), cl2(?a \<mapsto> \<lparr>srv_node = n2, srv_queue = [lit ''SQL:'' @ ?sel]\<rparr>))"
    using net_mux [OF verify_2pc_urls(3,6), where cl = cl2, OF a2, of B P n2 "lit ''SQL:'' @ ?sel" 200 "RowsJSON None"] h1 by simp
  have r3: "?net (lit ''GET'') commit_url [] (cl2(?a \<mapsto> \<lparr>srv_node = n2, srv_queue = [lit ''SQL:'' @ ?sel]\<rparr>)) = (Inr (200, []), cl3)"
    using net_mux [OF verify_2pc_urls(2,5), of "cl2(?a \<mapsto> \<lparr>srv_node = n2, srv_queue = [lit ''SQL:'' @ ?sel]\<rparr>)"
        "\<lparr>srv_node = n2, srv_queue = [lit ''SQL:'' @ ?sel]\<rparr>" B P n2 "commit_msg ?k ?t ?ts" 200 EmptyBody]
    by (simp add: shard_handle_def cl3_def)
  have fin3: "finite (dom cl3)" using fin2 by (simp add: cl3_def)
  have a4: "sleep 1000 cl3 ?a = Some \<lparr>srv_node = n4, srv_queue = []\<rparr>"
    unfolding sleep_server [OF up fin3] unfolding cl3_def by (simp only: fun_upd_same option.map set2)
  obtain n5 where h5: "shard_handle B P n4 (ReqExecute ?sel []) = (n5, lit ''SQL:'' @ ?sel, 200, RowsJSON (Some [[lit ''test2pc'', ?v]]))"
    using h4 by blast
  have r4: "?net (lit ''GET'') select_url [] (sleep 1000 cl3) =
      (Inr (200, encode_rows (Some [[lit ''test2pc'', ?v]])), (sleep 1000 cl3)(?a \<mapsto> \<lparr>srv_node = n5, srv_queue = [lit ''SQL:'' @ ?sel]\<rparr>))"
    using net_mux [OF verify_2pc_urls(3,6), where cl = "sleep 1000 cl3", OF a4, of B P n5 "lit ''SQL:'' @ ?sel" 200 "RowsJSON (Some [[lit ''test2pc'', ?v]])"] h5 by simp
  note ok = req_2pc_ok [where net = ?net]
  show ?thesis
    unfolding verify_2pc_def
    by (simp only: ok [OF r1] cl2_def [symmetric] ok [OF r2] ok [OF r3] ok [OF r4] prod.case fst_conv append_Nil2)
qed

text \<open>A parser for the one query and a choice of the open texts, for the witness.\<close>

definition point_parser :: "(unit, unit) sqlparser" where
  "point_parser = fixed_parser (select_where (Some (ComparisonExpr EqualStr (ColName ()) (SQLVal (lit ''test2pc'')))))"

definition no_texts :: texts where
  "no_texts = \<lparr>text_Metrics = (\<lambda>_. []), text_Error = (\<lambda>_. []), text_Refused = []\<rparr>"

theorem verify_2pc_passes_witness:
  "\<exists>out. fst (verify_2pc (shards_net rb_btree point_parser key_order (\<lambda>xs. xs) (\<lambda>_. None :: unit option) no_texts) (\<lambda>_. apply_all rb_btree point_parser)
      [lit ''http://127.0.0.1:9001'' \<mapsto> \<lparr>srv_node = new_shard rb_btree, srv_queue = []\<rparr>]) = out \<and>
     last out = lit ''GET '' @ select_url @ lit '' -> 200: '' @ encode_rows (Some [[lit ''test2pc'', lit ''myvalue'']])"
proof -
  have parse: "ParseToPlan point_parser (lit ''SELECT * FROM t WHERE k='' @ [39] @ lit ''test2pc'' @ [39]) =
      Inr (PointGetNode (lit ''t'') (lit ''test2pc''))"
    by (simp add: point_parser_def ParseToPlan_def fixed_parser_def select_where_def buildSelectPlan_def)
  show ?thesis
    by (subst verify_2pc_passes [OF rb.btree_api_axioms _ _ parse]) (simp_all add: apply_all_catches_up)
qed

end
