(* ===== verification/Proxy_Server.thy ===== *)
theory Proxy_Server
  imports Cluster_Txn Shard_Server
begin

text \<open>
  The proxy process of \<^verbatim>\<open>cmd/proxy/main.go\<close> with its routes and the texts it answers, and the
  whole system: clients send requests to the proxy, the proxy calls the shards, the calls it
  has started in goroutines arrive in any order, and the shards apply their queues at any
  time.  A \<open>session\<close> is what one client does in such a system.
\<close>

section \<open>The process\<close>

definition proxy_main :: "bytes \<Rightarrow> proxy" where
  "proxy_main metaAddr =
     (let rtr = NewRouter metaAddr; coord = NewCoordinator rtr
      in \<lparr>px_coord = coord, px_metrics = empty_registry\<rparr>)"

fun reply_body :: "'pe proxy_reply \<Rightarrow> http_body" where
  "reply_body (TxnID newID) = Text (lit ''TxnID:'' @ newID)"
| "reply_body CommitOK = Text (lit ''COMMIT OK'')"
| "reply_body RollbackOK = Text (lit ''ROLLBACK OK'')"
| "reply_body BufferedOK = Text (lit ''Buffered Write OK'')"
| "reply_body (Forwarded resp) = Text resp"
| "reply_body (AllRows rows) = Text (encode_rows rows)"
| "reply_body _ = ErrorText"

definition execute_query :: "bytes \<Rightarrow> bytes \<Rightarrow> execute_request" where
  "execute_query q body =
     \<lparr>q_sql = query_Get q (lit ''sql''), q_body = body, q_txn = query_Get q (lit ''txn''),
      q_routing_key = query_Get q (lit ''routing_key'')\<rparr>"

definition proxy_serve ::
  "('x, 'pe) sqlparser \<Rightarrow> 'w http \<Rightarrow> (groups \<Rightarrow> groups) \<Rightarrow> (groups \<Rightarrow> groups) \<Rightarrow> u64 list \<Rightarrow> u64 \<Rightarrow>
   bytes \<Rightarrow> bytes \<Rightarrow> bytes \<Rightarrow> proxy \<Rightarrow> 'w \<Rightarrow> proxy \<times> http_call list \<times> 'w \<times> nat \<times> http_body" where
  "proxy_serve P http ord1 ord2 arrival now path q body px w =
     (if path = lit ''/metrics'' then (px, [], w, 200, MetricsMap (metrics_Handler (px_metrics px)))
      else if path = lit ''/execute''
      then (case proxy_execute P http ord1 ord2 arrival now (execute_query q body) px w of
              (px', calls, w', reply) \<Rightarrow> (px', calls, w', reply_status reply, reply_body reply))
      else (px, [], w, 404, ErrorText))"

section \<open>The system\<close>

record 't system =
  sys_proxy :: proxy
  sys_shards :: "'t cluster"
  sys_calls :: "http_call list"   \<comment> \<open>started by the proxy and under way\<close>

inductive sys_step :: "'t btree_ops \<Rightarrow> ('x, 'pe) sqlparser \<Rightarrow> ('t cluster \<Rightarrow> 't cluster) \<Rightarrow> 't system \<Rightarrow> 't system \<Rightarrow> bool"
  for B P sched where
  apply_queued: "cluster_step B P (sys_shards s) cl \<Longrightarrow> sys_step B P sched s (s\<lparr>sys_shards := cl\<rparr>)"
| arrive: "sys_calls s = xs @ call # ys \<Longrightarrow>
    sys_step B P sched s (s\<lparr>sys_shards := snd (cluster_net B P sched call (sys_shards s)), sys_calls := xs @ ys\<rparr>)"

definition sys_request ::
  "'t btree_ops \<Rightarrow> ('x, 'pe) sqlparser \<Rightarrow> ('t cluster \<Rightarrow> 't cluster) \<Rightarrow> (groups \<Rightarrow> groups) \<Rightarrow> (groups \<Rightarrow> groups) \<Rightarrow> u64 list \<Rightarrow>
   u64 \<Rightarrow> bytes \<Rightarrow> 't system \<Rightarrow> 't system \<times> nat \<times> http_body" where
  "sys_request B P sched ord1 ord2 arrival now q s =
     (case proxy_serve P (cluster_net B P sched) ord1 ord2 arrival now (lit ''/execute'') q [] (sys_proxy s) (sys_shards s) of
        (px, calls, cl, status, ans) \<Rightarrow>
          (\<lparr>sys_proxy = px, sys_shards = cl, sys_calls = sys_calls s @ calls\<rparr>, status, ans))"

text \<open>An exchange is the time of a request, its query, and the status and body of the answer.\<close>

type_synonym exchange = "u64 \<times> bytes \<times> nat \<times> http_body"

inductive session ::
  "'t btree_ops \<Rightarrow> ('x, 'pe) sqlparser \<Rightarrow> ('t cluster \<Rightarrow> 't cluster) \<Rightarrow> (groups \<Rightarrow> groups) \<Rightarrow> (groups \<Rightarrow> groups) \<Rightarrow> u64 list \<Rightarrow>
   exchange list \<Rightarrow> 't system \<Rightarrow> 't system \<Rightarrow> bool"
  for B P sched ord1 ord2 arrival where
  leave: "session B P sched ord1 ord2 arrival [] s s"
| wait: "sys_step B P sched s s1 \<Longrightarrow> session B P sched ord1 ord2 arrival xs s1 t \<Longrightarrow> session B P sched ord1 ord2 arrival xs s t"
| ask: "sys_request B P sched ord1 ord2 arrival now q s = (s1, status, ans) \<Longrightarrow> session B P sched ord1 ord2 arrival xs s1 t \<Longrightarrow>
    session B P sched ord1 ord2 arrival ((now, q, status, ans) # xs) s t"

definition quiet :: "'t system \<Rightarrow> bool" where
  "quiet s \<longleftrightarrow> sys_calls s = [] \<and> all_applied (sys_shards s)"

section \<open>Sessions and steps\<close>

lemma session_Cons:
  assumes "session B P sched ord1 ord2 arrival ((now, q, status, ans) # xs) s t"
  shows "\<exists>s0 s1. (sys_step B P sched)\<^sup>*\<^sup>* s s0 \<and> sys_request B P sched ord1 ord2 arrival now q s0 = (s1, status, ans) \<and>
    session B P sched ord1 ord2 arrival xs s1 t"
  using assms
proof (induction "(now, q, status, ans) # xs" s t rule: session.induct)
  case (wait s s1 t)
  then show ?case by (meson converse_rtranclp_into_rtranclp)
qed blast

lemma session_Nil: "session B P sched ord1 ord2 arrival [] s t \<Longrightarrow> (sys_step B P sched)\<^sup>*\<^sup>* s t"
  by (induction "[] :: exchange list" s t rule: session.induct) (auto intro: converse_rtranclp_into_rtranclp)

text \<open>Steps leave the proxy alone; the shards see some of the calls, in some order.\<close>

lemma sys_steps_exec:
  "(sys_step B P sched)\<^sup>*\<^sup>* s t \<Longrightarrow> sys_proxy t = sys_proxy s \<and>
    (\<exists>cs. mset (sys_calls s) = mset cs + mset (sys_calls t) \<and>
      net_exec (cluster_net B P sched) (cluster_step B P) cs (sys_shards s) (sys_shards t))"
proof (induction rule: converse_rtranclp_induct)
  case base
  have "net_exec (cluster_net B P sched) (cluster_step B P) [] (sys_shards t) (sys_shards t)" by (rule exec_done)
  then show ?case by (intro conjI exI [of _ "[]"]) simp_all
next
  case (step y z)
  then obtain cs where cs: "sys_proxy t = sys_proxy z" "mset (sys_calls z) = mset cs + mset (sys_calls t)"
    "net_exec (cluster_net B P sched) (cluster_step B P) cs (sys_shards z) (sys_shards t)" by blast
  from step(1) show ?case
  proof cases
    case (apply_queued cl)
    with cs show ?thesis by (auto intro: exec_tau)
  next
    case (arrive xs call ys)
    then have "net_exec (cluster_net B P sched) (cluster_step B P) (call # cs) (sys_shards y) (sys_shards t)"
      using cs(3) by (auto intro: exec_call)
    with cs(1,2) arrive show ?thesis by (intro conjI exI [of _ "call # cs"]) simp_all
  qed
qed

lemma net_exec_Nil: "net_exec http tau [] w w' \<Longrightarrow> tau\<^sup>*\<^sup>* w w'"
  by (induction "[] :: http_call list" w w' rule: net_exec.induct) (auto intro: converse_rtranclp_into_rtranclp)

lemma net_exec_total: "\<exists>w'. net_exec http tau cs w w'"
  by (induction cs arbitrary: w) (blast intro: net_exec.intros)+

section \<open>The system comes to rest\<close>

definition sys_left :: "'t system \<Rightarrow> nat \<times> nat" where
  "sys_left s = (length (sys_calls s), backlog (sys_shards s))"

lemma sys_step_dom: "shard_cluster B tinv P sched \<Longrightarrow> sys_step B P sched s t \<Longrightarrow> dom (sys_shards t) = dom (sys_shards s)"
  by (erule sys_step.cases) (simp_all add: cluster_net_dom cluster_step_dom)

lemma sys_step_left:
  assumes "sys_step B P sched s t" and "finite (dom (sys_shards s))"
  shows "(sys_left t, sys_left s) \<in> less_than <*lex*> less_than"
  using assms(1)
proof cases
  case (apply_queued cl)
  with backlog_step [OF apply_queued(2) assms(2)] show ?thesis by (simp add: sys_left_def)
next
  case (arrive xs call ys)
  then show ?thesis by (simp add: sys_left_def)
qed

lemma sys_stuck_iff: "(\<nexists>t. sys_step B P sched s t) \<longleftrightarrow> quiet s"
proof
  assume stuck: "\<nexists>t. sys_step B P sched s t"
  then have "sys_calls s = []" by (metis append_Nil list.exhaust sys_step.arrive)
  moreover have "\<nexists>cl. cluster_step B P (sys_shards s) cl" using stuck sys_step.apply_queued by blast
  ultimately show "quiet s" using stuck_iff_applied [of B P "sys_shards s"] by (simp add: quiet_def)
next
  assume "quiet s"
  then show "\<nexists>t. sys_step B P sched s t"
    using stuck_iff_applied [of B P "sys_shards s"] by (auto simp: quiet_def elim!: sys_step.cases)
qed

lemma sys_wf: "wfp (\<lambda>t s. finite (dom (sys_shards s)) \<and> sys_step B P sched s t)"
proof -
  have "wf (inv_image (less_than <*lex*> less_than) sys_left)" by (intro wf_inv_image wf_lex_prod) simp_all
  moreover have "{(t, s). finite (dom (sys_shards s)) \<and> sys_step B P sched s t} \<subseteq> inv_image (less_than <*lex*> less_than) sys_left"
    using sys_step_left by (auto simp: inv_image_def)
  ultimately show ?thesis unfolding wfp_def by (rule wf_subset)
qed

lemma sys_comes_to_rest:
  assumes "shard_cluster B tinv P sched" and "finite (dom (sys_shards s))"
  shows "\<exists>t. (sys_step B P sched)\<^sup>*\<^sup>* s t \<and> quiet t"
  using assms(2)
proof (induction s rule: wfp_induct_rule [OF sys_wf [of B P sched]])
  case (1 s)
  show ?case
  proof (cases "quiet s")
    case False
    then obtain t where t: "sys_step B P sched s t" using sys_stuck_iff [of B P sched s] by blast
    moreover have "finite (dom (sys_shards t))" using 1(2) sys_step_dom [OF assms(1) t] by simp
    ultimately show ?thesis using 1 by (meson converse_rtranclp_into_rtranclp)
  qed blast
qed

text \<open>Whatever the network keeps, the proxy keeps.\<close>

lemma forward_keeps: "(\<And>call w. I w \<Longrightarrow> I (snd (http call w))) \<Longrightarrow> I w \<Longrightarrow> I (snd (forward http r sid sql w))"
  by (auto simp: forward_def ForwardRequest_def split: option.splits prod.splits) (metis snd_conv)+

lemma broadcast_keeps: "(\<And>call w. I w \<Longrightarrow> I (snd (http call w))) \<Longrightarrow> I w \<Longrightarrow> I (snd (broadcast http r sql sids w))"
  using forward_keeps [of I http] by (induction sids arbitrary: w) (auto simp: case_prod_beta)

lemma proxy_route_net:
  "snd (proxy_route P http arrival sql hint r w) = snd (broadcast http r sql arrival w) \<or>
   (\<exists>sid. snd (proxy_route P http arrival sql hint r w) = snd (forward http r sid sql w))"
proof -
  define pln where "pln = (if hint \<noteq> [] then \<lparr>plan_Type = PlanSingle, plan_RoutingKey = hint\<rparr>
      else case Analyze P sql of Inl _ \<Rightarrow> \<lparr>plan_Type = PlanBroadcast, plan_RoutingKey = []\<rparr> | Inr p \<Rightarrow> p)"
  let ?key = "if plan_RoutingKey pln = [] then lit ''default'' else plan_RoutingKey pln"
  obtain res w' where f: "forward http r (GetShardID r ?key) sql w = (res, w')" by fastforce
  have "snd (proxy_route P http arrival sql hint r w) = (if plan_Type pln = PlanBroadcast then snd (broadcast http r sql arrival w) else w')"
    unfolding proxy_route_def Let_def pln_def [symmetric] f by (simp split: prod.split sum.split)
  then show ?thesis using f by (metis snd_conv)
qed

lemma proxy_route_keeps:
  assumes "\<And>call w. I w \<Longrightarrow> I (snd (http call w))" and "I w"
  shows "I (snd (proxy_route P http arrival sql hint r w))"
proof -
  have "I (snd (broadcast http r sql arrival w))" using assms by (rule broadcast_keeps)
  moreover have "I (snd (forward http r sid sql w))" for sid using assms by (rule forward_keeps)
  ultimately show ?thesis using proxy_route_net [of P http arrival sql hint r w] by metis
qed

lemma proxy_execute_keeps:
  assumes "\<And>call w. I w \<Longrightarrow> I (snd (http call w))" and "I w"
    and "proxy_execute P http ord1 ord2 arrival now q px w = (px', calls, w', reply)"
  shows "I w'"
proof -
  let ?sql = "if q_sql q = [] then q_body q else q_sql q"
  have "w' = w \<or> w' = snd (proxy_route P http arrival ?sql (q_routing_key q) (co_router (px_coord px)) w) \<or>
      (\<exists>c' calls' err. coord_Commit http ord1 ord2 now (q_txn q) (px_coord px) w = (c', calls', w', err))"
    using assms(3) unfolding proxy_execute_def Let_def
    by (simp split: if_split_asm sum.split_asm PlanNode.split_asm list.split_asm prod.split_asm option.split_asm)
  moreover have "I (snd (proxy_route P http arrival sql hint r w))" for sql hint r
    using assms(1,2) by (rule proxy_route_keeps)
  moreover have "I w'" if "coord_Commit http ord1 ord2 now (q_txn q) (px_coord px) w = (c', calls', w', err)" for c' calls' err
    using assms(1,2) that by (rule coord_Commit_keeps)
  ultimately show ?thesis using assms(2) by blast
qed

lemma sys_request_dom:
  assumes "shard_cluster B tinv P sched" and "sys_request B P sched ord1 ord2 arrival now q s = (s1, status, ans)"
  shows "dom (sys_shards s1) = dom (sys_shards s)"
proof -
  obtain px calls cl reply where p: "proxy_execute P (cluster_net B P sched) ord1 ord2 arrival now (execute_query q []) (sys_proxy s)
      (sys_shards s) = (px, calls, cl, reply)"
    by (cases "proxy_execute P (cluster_net B P sched) ord1 ord2 arrival now (execute_query q []) (sys_proxy s) (sys_shards s)") auto
  have "dom cl = dom (sys_shards s)"
    by (rule proxy_execute_keeps [where I = "\<lambda>cl. dom cl = dom (sys_shards s)", OF _ refl p]) (simp add: cluster_net_dom [OF assms(1)])
  moreover have "sys_shards s1 = cl"
    using assms(2) p by (auto simp: sys_request_def proxy_serve_def lit_def)
  ultimately show ?thesis by simp
qed

section \<open>The requests of a transaction\<close>

text \<open>The URLs a client sends: \<open>BEGIN\<close>, the statements with the name it was given, and \<open>COMMIT\<close>.\<close>

definition txn_name :: "u64 \<Rightarrow> bytes" where
  "txn_name t0 = lit ''txn-'' @ Sprint_d (unat t0)"

definition insert_query :: "bytes \<Rightarrow> bytes \<Rightarrow> bytes" where
  "insert_query txnID sql = lit ''txn='' @ txnID @ lit ''&sql='' @ QueryEscape sql"

definition commit_request :: "bytes \<Rightarrow> bytes" where
  "commit_request txnID = lit ''sql=COMMIT&txn='' @ txnID"

lemma unreserved_txn_name: "\<forall>c \<in> set (txn_name t0). unreserved c"
  using unreserved_Sprint_d [of "unat t0"] by (auto simp: txn_name_def) (auto simp: lit_def unreserved_def)

lemma sql_names:
  "\<forall>c \<in> set (lit ''sql''). unreserved c" "lit ''sql'' \<noteq> []" "lit ''sql'' \<noteq> lit ''txn''"
  "lit ''routing_key'' \<noteq> lit ''txn''" "lit ''routing_key'' \<noteq> lit ''sql''"
  by (simp_all add: lit_def unreserved_def)

lemma execute_query_begin:
  "execute_query (lit ''sql=BEGIN'') [] = \<lparr>q_sql = lit ''BEGIN'', q_body = [], q_txn = [], q_routing_key = []\<rparr>"
  by code_simp

lemma execute_query_insert:
  assumes "\<forall>c \<in> set txnID. unreserved c"
  shows "execute_query (insert_query txnID sql) [] = \<lparr>q_sql = sql, q_body = [], q_txn = txnID, q_routing_key = []\<rparr>"
proof -
  have "insert_query txnID sql = Join (map (\<lambda>(n, v). arg n v) [(lit ''txn'', txnID), (lit ''sql'', sql)]) [38]"
    by (simp add: insert_query_def arg_def QueryEscape_unreserved [OF assms]) (simp add: lit_def)
  moreover have "query_Get (Join (map (\<lambda>(n, v). arg n v) [(lit ''txn'', txnID), (lit ''sql'', sql)]) [38]) n =
      (case map_of [(lit ''txn'', txnID), (lit ''sql'', sql)] n of Some v \<Rightarrow> v | None \<Rightarrow> [])" for n
    by (rule query_Get_args) (use arg_names lit_names sql_names in auto)
  ultimately show ?thesis using sql_names by (simp add: execute_query_def)
qed

lemma execute_query_commit:
  assumes "\<forall>c \<in> set txnID. unreserved c"
  shows "execute_query (commit_request txnID) [] = \<lparr>q_sql = lit ''COMMIT'', q_body = [], q_txn = txnID, q_routing_key = []\<rparr>"
proof -
  have c: "QueryEscape (lit ''COMMIT'') = lit ''COMMIT''" by code_simp
  have "commit_request txnID = Join (map (\<lambda>(n, v). arg n v) [(lit ''sql'', lit ''COMMIT''), (lit ''txn'', txnID)]) [38]"
    by (simp add: commit_request_def arg_def QueryEscape_unreserved [OF assms] c) (simp add: lit_def)
  moreover have "query_Get (Join (map (\<lambda>(n, v). arg n v) [(lit ''sql'', lit ''COMMIT''), (lit ''txn'', txnID)]) [38]) n =
      (case map_of [(lit ''sql'', lit ''COMMIT''), (lit ''txn'', txnID)] n of Some v \<Rightarrow> v | None \<Rightarrow> [])" for n
    by (rule query_Get_args) (use arg_names lit_names sql_names in auto)
  ultimately show ?thesis using sql_names by (simp add: execute_query_def)
qed

lemma command_words:
  "ToUpper (TrimSpace (lit ''BEGIN'')) = lit ''BEGIN''" "ToUpper (TrimSpace (lit ''COMMIT'')) = lit ''COMMIT''"
  "lit ''COMMIT'' \<noteq> lit ''BEGIN''" "lit ''BEGIN'' \<noteq> []" "lit ''COMMIT'' \<noteq> []"
  "lit ''/execute'' \<noteq> lit ''/metrics''"
  by code_simp+

text \<open>A statement that is an insert, and the write it is buffered as.\<close>

definition inserts :: "('x, 'pe) sqlparser \<Rightarrow> bytes \<Rightarrow> WriteIntent \<Rightarrow> bool" where
  "inserts P sql x \<longleftrightarrow> plain_statement sql \<and> sql \<noteq> [] \<and>
     (\<exists>tab cols k v vs. ParseToPlan P sql = Inr (InsertNode tab cols (k # v # vs)) \<and> x = \<lparr>wi_Key = userKey tab k, wi_Value = v\<rparr>)"

text \<open>The state of the system while a transaction is being filled.\<close>

definition filling :: "'t btree_ops \<Rightarrow> ('t \<Rightarrow> bool) \<Rightarrow> ('x, 'pe) sqlparser \<Rightarrow> Router \<Rightarrow> net_state \<Rightarrow> bytes \<Rightarrow> u64 \<Rightarrow> WriteIntent list \<Rightarrow>
    't system \<Rightarrow> bool" where
  "filling B tinv P r M txnID t0 ws s \<longleftrightarrow> sys_calls s = [] \<and> cluster_inv B tinv (sys_shards s) \<and>
     cluster_state B P (sys_shards s) = M \<and> co_router (px_coord (sys_proxy s)) = r \<and>
     co_transactions (px_coord (sys_proxy s)) txnID =
       Some \<lparr>tx_ID = txnID, tx_State = StateActive, tx_StartTime = t0, tx_Writes = ws\<rparr>"

lemma steps_without_calls:
  assumes "btree_api B tinv" and "(sys_step B P sched)\<^sup>*\<^sup>* s t" and "sys_calls s = []" and "cluster_inv B tinv (sys_shards s)"
  shows "sys_proxy t = sys_proxy s \<and> sys_calls t = [] \<and> cluster_inv B tinv (sys_shards t) \<and>
    cluster_state B P (sys_shards t) = cluster_state B P (sys_shards s)"
proof -
  obtain cs where cs: "sys_proxy t = sys_proxy s" "mset (sys_calls s) = mset cs + mset (sys_calls t)"
    "net_exec (cluster_net B P sched) (cluster_step B P) cs (sys_shards s) (sys_shards t)"
    using sys_steps_exec [OF assms(2)] by blast
  then have "cs = []" "sys_calls t = []" using assms(3) by auto
  with cs cluster_steps_keep [OF assms(1,4) net_exec_Nil] show ?thesis by blast
qed

lemma ask_begin:
  assumes "sys_request B P sched ord1 ord2 arrival t0 (lit ''sql=BEGIN'') s = (s1, status, ans)"
    and "sys_calls s = []" and "cluster_inv B tinv (sys_shards s)"
  shows "status = 200 \<and> ans = Text (lit ''TxnID:'' @ txn_name t0) \<and>
    filling B tinv P (co_router (px_coord (sys_proxy s))) (cluster_state B P (sys_shards s)) (txn_name t0) t0 [] s1 \<and>
    sys_shards s1 = sys_shards s"
  using assms
  by (auto simp: sys_request_def proxy_serve_def execute_query_begin proxy_execute_def command_words Begin_def Let_def
      filling_def txn_name_def)

lemma ask_insert:
  assumes "sys_request B P sched ord1 ord2 arrival now (insert_query (txn_name t0) sql) s = (s1, status, ans)"
    and "filling B tinv P r M (txn_name t0) t0 ws s" and "inserts P sql x"
  shows "status = 200 \<and> ans = Text (lit ''Buffered Write OK'') \<and> filling B tinv P r M (txn_name t0) t0 (ws @ [x]) s1 \<and>
    sys_shards s1 = sys_shards s"
proof -
  have "txn_name t0 \<noteq> []" by (simp add: txn_name_def lit_def)
  with assms show ?thesis
    by (auto simp: sys_request_def proxy_serve_def execute_query_insert [OF unreserved_txn_name] proxy_execute_def command_words
        plain_statement_def inserts_def filling_def AddWrite_def Let_def)
qed

lemma coord_Abort_router: "co_router (fst (coord_Abort txnID c)) = co_router c"
  by (simp add: coord_Abort_def set_state_def split: option.split)

lemma coord_Commit_router:
  assumes "coord_Commit http ord1 ord2 now txnID c w = (c', calls, w', err)"
  shows "co_router c' = co_router c"
proof -
  have "c' = c \<or> c' = fst (coord_Abort txnID c) \<or> c' = set_state txnID StateCommitted c \<or> co_router c' = co_router c"
    using assms unfolding coord_Commit_def Let_def
    by (auto split: option.split_asm if_split_asm list.split_asm prod.split_asm)
  then show ?thesis by (auto simp: coord_Abort_router set_state_def split: option.split)
qed

lemma ask_commit:
  assumes "sys_request B P sched ord1 ord2 arrival t1 (commit_request (txn_name t0)) s = (s1, status, ans)"
    and "coord_Commit (cluster_net B P sched) ord1 ord2 t1 (txn_name t0) (px_coord (sys_proxy s)) (sys_shards s) = (c', calls, cl1, None)"
  shows "status = 200 \<and> ans = Text (lit ''COMMIT OK'') \<and> sys_shards s1 = cl1 \<and> sys_calls s1 = sys_calls s @ calls \<and>
    px_coord (sys_proxy s1) = c'"
proof -
  have "txn_name t0 \<noteq> []" by (simp add: txn_name_def lit_def)
  with assms show ?thesis
    by (auto simp: sys_request_def proxy_serve_def execute_query_commit [OF unreserved_txn_name] proxy_execute_def command_words Let_def)
qed

section \<open>Transactions through the proxy\<close>

lemma utf8_txn_name: "utf8_valid (txn_name t0)"
  unfolding utf8_valid_def using unreserved_txn_name [of t0] by (intro json_string_ascii) (auto simp: unreserved_def word_less_nat_alt word_le_nat_alt)

text \<open>What makes a write fit for both commit protocols.\<close>

definition placed :: "Router \<Rightarrow> net_state \<Rightarrow> bytes \<Rightarrow> WriteIntent \<Rightarrow> bool" where
  "placed r M txnID x \<longleftrightarrow> good_addr (Locate r (wi_Key x)) \<and> 32 \<notin> set (wi_Key x) \<and> 32 \<notin> set (wi_Value x) \<and>
     utf8_valid (wi_Key x) \<and> utf8_valid (wi_Value x) \<and>
     (\<exists>m. M (Locate r (wi_Key x)) = Some m \<and> available m (wi_Key x) txnID)"

text \<open>\<open>Commit\<close> on one shard or on several, and then the calls it has started, in any order.\<close>

lemma commit_anywhere:
  assumes "shard_cluster B tinv P sched" and "cluster_inv B tinv cl" and "\<forall>c \<in> set txnID. unreserved c" and "utf8_valid txnID"
    and "co_transactions c txnID = Some txn" and "tx_State txn = StateActive" and "tx_Writes txn \<noteq> []"
    and "distinct (map wi_Key (tx_Writes txn))"
    and ok: "\<forall>x \<in> set (tx_Writes txn). placed (co_router c) (cluster_state B P cl) txnID x"
    and "\<forall>g. mset (ord1 g) = mset g" and "\<forall>g. mset (ord2 g) = mset g"
    and "coord_Commit (cluster_net B P sched) ord1 ord2 now txnID c cl = (c', calls, cl1, err)"
  shows "err = None \<and> (\<forall>calls' cl2. mset calls' = mset calls \<longrightarrow>
      net_exec (cluster_net B P sched) (cluster_step B P) calls' cl1 cl2 \<longrightarrow> cluster_inv B tinv cl2 \<and>
      (\<forall>x \<in> set (tx_Writes txn). cell_of (cluster_state B P cl2) (Locate (co_router c) (wi_Key x)) (wi_Key x) =
        map_option (cell_write txnID (wi_Value x) now) (cell_of (cluster_state B P cl) (Locate (co_router c) (wi_Key x)) (wi_Key x))) \<and>
      (\<forall>a k. (\<forall>x \<in> set (tx_Writes txn). (Locate (co_router c) (wi_Key x), wi_Key x) \<noteq> (a, k)) \<longrightarrow>
        cell_of (cluster_state B P cl2) a k = cell_of (cluster_state B P cl) a k))"
proof (cases "\<exists>shard. \<forall>x \<in> set (tx_Writes txn). Locate (co_router c) (wi_Key x) = shard")
  case True
  then obtain shard where shard: "\<forall>x \<in> set (tx_Writes txn). Locate (co_router c) (wi_Key x) = shard" by blast
  obtain x0 where x0: "x0 \<in> set (tx_Writes txn)" using hd_in_set [OF assms(7)] by blast
  obtain m where m: "cluster_state B P cl shard = Some m" "good_addr shard"
    using ok x0 shard by (auto simp: placed_def)
  have u: "\<forall>w \<in> set (tx_Writes txn). utf8_valid (wi_Key w) \<and> utf8_valid (wi_Value w)"
    and av: "\<forall>w \<in> set (tx_Writes txn). available m (wi_Key w) txnID"
    using ok shard m(1) by (auto simp: placed_def)
  from one_phase_effect [OF assms(1,2,5,6,7) shard assms(8) m(2,1) assms(4) u assms(12)] av
  obtain m1 where res: "err = None" "calls = []" "cluster_inv B tinv cl1"
    and m1: "cluster_state B P cl1 = (cluster_state B P cl)(shard \<mapsto> m1)"
      "\<forall>w \<in> set (tx_Writes txn). versions m1 (wi_Key w) = (versions m (wi_Key w))(now \<mapsto> Some (wi_Value w)) \<and> intents m1 (wi_Key w) = None"
      "\<forall>k. (\<forall>w \<in> set (tx_Writes txn). wi_Key w \<noteq> k) \<longrightarrow> versions m1 k = versions m k \<and> intents m1 k = intents m k"
    by auto
  have api: "btree_api B tinv" using assms(1) by (simp add: shard_cluster_def)
  have keep: "cluster_inv B tinv cl2 \<and> cluster_state B P cl2 = (cluster_state B P cl)(shard \<mapsto> m1)"
    if "net_exec (cluster_net B P sched) (cluster_step B P) [] cl1 cl2" for cl2
    using cluster_steps_keep [OF api res(3) net_exec_Nil [OF that]] m1(1) by simp
  have "cell_of ((cluster_state B P cl)(shard \<mapsto> m1)) shard (wi_Key x) =
      map_option (cell_write txnID (wi_Value x) now) (cell_of (cluster_state B P cl) shard (wi_Key x))" if "x \<in> set (tx_Writes txn)" for x
    using m(1) m1(2) av that by (simp add: cell_of_def cell_write_def may_take_def available_def)
  moreover have "cell_of ((cluster_state B P cl)(shard \<mapsto> m1)) a k = cell_of (cluster_state B P cl) a k"
    if "\<forall>x \<in> set (tx_Writes txn). (Locate (co_router c) (wi_Key x), wi_Key x) \<noteq> (a, k)" for a k
    using m(1) m1(3) that shard by (cases "a = shard") (simp_all add: cell_of_def)
  ultimately show ?thesis using res keep shard by simp
next
  case False
  have ready: "\<forall>x \<in> set (tx_Writes txn). good_addr (Locate (co_router c) (wi_Key x)) \<and>
      cluster_state B P cl (Locate (co_router c) (wi_Key x)) \<noteq> None \<and> 32 \<notin> set (wi_Key x) \<and> 32 \<notin> set (wi_Value x)"
    using ok by (auto simp: placed_def)
  note eff = txn_network.commit_effect [OF shard_cluster.is_txn_network [OF assms(1)] assms(2,3,5,6) False assms(8) ready assms(10,11,12)]
  obtain cl2 where "net_exec (cluster_net B P sched) (cluster_step B P) calls cl1 cl2"
    using net_exec_total [of "cluster_net B P sched" "cluster_step B P" calls cl1] by blast
  then have "err = None" using eff [OF refl] by blast
  with eff show ?thesis by blast
qed

text \<open>The request to commit a filled transaction, and the time until the system is quiet.\<close>

lemma commit_to_rest:
  assumes "shard_cluster B tinv P sched" and "filling B tinv P r M (txn_name t0) t0 ws s" and "ws \<noteq> []" and "distinct (map wi_Key ws)"
    and "\<forall>x \<in> set ws. placed r M (txn_name t0) x" and "\<forall>g. mset (ord1 g) = mset g" and "\<forall>g. mset (ord2 g) = mset g"
    and "sys_request B P sched ord1 ord2 arrival t1 (commit_request (txn_name t0)) s = (s1, status, ans)"
    and "(sys_step B P sched)\<^sup>*\<^sup>* s1 t" and "quiet t"
  shows "status = 200 \<and> ans = Text (lit ''COMMIT OK'') \<and> cluster_inv B tinv (sys_shards t) \<and> co_router (px_coord (sys_proxy t)) = r \<and>
    (\<forall>x \<in> set ws. cell_of (cluster_state B P (sys_shards t)) (Locate r (wi_Key x)) (wi_Key x) =
      map_option (cell_write (txn_name t0) (wi_Value x) t1) (cell_of M (Locate r (wi_Key x)) (wi_Key x))) \<and>
    (\<forall>a k. (\<forall>x \<in> set ws. (Locate r (wi_Key x), wi_Key x) \<noteq> (a, k)) \<longrightarrow> cell_of (cluster_state B P (sys_shards t)) a k = cell_of M a k)"
proof -
  note f = assms(2) [unfolded filling_def]
  obtain c' calls cl1 err where c:
    "coord_Commit (cluster_net B P sched) ord1 ord2 t1 (txn_name t0) (px_coord (sys_proxy s)) (sys_shards s) = (c', calls, cl1, err)"
    by (rule commit_result)
  let ?txn = "\<lparr>tx_ID = txn_name t0, tx_State = StateActive, tx_StartTime = t0, tx_Writes = ws\<rparr>"
  have "\<forall>x \<in> set (tx_Writes ?txn). placed (co_router (px_coord (sys_proxy s))) (cluster_state B P (sys_shards s)) (txn_name t0) x"
    using f assms(5) by simp
  note eff = commit_anywhere [OF assms(1) _ unreserved_txn_name utf8_txn_name _ _ _ _ this assms(6,7) c]
  have err: "err = None" using eff f assms(3,4) by simp
  note fin = ask_commit [OF assms(8) c [unfolded err]]
  obtain cs where cs: "sys_proxy t = sys_proxy s1" "mset (sys_calls s1) = mset cs + mset (sys_calls t)"
      "net_exec (cluster_net B P sched) (cluster_step B P) cs (sys_shards s1) (sys_shards t)"
    using sys_steps_exec [OF assms(9)] by blast
  have "mset cs = mset calls" "net_exec (cluster_net B P sched) (cluster_step B P) cs cl1 (sys_shards t)"
    using cs fin f assms(10) by (auto simp: quiet_def)
  with eff f assms(3,4) fin cs(1) coord_Commit_router [OF c] show ?thesis by simp
qed

text \<open>A whole transaction: the requests, and what the client is answered.\<close>

definition txn_requests :: "u64 \<Rightarrow> (u64 \<times> bytes) list \<Rightarrow> u64 \<Rightarrow> (u64 \<times> bytes) list" where
  "txn_requests t0 stmts t1 =
     (t0, lit ''sql=BEGIN'') # map (\<lambda>(t, sql). (t, insert_query (txn_name t0) sql)) stmts @ [(t1, commit_request (txn_name t0))]"

definition txn_answers :: "u64 \<Rightarrow> nat \<Rightarrow> (nat \<times> http_body) list" where
  "txn_answers t0 n =
     (200, Text (lit ''TxnID:'' @ txn_name t0)) # replicate n (200, Text (lit ''Buffered Write OK'')) @ [(200, Text (lit ''COMMIT OK''))]"

lemma filling_steps:
  assumes "btree_api B tinv" and "filling B tinv P r M txnID t0 ws s" and "(sys_step B P sched)\<^sup>*\<^sup>* s t"
  shows "filling B tinv P r M txnID t0 ws t"
  using steps_without_calls [OF assms(1,3)] assms(2) by (auto simp: filling_def)

lemma session_inserts:
  assumes "btree_api B tinv" and "session B P sched ord1 ord2 arrival (xs @ [(t1, q, st, an)]) s t"
    and "map (\<lambda>(now, q, _). (now, q)) xs = map (\<lambda>(t, sql). (t, insert_query (txn_name t0) sql)) stmts"
    and "list_all2 (\<lambda>(_, sql) x. inserts P sql x) stmts ws" and "filling B tinv P r M (txn_name t0) t0 vs s"
  shows "\<exists>s1. map (\<lambda>(_, _, a). a) xs = replicate (length stmts) (200, Text (lit ''Buffered Write OK'')) \<and>
    filling B tinv P r M (txn_name t0) t0 (vs @ ws) s1 \<and> session B P sched ord1 ord2 arrival [(t1, q, st, an)] s1 t"
  using assms(2-5)
proof (induction xs arbitrary: s stmts ws vs)
  case Nil
  then show ?case by auto
next
  case (Cons e xs)
  obtain now sql stmts' where stmts: "stmts = (now, sql) # stmts'" using Cons.prems(2) by (cases stmts) auto
  obtain x ws' where ws: "ws = x # ws'" "inserts P sql x" "list_all2 (\<lambda>(_, sql) x. inserts P sql x) stmts' ws'"
    using Cons.prems(3) stmts by (cases ws) auto
  obtain status ans where e: "e = (now, insert_query (txn_name t0) sql, status, ans)"
    using Cons.prems(2) stmts by (cases e) auto
  obtain s0 s1 where st: "(sys_step B P sched)\<^sup>*\<^sup>* s s0"
      "sys_request B P sched ord1 ord2 arrival now (insert_query (txn_name t0) sql) s0 = (s1, status, ans)"
      "session B P sched ord1 ord2 arrival (xs @ [(t1, q, st, an)]) s1 t"
    using session_Cons Cons.prems(1) unfolding e append_Cons by blast
  have "filling B tinv P r M (txn_name t0) t0 vs s0" by (rule filling_steps [OF assms(1) Cons.prems(4) st(1)])
  note ins = ask_insert [OF st(2) this ws(2)]
  have "map (\<lambda>(now, q, _). (now, q)) xs = map (\<lambda>(t, sql). (t, insert_query (txn_name t0) sql)) stmts'"
    using Cons.prems(2) stmts by simp
  from Cons.IH [OF st(3) this ws(3), of "vs @ [x]"] ins show ?case
    by (auto simp: e stmts ws(1))
qed

text \<open>
  (C3) A transaction through the proxy, from the client to the stores: one client, with no calls
  of earlier requests under way, begins a transaction, sends one or more inserts and commits,
  while the shards apply their queues and calls arrive at any time.  With rows of different keys, UTF-8 text without blanks, whose
  shards are part of the cluster and whose keys no transaction holds, every request is
  answered with 200, the name of the transaction, \<open>Buffered Write OK\<close> for every insert and
  \<open>COMMIT OK\<close>; and once the system is quiet again, every row is stored on the shard of its
  key at the time of the commit, with no intent left, on however many shards they are, and
  every other key of every shard is as it was.
  Each shard address is a server of its own that applies every accepted proposal once and in
  order, and every call is answered.
\<close>

theorem proxy_transaction_commits:
  assumes "shard_cluster B tinv P sched" and "cluster_inv B tinv (sys_shards s)" and "sys_calls s = []"
    and "stmts \<noteq> []" and "list_all2 (\<lambda>(_, sql) x. inserts P sql x) stmts ws" and "distinct (map wi_Key ws)"
    and "r = co_router (px_coord (sys_proxy s))"
    and "\<forall>x \<in> set ws. placed r (cluster_state B P (sys_shards s)) (txn_name t0) x"
    and "\<forall>g. mset (ord1 g) = mset g" and "\<forall>g. mset (ord2 g) = mset g"
    and "session B P sched ord1 ord2 arrival xs s t" and "map (\<lambda>(now, q, _). (now, q)) xs = txn_requests t0 stmts t1"
    and "quiet t"
  shows "map (\<lambda>(_, _, a). a) xs = txn_answers t0 (length stmts) \<and>
    (\<forall>x \<in> set ws. \<exists>srv. sys_shards t (Locate r (wi_Key x)) = Some srv \<and>
      versions (view B (sn_engine (srv_node srv))) (wi_Key x) t1 = Some (Some (wi_Value x)) \<and>
      intents (view B (sn_engine (srv_node srv))) (wi_Key x) = None) \<and>
    (\<forall>a k. (\<forall>x \<in> set ws. (Locate r (wi_Key x), wi_Key x) \<noteq> (a, k)) \<longrightarrow>
      cell_of (cluster_state B P (sys_shards t)) a k = cell_of (cluster_state B P (sys_shards s)) a k)"
proof -
  have api: "btree_api B tinv" using assms(1) by (simp add: shard_cluster_def)
  let ?M = "cluster_state B P (sys_shards s)" and ?ses = "session B P sched ord1 ord2 arrival"
  obtain ys st0 an0 st1 an1 where xs: "xs = (t0, lit ''sql=BEGIN'', st0, an0) # ys @ [(t1, commit_request (txn_name t0), st1, an1)]"
    and ys: "map (\<lambda>(now, q, _). (now, q)) ys = map (\<lambda>(t, sql). (t, insert_query (txn_name t0) sql)) stmts"
    using assms(12) by (auto simp: txn_requests_def map_eq_Cons_conv map_eq_append_conv)
  obtain s0 s1 where 1: "(sys_step B P sched)\<^sup>*\<^sup>* s s0" "sys_request B P sched ord1 ord2 arrival t0 (lit ''sql=BEGIN'') s0 = (s1, st0, an0)"
      "?ses (ys @ [(t1, commit_request (txn_name t0), st1, an1)]) s1 t"
    using session_Cons assms(11) unfolding xs by blast
  note q = steps_without_calls [OF api 1(1) assms(3,2)]
  then have b: "st0 = 200" "an0 = Text (lit ''TxnID:'' @ txn_name t0)" "filling B tinv P r ?M (txn_name t0) t0 [] s1"
    using ask_begin [OF 1(2), of tinv] assms(7) by auto
  obtain s2 where 2: "map (\<lambda>(_, _, a). a) ys = replicate (length stmts) (200, Text (lit ''Buffered Write OK''))"
      "filling B tinv P r ?M (txn_name t0) t0 ws s2" "?ses [(t1, commit_request (txn_name t0), st1, an1)] s2 t"
    using session_inserts [OF api 1(3) ys assms(5) b(3)] by auto
  obtain s3 s4 where 3: "(sys_step B P sched)\<^sup>*\<^sup>* s2 s3"
      "sys_request B P sched ord1 ord2 arrival t1 (commit_request (txn_name t0)) s3 = (s4, st1, an1)" "?ses [] s4 t"
    using session_Cons 2(3) by blast
  have "ws \<noteq> []" using assms(4,5) by auto
  note rest = commit_to_rest [OF assms(1) filling_steps [OF api 2(2) 3(1)] this assms(6,8,9,10) 3(2) session_Nil [OF 3(3)] assms(13)]
  have "\<exists>srv. sys_shards t (Locate r (wi_Key x)) = Some srv \<and>
      versions (view B (sn_engine (srv_node srv))) (wi_Key x) t1 = Some (Some (wi_Value x)) \<and>
      intents (view B (sn_engine (srv_node srv))) (wi_Key x) = None" if x: "x \<in> set ws" for x
  proof -
    obtain m where m: "?M (Locate r (wi_Key x)) = Some m" "available m (wi_Key x) (txn_name t0)"
      using assms(8) x by (auto simp: placed_def)
    show ?thesis
      by (rule written_cell [OF _ m]) (use rest x assms(13) in \<open>simp_all add: quiet_def\<close>)
  qed
  with rest b(1,2) 2(1) show ?thesis by (simp add: xs txn_answers_def)
qed

text \<open>
  The system comes to rest: with finitely many shards, no schedule of arriving calls and
  applied entries goes on for ever; the system is stuck exactly when no call is under way
  and every queue is applied; and from every state, whatever the proxy has started, it
  reaches such a state without the proxy changing.
\<close>

theorem system_settles:
  assumes "shard_cluster B tinv P sched" and "finite (dom (sys_shards s))"
  shows "wfp (\<lambda>t s. finite (dom (sys_shards s)) \<and> sys_step B P sched s t) \<and>
    ((\<nexists>t. sys_step B P sched s t) \<longleftrightarrow> quiet s) \<and>
    (\<exists>t. (sys_step B P sched)\<^sup>*\<^sup>* s t \<and> quiet t \<and> sys_proxy t = sys_proxy s)"
  using sys_wf [of B P sched] sys_stuck_iff [of B P sched s] sys_comes_to_rest [OF assms] sys_steps_exec by blast

section \<open>A sample system\<close>

text \<open>A parser that knows the statements of a table, and two shards that divide the rows of table \<open>t\<close>.\<close>

definition table_parser :: "(bytes \<times> bytes Statement) list \<Rightarrow> (bytes, unit) sqlparser" where
  "table_parser tab = \<lparr>Parse = (\<lambda>sql. case map_of tab sql of Some st \<Rightarrow> Inr st | None \<Rightarrow> Inl ()),
     String_Expr = (\<lambda>e. case e of ColName x \<Rightarrow> x | SQLVal v \<Rightarrow> v | _ \<Rightarrow> []), String_Table = id, String_Col = id, Walk = (\<lambda>e. [e])\<rparr>"

definition insert_into :: "bytes \<Rightarrow> bytes list \<Rightarrow> bytes Statement" where
  "insert_into tab vs = InsertStmt \<lparr>ins_Table = tab, ins_Columns = [], ins_Rows = Values [map ColName vs]\<rparr>"

definition two_inserts :: "(bytes, unit) sqlparser" where
  "two_inserts = table_parser
     [(lit ''INSERT INTO t VALUES (a, 1)'', insert_into (lit ''t'') [lit ''a'', lit ''1'']),
      (lit ''INSERT INTO t VALUES (z, 2)'', insert_into (lit ''t'') [lit ''z'', lit ''2''])]"

definition two_system :: "item list system" where
  "two_system = \<lparr>sys_proxy = \<lparr>px_coord = NewCoordinator (two_router\<lparr>rt_ranges :=
       [\<lparr>r_StartKey = None, r_EndKey = Some (lit ''t:m''), r_ShardID = 1\<rparr>, \<lparr>r_StartKey = Some (lit ''t:m''), r_EndKey = None, r_ShardID = 2\<rparr>]\<rparr>),
       px_metrics = empty_registry\<rparr>,
     sys_shards = two_shards, sys_calls = []\<rparr>"

lemma session_exists:
  assumes "shard_cluster B tinv P sched" and "finite (dom (sys_shards s))"
  shows "\<exists>xs t. session B P sched ord1 ord2 arrival xs s t \<and> map (\<lambda>(now, q, _). (now, q)) xs = reqs \<and> quiet t"
  using assms(2)
proof (induction reqs arbitrary: s)
  case Nil
  have "session B P sched ord1 ord2 arrival [] s t" if "(sys_step B P sched)\<^sup>*\<^sup>* s t" for t
    using that by (induction rule: converse_rtranclp_induct) (auto intro: session.intros)
  then show ?case using sys_comes_to_rest [OF assms(1) Nil] by (intro exI [of _ "[]"]) auto
next
  case (Cons req reqs)
  obtain now q s1 st an where r: "req = (now, q)" "sys_request B P sched ord1 ord2 arrival now q s = (s1, st, an)"
    by (metis surj_pair)
  have "finite (dom (sys_shards s1))" using sys_request_dom [OF assms(1) r(2)] Cons.prems by simp
  from Cons.IH [OF this] obtain xs t where "session B P sched ord1 ord2 arrival xs s1 t"
    "map (\<lambda>(now, q, _). (now, q)) xs = reqs" "quiet t" by blast
  then show ?case
    using session.ask [OF r(2)] r(1) by (intro exI [of _ "(now, q, st, an) # xs"] exI [of _ t]) auto
qed

lemma two_inserts_ok:
  "list_all2 (\<lambda>(_, sql) x. inserts two_inserts sql x)
     [(6 :: u64, lit ''INSERT INTO t VALUES (a, 1)''), (7, lit ''INSERT INTO t VALUES (z, 2)'')]
     [\<lparr>wi_Key = lit ''t:a'', wi_Value = lit ''1''\<rparr>, \<lparr>wi_Key = lit ''t:z'', wi_Value = lit ''2''\<rparr>]"
proof -
  have "plain_statement (lit ''INSERT INTO t VALUES (a, 1)'')" "plain_statement (lit ''INSERT INTO t VALUES (z, 2)'')"
    "lit ''INSERT INTO t VALUES (a, 1)'' \<noteq> []" "lit ''INSERT INTO t VALUES (z, 2)'' \<noteq> []"
    "userKey (lit ''t'') (lit ''a'') = lit ''t:a''" "userKey (lit ''t'') (lit ''z'') = lit ''t:z''"
    "lit ''INSERT INTO t VALUES (z, 2)'' \<noteq> lit ''INSERT INTO t VALUES (a, 1)''"
    by code_simp+
  then show ?thesis
    by (simp add: inserts_def two_inserts_def table_parser_def ParseToPlan_def insert_into_def buildInsertPlan_def)
qed

theorem proxy_transaction_commits_witness:
  "\<exists>xs t srv. session sl_btree two_inserts id id id [1, 2] xs two_system t \<and>
     map (\<lambda>(_, _, a). a) xs = txn_answers 5 2 \<and> sys_shards t (lit ''http://s2'') = Some srv \<and>
     versions (view sl_btree (sn_engine (srv_node srv))) (lit ''t:z'') 9 = Some (Some (lit ''2''))"
proof -
  let ?stmts = "[(6 :: u64, lit ''INSERT INTO t VALUES (a, 1)''), (7, lit ''INSERT INTO t VALUES (z, 2)'')]"
  let ?ws = "[\<lparr>wi_Key = lit ''t:a'', wi_Value = lit ''1''\<rparr>, \<lparr>wi_Key = lit ''t:z'', wi_Value = lit ''2''\<rparr>]"
  let ?r = "co_router (px_coord (sys_proxy two_system))" and ?M = "cluster_state sl_btree two_inserts (sys_shards two_system)"
  have fin: "finite (dom (sys_shards two_system))" by (simp add: two_system_def two_shards_def)
  obtain xs t where xs: "session sl_btree two_inserts id id id [1, 2] xs two_system t"
    "map (\<lambda>(now, q, _). (now, q)) xs = txn_requests 5 ?stmts 9" "quiet t"
    using session_exists [OF lazy.shard_cluster_axioms fin, where reqs = "txn_requests 5 ?stmts 9"] by blast
  have loc: "Locate ?r (lit ''t:a'') = lit ''http://s1''" "Locate ?r (lit ''t:z'') = lit ''http://s2''" "lit ''t:a'' \<noteq> lit ''t:z''"
    "32 \<notin> set (lit ''t:a'')" "32 \<notin> set (lit ''t:z'')"
    by code_simp+
  have u: "utf8_valid (lit ''t:a'')" "utf8_valid (lit ''t:z'')" "utf8_valid (lit ''1'')" "utf8_valid (lit ''2'')"
    unfolding utf8_valid_def by code_simp+
  have st: "?M (lit ''http://s1'') = Some (view sl_btree (NewMemoryStore sl_btree))"
    "?M (lit ''http://s2'') = Some (view sl_btree (NewMemoryStore sl_btree))"
    using two_facts(3) by (simp_all add: two_system_def cluster_state_def two_shards_def new_server_def settled_def shard_run_def)
  have av: "available (view sl_btree (NewMemoryStore sl_btree)) k n" for k n
    by (simp add: available_def NewMemoryStore_def)
  have placed: "\<forall>x \<in> set ?ws. placed ?r ?M (txn_name 5) x"
    using loc u st av two_facts by (simp add: placed_def)
  have inv: "cluster_inv sl_btree sl_inv (sys_shards two_system)" "sys_calls two_system = []"
    using two_shards_inv by (simp_all add: two_system_def)
  from proxy_transaction_commits [OF lazy.shard_cluster_axioms inv _ two_inserts_ok _ refl placed _ _ xs] loc
  have "map (\<lambda>(_, _, a). a) xs = txn_answers 5 2" "\<exists>srv. sys_shards t (lit ''http://s2'') = Some srv \<and>
      versions (view sl_btree (sn_engine (srv_node srv))) (lit ''t:z'') 9 = Some (Some (lit ''2''))"
    by (auto simp: numeral_2_eq_2 simp del: view_sel)
  with xs(1) show ?thesis by blast
qed

theorem system_settles_witness:
  "\<exists>t. (sys_step sl_btree two_inserts id)\<^sup>*\<^sup>*
     (two_system\<lparr>sys_calls := [commit_call (lit ''http://s1'') (lit ''t:a'') (lit ''txn-5'') 9]\<rparr>) t \<and> quiet t"
  using system_settles [OF lazy.shard_cluster_axioms, of "two_system\<lparr>sys_calls := [commit_call (lit ''http://s1'') (lit ''t:a'') (lit ''txn-5'') 9]\<rparr>" two_inserts]
  by (auto simp: two_system_def two_shards_def)

end
