(* ===== verification/Proxy_Scatter.thy ===== *)
theory Proxy_Scatter
  imports Proxy_Server
begin

text \<open>
  Queries through the proxy: a statement without a key is sent to every shard and the rows of
  the answers are put together (the broadcast of \<^verbatim>\<open>cmd/proxy/main.go\<close>), down to the versions in
  the stores of the shards.
\<close>

section \<open>Queries do not change a store\<close>

definition query_plan :: "PlanNode \<Rightarrow> bool" where
  "query_plan plan \<longleftrightarrow> (case plan of InsertNode _ _ _ \<Rightarrow> False | _ \<Rightarrow> True)"

lemma Execute_query: "query_plan plan \<Longrightarrow> fst (Execute E (Some plan) e ts) = e"
  by (cases plan) (simp_all add: query_plan_def Execute_def)

text \<open>While queries run, the stores stay as they are and only queries are queued.\<close>

definition query_msg :: "('x, 'pe) sqlparser \<Rightarrow> bytes \<Rightarrow> bool" where
  "query_msg P m \<longleftrightarrow> HasPrefix m (lit ''SQL:'') \<and>
     (case ParseToPlan P (drop 4 m) of Inl _ \<Rightarrow> True | Inr plan \<Rightarrow> query_plan plan)"

lemma query_msgI: "ParseToPlan P sql = Inr plan \<Longrightarrow> query_plan plan \<Longrightarrow> query_msg P (lit ''SQL:'' @ sql)"
  by (simp add: query_msg_def HasPrefix_def) (simp add: lit_def)

lemma apply_query_msg:
  assumes "query_msg P m"
  shows "sn_engine (fst (shard_Apply B P n m)) = sn_engine n"
proof -
  have "length (lit ''SQL:'') = 4" by (simp add: lit_def)
  then have "m = lit ''SQL:'' @ drop 4 m"
    using assms by (metis append_take_drop_id query_msg_def HasPrefix_def)
  then obtain sql where m: "m = lit ''SQL:'' @ sql" by blast
  have "drop 4 m = sql" by (simp add: m) (simp add: lit_def)
  with assms show ?thesis
    unfolding m apply_sql by (auto simp: query_msg_def Execute_query m split: sum.splits)
qed

definition only_queries :: "('x, 'pe) sqlparser \<Rightarrow> 't cluster \<Rightarrow> bool" where
  "only_queries P cl \<longleftrightarrow> (\<forall>srv \<in> ran cl. list_all (query_msg P) (srv_queue srv))"

definition stores :: "'t cluster \<Rightarrow> bytes \<rightharpoonup> 't MemoryStore" where
  "stores cl = (\<lambda>a. map_option (\<lambda>srv. sn_engine (srv_node srv)) (cl a))"

definition serving :: "('x, 'pe) sqlparser \<Rightarrow> (bytes \<rightharpoonup> 't MemoryStore) \<Rightarrow> 't cluster \<Rightarrow> bool" where
  "serving P E cl \<longleftrightarrow> stores cl = E \<and> only_queries P cl"

lemma serving_at:
  assumes "serving P E cl"
  shows "cl a = Some srv \<Longrightarrow> E a = Some (sn_engine (srv_node srv)) \<and> list_all (query_msg P) (srv_queue srv)"
    and "E a = Some e \<Longrightarrow> \<exists>srv. cl a = Some srv \<and> sn_engine (srv_node srv) = e \<and> list_all (query_msg P) (srv_queue srv)"
  using assms by (auto simp: serving_def stores_def only_queries_def ran_def)

lemma serving_upd:
  assumes "serving P E cl" and "E a = Some (sn_engine (srv_node srv))" and "list_all (query_msg P) (srv_queue srv)"
  shows "serving P E (cl(a \<mapsto> srv))"
  using assms by (auto simp: serving_def stores_def only_queries_def ran_def)

lemma serving_step:
  assumes "serving P E cl" and "cluster_step B P cl cl'"
  shows "serving P E cl'"
  using assms(2)
proof cases
  case (1 a srv)
  obtain m ms where m: "srv_queue srv = m # ms" using 1(3) by (cases "srv_queue srv") auto
  with serving_at(1) [OF assms(1) 1(2)] show ?thesis
    unfolding 1(1) by (intro serving_upd [OF assms(1)]) (simp_all add: apply_query_msg)
qed

lemma serving_steps:
  assumes "serving P E cl" and "(cluster_step B P)\<^sup>*\<^sup>* cl cl'"
  shows "serving P E cl'"
  using assms(2,1) by (induction rule: rtranclp_induct) (auto intro: serving_step)

section \<open>One shard\<close>

lemma TrimSpace_keeps_first: "\<not> is_space c \<Longrightarrow> \<exists>t. TrimSpace (c # s) = c # t"
  by (simp add: TrimSpace_def dropWhile_append) (metis rev_rev_ident)

lemma shard_rows_encode: "shard_rows (Inr (encode_rows rows)) = map (map json_string) (case rows of None \<Rightarrow> [] | Some rs \<Rightarrow> rs)"
proof -
  have "\<exists>c s. encode_rows rows = c # s \<and> c \<in> {110, 91}"
    by (cases rows) (simp_all add: encode_rows_def rows_json_def lit_def)
  then obtain c s where c: "encode_rows rows = c # s" "c \<in> {110, 91}" by blast
  then have "\<not> is_space c" by (auto simp: is_space_def)
  with c have "TrimSpace (encode_rows rows) \<noteq> lit ''OK''"
    using TrimSpace_keeps_first [of c s] by (auto simp: lit_def)
  then show ?thesis by (simp add: shard_rows_def unmarshal_encode_rows)
qed

definition query_rows :: "'t btree_ops \<Rightarrow> PlanNode \<Rightarrow> 't MemoryStore \<Rightarrow> Row list option" where
  "query_rows B plan e = (case snd (Execute (memory_engine B) (Some plan) e MaxUint64) of Inl _ \<Rightarrow> None | Inr rows \<Rightarrow> rows)"

lemma forward_query:
  assumes "shard_cluster B tinv P sched" and "ParseToPlan P sql = Inr plan" and "query_plan plan"
    and "HasPrefix (ToUpper sql) (lit ''SELECT'')" and "serving P E cl"
    and "rt_ShardAddrs r sid = Some a" and "good_addr a" and "E a = Some e"
  shows "\<exists>cl'. forward (cluster_net B P sched) r sid sql cl = (Inr (encode_rows (query_rows B plan e)), cl') \<and> serving P E cl'"
proof -
  obtain srv where srv: "cl a = Some srv" "sn_engine (srv_node srv) = e" and q: "list_all (query_msg P) (srv_queue srv)"
    using serving_at(2) [OF assms(5,8)] by blast
  have "query_Get [] (lit ''sql'') = []" by code_simp
  then obtain n where n: "shard_handle B P (srv_node srv) (ReqExecute (query_Get [] (lit ''sql'')) sql) =
      (n, lit ''SQL:'' @ sql, 200, RowsJSON (query_rows B plan e))" "sn_engine n = e"
    using assms(2,4) srv(2) Execute_query [OF assms(3), of "memory_engine B" e MaxUint64]
    by (simp add: shard_handle_def Let_def query_rows_def case_prod_beta)
  let ?cl = "cl(a \<mapsto> \<lparr>srv_node = n, srv_queue = srv_queue srv @ [lit ''SQL:'' @ sql]\<rparr>)"
  have "cluster_http B P (HttpPost (a @ lit ''/execute'') sql) cl =
      (Some \<lparr>resp_StatusCode = 200, resp_Body = Some (encode_rows (query_rows B plan e))\<rparr>, ?cl)"
    using decode_txn_calls(5) [OF assms(7), of sql] srv(1) n(1) by (simp add: cluster_http_def serve_def)
  then have "forward (cluster_net B P sched) r sid sql cl = (Inr (encode_rows (query_rows B plan e)), sched ?cl)"
    using assms(6) by (simp add: forward_def ForwardRequest_def cluster_net_def)
  moreover have "serving P E ?cl" using assms(8) n(2) q query_msgI [OF assms(2,3)] by (intro serving_upd [OF assms(5)]) simp_all
  then have "serving P E (sched ?cl)"
    by (rule serving_steps) (rule shard_cluster.sched_delivers [OF assms(1)])
  ultimately show ?thesis by blast
qed

section \<open>All shards\<close>

lemma broadcast_query:
  assumes "shard_cluster B tinv P sched" and "ParseToPlan P sql = Inr plan" and "query_plan plan"
    and "HasPrefix (ToUpper sql) (lit ''SELECT'')" and "serving P E cl"
    and "\<forall>sid \<in> set sids. \<exists>a. rt_ShardAddrs r sid = Some a \<and> good_addr a \<and> E a = Some (st sid)"
  shows "\<exists>cl'. broadcast (cluster_net B P sched) r sql sids cl =
      (concat (map (\<lambda>sid. map (map json_string) (case query_rows B plan (st sid) of None \<Rightarrow> [] | Some rs \<Rightarrow> rs)) sids), cl') \<and>
    serving P E cl'"
  using assms(5,6)
proof (induction sids arbitrary: cl)
  case (Cons sid sids)
  then obtain a where a: "rt_ShardAddrs r sid = Some a" "good_addr a" "E a = Some (st sid)" by auto
  from forward_query [OF assms(1-4) Cons.prems(1) a] obtain cl1 where
    1: "forward (cluster_net B P sched) r sid sql cl = (Inr (encode_rows (query_rows B plan (st sid))), cl1)" "serving P E cl1"
    by blast
  from Cons.IH [OF 1(2)] Cons.prems(2) 1 show ?case by (auto simp: shard_rows_encode)
qed simp

section \<open>The request\<close>

definition sql_query :: "bytes \<Rightarrow> bytes" where
  "sql_query sql = lit ''sql='' @ QueryEscape sql"

lemma execute_query_sql:
  "execute_query (sql_query sql) [] = \<lparr>q_sql = sql, q_body = [], q_txn = [], q_routing_key = []\<rparr>"
proof -
  have "sql_query sql = Join (map (\<lambda>(n, v). arg n v) [(lit ''sql'', sql)]) [38]"
    by (simp add: sql_query_def arg_def) (simp add: lit_def)
  moreover have "query_Get (Join (map (\<lambda>(n, v). arg n v) [(lit ''sql'', sql)]) [38]) n =
      (case map_of [(lit ''sql'', sql)] n of Some v \<Rightarrow> v | None \<Rightarrow> [])" for n
    by (rule query_Get_args) (use sql_names in auto)
  ultimately show ?thesis using sql_names by (simp add: execute_query_def)
qed

text \<open>A query that is no transaction command is parsed and routed.\<close>

lemma proxy_query:
  assumes "plain_statement sql" and "sql \<noteq> []" and "ParseToPlan P sql = Inr plan" and "query_plan plan"
    and "q = \<lparr>q_sql = sql, q_body = [], q_txn = txn, q_routing_key = hint\<rparr>"
  shows "proxy_execute P http ord1 ord2 arrival now q px w =
    (case proxy_route P http arrival sql hint (co_router (px_coord px)) w of
       (reply, w') \<Rightarrow> (px\<lparr>px_metrics := metrics_Inc (lit ''requests_total'') (px_metrics px)\<rparr>, [], w', reply))"
  using assms by (cases plan) (simp_all add: proxy_execute_def plain_statement_def query_plan_def Let_def)

lemma applied_only_queries: "all_applied cl \<Longrightarrow> only_queries P cl"
  by (simp add: all_applied_def only_queries_def)

text \<open>What a query on a table returns from one store.\<close>

lemma query_rows_exact:
  assumes "btree_api B tinv" and "store_inv B tinv s" and "scannable (view B s) (tab @ lit '':'')" and "58 \<notin> set tab"
  shows "\<exists>kvs. (case query_rows B (ProjectNode (ScanNode tab) cols) s of None \<Rightarrow> [] | Some rs \<Rightarrow> rs) = map (\<lambda>(k, v). [k, slice_bytes v]) kvs \<and>
    distinct (map fst kvs) \<and> set kvs = {(k, v). k < [0xFF] \<and> newest (versions (view B s) (userKey tab k)) MaxUint64 = Some v}"
proof -
  obtain r kvs where r: "snd (Execute (memory_engine B) (Some (ProjectNode (ScanNode tab) cols)) s MaxUint64) = Inr r"
      "case r of None \<Rightarrow> kvs = [] | Some rs \<Rightarrow> rs = map (\<lambda>(k, v). [k, slice_bytes v]) kvs" "distinct (map fst kvs)"
      "set kvs = {(k, v). k < [0xFF] \<and> newest (versions (view B s) (userKey tab k)) MaxUint64 = Some v}"
    using scan_rows_exact [OF assms] by blast
  then have "(case query_rows B (ProjectNode (ScanNode tab) cols) s of None \<Rightarrow> [] | Some rs \<Rightarrow> rs) = map (\<lambda>(k, v). [k, slice_bytes v]) kvs"
    by (cases r) (simp_all add: query_rows_def)
  with r(3,4) show ?thesis by blast
qed

text \<open>No row at all is the nil slice, never an empty one.\<close>

lemma scan_visit_rows: "fst st \<noteq> Some [] \<Longrightarrow> fst (iterate (scan_row_visit pre ts) kvs st) \<noteq> Some []"
  by (induction kvs arbitrary: st) (auto simp: scan_row_visit_def Let_def split: prod.splits)

lemma query_rows_not_empty: "query_rows B (ProjectNode (ScanNode tab) cols) e \<noteq> Some []"
proof -
  have "fst (iterate (scan_row_visit (tab @ lit '':'') MaxUint64) kvs (None, {})) \<noteq> Some []" for kvs
    by (rule scan_visit_rows) simp
  then show ?thesis
    by (auto simp: query_rows_def Execute_def executeScan_def Let_def split: prod.splits sum.splits option.splits) (metis fst_conv)+
qed

text \<open>The newest rows of a table in one store, as they come out of JSON.\<close>

definition shown :: "bytes \<times> slice \<Rightarrow> Row" where
  "shown kv = [json_string (fst kv), json_string (slice_bytes (snd kv))]"

lemma scatter_rows:
  assumes "shard_cluster B tinv P sched" and "cluster_inv B tinv (sys_shards s)" and "only_queries P (sys_shards s)"
    and "plain_statement sql" and "HasPrefix (ToUpper sql) (lit ''SELECT'')"
    and "ParseToPlan P sql = Inr (ProjectNode (ScanNode tab) cols)" and "58 \<notin> set tab"
    and "Analyze P sql = Inr \<lparr>plan_Type = PlanBroadcast, plan_RoutingKey = key\<rparr>"
    and "mset arrival = mset [1, 2, 3]"
    and up: "\<forall>sid \<in> {1, 2, 3}. \<exists>a. rt_ShardAddrs (co_router (px_coord (sys_proxy s))) sid = Some a \<and> good_addr a \<and>
      sys_shards s a = Some (srv sid) \<and> scannable (view B (sn_engine (srv_node (srv sid)))) (tab @ lit '':'')"
    and "sys_request B P sched ord1 ord2 arrival now (sql_query sql) s = (s1, status, ans)"
  shows "\<exists>rows. status = 200 \<and>
    ans = Text (encode_rows (if concat (map rows arrival) = [] then None else Some (map shown (concat (map rows arrival))))) \<and>
    (\<forall>sid \<in> {1, 2, 3}. distinct (map fst (rows sid)) \<and>
      set (rows sid) = {(k, v). k < [0xFF] \<and>
        newest (versions (view B (sn_engine (srv_node (srv sid)))) (userKey tab k)) MaxUint64 = Some v}) \<and>
    stores (sys_shards s1) = stores (sys_shards s) \<and> px_coord (sys_proxy s1) = px_coord (sys_proxy s) \<and> sys_calls s1 = sys_calls s"
proof -
  let ?plan = "ProjectNode (ScanNode tab) cols" and ?r = "co_router (px_coord (sys_proxy s))"
  let ?E = "stores (sys_shards s)" and ?st = "\<lambda>sid. sn_engine (srv_node (srv sid))"
  have api: "btree_api B tinv" using assms(1) by (simp add: shard_cluster_def)
  have plan: "query_plan ?plan" by (simp add: query_plan_def)
  have ne: "sql \<noteq> []" using assms(5) by (auto simp: HasPrefix_def ToUpper_def lit_def)
  have arr: "set arrival = {1, 2, 3}" using mset_eq_setD [OF assms(9)] by simp
  let ?got = "\<lambda>sid. case query_rows B ?plan (?st sid) of None \<Rightarrow> [] | Some rs \<Rightarrow> rs"
  let ?shows = "\<lambda>sid kvs. ?got sid = map (\<lambda>(k, v). [k, slice_bytes v]) kvs \<and> distinct (map fst kvs) \<and>
      set kvs = {(k, v). k < [0xFF] \<and> newest (versions (view B (?st sid)) (userKey tab k)) MaxUint64 = Some v}"
  have "\<exists>kvs. ?shows sid kvs" if "sid \<in> {1, 2, 3}" for sid
  proof -
    obtain a where a: "sys_shards s a = Some (srv sid)" "scannable (view B (?st sid)) (tab @ lit '':'')" using up \<open>sid \<in> {1, 2, 3}\<close> by blast
    then have "store_inv B tinv (?st sid)" using assms(2) by (auto simp: cluster_inv_def ran_def)
    then show ?thesis by (rule query_rows_exact [OF api _ a(2) assms(7)])
  qed
  then have "\<forall>sid \<in> {1, 2, 3}. \<exists>kvs. ?shows sid kvs" by (rule ballI)
  from bchoice [OF this] obtain rows where rows: "\<forall>sid \<in> {1, 2, 3}. ?shows sid (rows sid)" ..
  have "serving P ?E (sys_shards s)" using assms(3) by (simp add: serving_def)
  moreover have "\<forall>sid \<in> set arrival. \<exists>a. rt_ShardAddrs ?r sid = Some a \<and> good_addr a \<and> ?E a = Some (?st sid)"
    unfolding arr using up by (fastforce simp: stores_def)
  ultimately obtain cl' where
    cl': "broadcast (cluster_net B P sched) ?r sql arrival (sys_shards s) =
      (concat (map (\<lambda>sid. map (map json_string) (?got sid)) arrival), cl')"
      "serving P ?E cl'" using broadcast_query [OF assms(1,6) plan assms(5), where st = ?st] by blast
  have eq: "map (\<lambda>sid. map (map json_string) (?got sid)) arrival = map (\<lambda>sid. map shown (rows sid)) arrival"
  proof (rule map_cong [OF refl])
    fix sid
    assume "sid \<in> set arrival"
    with rows arr have "?got sid = map (\<lambda>(k, v). [k, slice_bytes v]) (rows sid)" by blast
    then show "map (map json_string) (?got sid) = map shown (rows sid)" by (simp add: shown_def case_prod_beta)
  qed
  have "broadcast (cluster_net B P sched) ?r sql arrival (sys_shards s) = (map shown (concat (map rows arrival)), cl')"
    using cl'(1) unfolding eq by (simp add: map_concat comp_def)
  then have "proxy_route P (cluster_net B P sched) arrival sql [] ?r (sys_shards s) =
      (AllRows (if concat (map rows arrival) = [] then None else Some (map shown (concat (map rows arrival)))), cl')"
    using assms(8) by (simp add: proxy_route_def)
  then have "status = 200" "sys_shards s1 = cl'" "px_coord (sys_proxy s1) = px_coord (sys_proxy s)" "sys_calls s1 = sys_calls s"
      "ans = Text (encode_rows (if concat (map rows arrival) = [] then None else Some (map shown (concat (map rows arrival)))))"
    using assms(3,11) proxy_query [OF assms(4) ne assms(6) plan execute_query_sql, of "cluster_net B P sched" ord1 ord2 arrival now "sys_proxy s" "sys_shards s"]
    by (auto simp: sys_request_def proxy_serve_def command_words)
  with rows cl'(2) show ?thesis unfolding serving_def by (intro exI [of _ rows]) blast
qed

section \<open>Properties\<close>

text \<open>
  (C10) Scatter and gather: take a \<open>SELECT\<close> without \<open>WHERE\<close> over a table whose name has no \<open>':'\<close>,
  sent to a proxy whose three shards are up, have nothing but queries in their queues, and
  store no key that extends another one or is a proper prefix of the table's prefix.  It is
  answered with status 200 and the rows of the three shards one after the other, in the order
  their answers arrive; each shard contributes exactly one row for every primary key of the
  table below \<open>0xFF\<close> that has a version there, with its newest version, as JSON text.
  The stores and the open transactions stay as they are.
  Each shard address is a server of its own that applies every accepted proposal once and in
  order, and every call is answered.
\<close>

theorem scatter_gather:
  assumes "shard_cluster B tinv P sched" and "cluster_inv B tinv (sys_shards s)" and "only_queries P (sys_shards s)"
    and "plain_statement sql" and "HasPrefix (ToUpper sql) (lit ''SELECT'')"
    and "ParseToPlan P sql = Inr (ProjectNode (ScanNode tab) cols)" and "58 \<notin> set tab"
    and "Analyze P sql = Inr \<lparr>plan_Type = PlanBroadcast, plan_RoutingKey = key\<rparr>"
    and "mset arrival = mset [1, 2, 3]"
    and up: "\<forall>sid \<in> {1, 2, 3}. \<exists>a. rt_ShardAddrs (co_router (px_coord (sys_proxy s))) sid = Some a \<and> good_addr a \<and>
      sys_shards s a = Some (srv sid) \<and> scannable (view B (sn_engine (srv_node (srv sid)))) (tab @ lit '':'')"
    and "sys_request B P sched ord1 ord2 arrival now (sql_query sql) s = (s1, status, ans)"
  shows "\<exists>rows. status = 200 \<and>
    ans = Text (encode_rows (if concat (map rows arrival) = [] then None else Some (map shown (concat (map rows arrival))))) \<and>
    (\<forall>sid \<in> {1, 2, 3}. distinct (map fst (rows sid)) \<and>
      set (rows sid) = {(k, v). k < [0xFF] \<and>
        newest (versions (view B (sn_engine (srv_node (srv sid)))) (userKey tab k)) MaxUint64 = Some v}) \<and>
    stores (sys_shards s1) = stores (sys_shards s) \<and> px_coord (sys_proxy s1) = px_coord (sys_proxy s) \<and> sys_calls s1 = sys_calls s"
  by (rule scatter_rows [OF assms])

section \<open>Small stores\<close>

definition row_store :: "'t btree_ops \<Rightarrow> bytes \<Rightarrow> bytes list \<Rightarrow> 't MemoryStore" where
  "row_store B tab vals = fst (executeInsert (memory_engine B) tab vals (NewMemoryStore B) 100)"

lemma new_store:
  assumes "btree_api B tinv"
  shows "store_inv B tinv (NewMemoryStore B)" and "scannable (view B (NewMemoryStore B)) start"
    and "versions (view B (NewMemoryStore B)) k t = None" and "intents (view B (NewMemoryStore B)) k = None"
  using btree_api.store_inv_New [OF assms] btree_api.view_New [OF assms]
  by (simp_all add: scannable_def prefix_free_def stored_keys_def del: view_sel)

lemma row_store_facts:
  fixes tab pk :: bytes and vs :: "bytes list"
  assumes "btree_api B tinv"
  defines "s \<equiv> row_store B tab (pk # vs)"
  shows "store_inv B tinv s" and "scannable (view B s) (tab @ lit '':'')" and "intents (view B s) k = None"
    and "versions (view B s) k = (if k = userKey tab pk then [100 \<mapsto> Some (Join (pk # vs) (lit '',''))] else Map.empty)"
proof -
  note eng = btree_api.memory_engine_laws [OF assms(1)] and new = new_store [OF assms(1)]
  obtain r where r: "executeInsert (memory_engine B) tab (pk # vs) (NewMemoryStore B) 100 = (s, r)"
    unfolding s_def row_store_def by (metis prod.collapse)
  have "available (view B (NewMemoryStore B)) (userKey tab pk) (auto_txn 100)" by (simp add: available_def new(4) del: view_sel)
  note ok = mvcc_engine.executeInsert_ok [OF eng new(1) this r]
  then show "store_inv B tinv s" by blast
  show vs: "versions (view B s) k = (if k = userKey tab pk then [100 \<mapsto> Some (Join (pk # vs) (lit '',''))] else Map.empty)" for k
    using ok new(3) by (auto simp: spec_release_def spec_add_version_def fun_eq_iff simp del: view_sel)
  show "intents (view B s) k = None"
    using ok new(4) by (auto simp: spec_release_def spec_add_version_def simp del: view_sel)
  have "stored_keys (view B s) = {userKey tab pk}" by (auto simp: stored_keys_def vs simp del: view_sel Join.simps)
  then show "scannable (view B s) (tab @ lit '':'')"
    by (auto simp: scannable_def prefix_free_def userKey_def strict_prefix_def)
qed

text \<open>The versions a table shows, for both kinds of stores.\<close>

lemma new_store_rows: "btree_api B tinv \<Longrightarrow>
  {(k, v). k < [0xFF] \<and> newest (versions (view B (NewMemoryStore B)) (userKey tab k)) r = Some v} = {}"
  by (simp add: newest_eq_Some_iff new_store(3) del: view_sel)

lemma row_store_rows:
  assumes "btree_api B tinv" and "pk < [0xFF]"
  shows "{(k, v). k < [0xFF] \<and> newest (versions (view B (row_store B tab (pk # vs))) (userKey tab k)) MaxUint64 = Some v} =
    {(pk, Some (Join (pk # vs) (lit '','')))}"
  using assms(2) by (auto simp: row_store_facts(4) [OF assms(1)] newest_eq_Some_iff simp del: view_sel Join.simps split: if_splits)

section \<open>A sample system\<close>

text \<open>The cluster of the default router: three shards, of which the second holds a row.\<close>

definition star_select :: "bytes Statement" where
  "star_select = SelectStmt \<lparr>sel_From = [AliasedTableExpr (lit ''t'')], sel_Where = None, sel_SelectExprs = [StarExpr]\<rparr>"

definition idle_server :: "'t MemoryStore \<Rightarrow> 't server" where
  "idle_server e = \<lparr>srv_node = \<lparr>sn_engine = e, sn_metrics = empty_registry\<rparr>, srv_queue = []\<rparr>"

definition three_system :: "'t btree_ops \<Rightarrow> 't MemoryStore \<Rightarrow> 't system" where
  "three_system B e2 = \<lparr>sys_proxy = proxy_main (lit ''http://localhost:9000''),
     sys_shards = [lit ''http://localhost:9001'' \<mapsto> idle_server (NewMemoryStore B), lit ''http://localhost:9002'' \<mapsto> idle_server e2,
       lit ''http://localhost:9003'' \<mapsto> idle_server (NewMemoryStore B)], sys_calls = []\<rparr>"

lemma singleton_rows: "distinct (map fst xs) \<Longrightarrow> set xs = {x} \<Longrightarrow> xs = [x]"
  by (cases xs; cases "tl xs") (auto simp: distinct_map)

lemma three_addrs:
  "lit ''http://localhost:9001'' \<noteq> lit ''http://localhost:9002''" "lit ''http://localhost:9001'' \<noteq> lit ''http://localhost:9003''"
  "lit ''http://localhost:9002'' \<noteq> lit ''http://localhost:9003''"
  "good_addr (lit ''http://localhost:9001'')" "good_addr (lit ''http://localhost:9002'')" "good_addr (lit ''http://localhost:9003'')"
  by (simp_all add: lit_def good_addr_def)

lemma star_select_facts:
  defines "P \<equiv> table_parser [(lit ''SELECT * FROM t'', star_select)]"
  shows "plain_statement (lit ''SELECT * FROM t'')" and "HasPrefix (ToUpper (lit ''SELECT * FROM t'')) (lit ''SELECT'')"
    and "ParseToPlan P (lit ''SELECT * FROM t'') = Inr (ProjectNode (ScanNode (lit ''t'')) [lit ''*''])" and "58 \<notin> set (lit ''t'')"
    and "Analyze P (lit ''SELECT * FROM t'') = Inr \<lparr>plan_Type = PlanBroadcast, plan_RoutingKey = []\<rparr>"
proof -
  show "plain_statement (lit ''SELECT * FROM t'')" "HasPrefix (ToUpper (lit ''SELECT * FROM t'')) (lit ''SELECT'')" "58 \<notin> set (lit ''t'')"
    by code_simp+
qed (simp_all add: P_def table_parser_def star_select_def ParseToPlan_def buildSelectPlan_def Analyze_def analyzeSelect_def)

theorem scatter_gather_witness:
  "\<exists>s1. sys_request sl_btree (table_parser [(lit ''SELECT * FROM t'', star_select)]) id id id [3, 2, 1] 7 (sql_query (lit ''SELECT * FROM t''))
     (three_system sl_btree (row_store sl_btree (lit ''t'') [lit ''k'', lit ''v''])) =
     (s1, 200, Text (encode_rows (Some [[json_string (lit ''k''), json_string (lit ''k,v'')]])))"
proof -
  let ?e = "row_store sl_btree (lit ''t'') [lit ''k'', lit ''v'']" and ?P = "table_parser [(lit ''SELECT * FROM t'', star_select)]"
  let ?s = "three_system sl_btree ?e" and ?srv = "\<lambda>sid :: u64. if sid = 2 then idle_server ?e else idle_server (NewMemoryStore sl_btree)"
  note api = sl.btree_api_axioms and addrs = three_addrs
  have inv: "cluster_inv sl_btree sl_inv (sys_shards ?s)" "only_queries ?P (sys_shards ?s)"
    using new_store(1) [OF api] row_store_facts(1) [OF api] addrs
    by (auto simp: cluster_inv_def only_queries_def three_system_def idle_server_def ran_def split: if_splits)
  have up: "\<forall>sid \<in> {1, 2, 3}. \<exists>a. rt_ShardAddrs (co_router (px_coord (sys_proxy ?s))) sid = Some a \<and> good_addr a \<and>
      sys_shards ?s a = Some (?srv sid) \<and> scannable (view sl_btree (sn_engine (srv_node (?srv sid)))) (lit ''t'' @ lit '':'')"
    using new_store(2) [OF api] row_store_facts(2) [OF api] addrs
    by (auto simp: three_system_def proxy_main_def NewCoordinator_def NewRouter_def idle_server_def)
  obtain s1 status ans where r: "sys_request sl_btree ?P id id id [3, 2, 1] 7 (sql_query (lit ''SELECT * FROM t'')) ?s = (s1, status, ans)"
    by (cases "sys_request sl_btree ?P id id id [3, 2, 1] 7 (sql_query (lit ''SELECT * FROM t'')) ?s") auto
  have "mset [3, 2, 1 :: u64] = mset [1, 2, 3]" by simp
  from scatter_gather [OF lazy.shard_cluster_axioms inv star_select_facts this up r]
  obtain rows where rows: "status = 200"
    "ans = Text (encode_rows (if concat (map rows [3, 2, 1]) = [] then None else Some (map shown (concat (map rows [3, 2, 1])))))"
    "\<forall>sid \<in> {1, 2, 3}. distinct (map fst (rows sid)) \<and> set (rows sid) = {(k, v). k < [0xFF] \<and>
        newest (versions (view sl_btree (sn_engine (srv_node (?srv sid)))) (userKey (lit ''t'') k)) MaxUint64 = Some v}"
    by blast
  have j: "Join [lit ''k'', lit ''v''] (lit '','') = lit ''k,v''" "lit ''k'' < [0xFF]" by code_simp+
  have "rows 1 = []" "rows 3 = []" using rows(3) new_store_rows [OF api] by (simp_all add: idle_server_def del: view_sel)
  moreover have "rows 2 = [(lit ''k'', Some (lit ''k,v''))]"
    using rows(3) row_store_rows [OF api j(2)] j(1) by (intro singleton_rows) (simp_all add: idle_server_def del: view_sel Join.simps)
  ultimately show ?thesis using r rows(1,2) by (simp add: shown_def slice_bytes_def)
qed

end
