(* ===== verification/Tools_Proxy.thy ===== *)
theory Tools_Proxy
  imports Tools_Http Proxy_Scatter
begin

text \<open>
  The verification programs that drive the whole system through the proxy:
  \<^verbatim>\<open>verify_scatter\<close> stores one row through the proxy and one on the second shard directly and
  wants both from one query; \<^verbatim>\<open>verify_proxy_2pc\<close> runs a transaction with two rows.  They are
  run against the proxy and three shard servers with their route tables; a sleep is any time
  in which the calls under way arrive and the servers apply everything.
\<close>

section \<open>The network\<close>

definition proxy_addr :: bytes where
  "proxy_addr = lit ''http://localhost:8080''"

text \<open>\<open>clock\<close> is the time at which the proxy handles a request.\<close>

definition system_net ::
  "'t btree_ops \<Rightarrow> ('x, 'pe) sqlparser \<Rightarrow> ('t cluster \<Rightarrow> 't cluster) \<Rightarrow> (groups \<Rightarrow> groups) \<Rightarrow> (groups \<Rightarrow> groups) \<Rightarrow> u64 list \<Rightarrow>
   ('t system \<Rightarrow> u64) \<Rightarrow> ('t cluster) net \<Rightarrow> texts \<Rightarrow> 't system net" where
  "system_net B P sched ord1 ord2 arrival clock shard_net T req_method url body s =
     (case split_url url of (addr, path, q) \<Rightarrow>
        if addr = proxy_addr
        then (case proxy_serve P (cluster_net B P sched) ord1 ord2 arrival (clock s) path q body (sys_proxy s) (sys_shards s) of
                (px, calls, cl, status, ans) \<Rightarrow>
                  (Inr (status, body_text T status ans), \<lparr>sys_proxy = px, sys_shards = cl, sys_calls = sys_calls s @ calls\<rparr>))
        else (case shard_net req_method url body (sys_shards s) of (res, cl) \<Rightarrow> (res, s\<lparr>sys_shards := cl\<rparr>)))"

definition proxy_url :: "bytes \<Rightarrow> bytes" where
  "proxy_url q = lit ''http://localhost:8080/execute'' @ 63 # q"

section \<open>verify_scatter\<close>

text \<open>The body of the answer, what is printed, and the network.\<close>

definition req_scatter :: "'w net \<Rightarrow> bytes \<Rightarrow> bytes \<Rightarrow> 'w \<Rightarrow> bytes \<times> bytes list \<times> 'w" where
  "req_scatter net req_method url w =
     (case net (lit ''GET'') url [] w of
        (Inl err, w') \<Rightarrow> ([], [lit ''FAIL: '' @ req_method @ lit '' '' @ url @ lit '' -> '' @ err], w')
      | (Inr (status, body), w') \<Rightarrow>
          (body, [req_method @ lit '' '' @ url @ lit '' -> '' @ Sprint_d status], w'))"

text \<open>
  \<^verbatim>\<open>json.Unmarshal\<close> into \<^verbatim>\<open>[][]string\<close> with its error ignored: a value of another type leaves the
  element empty, a malformed text leaves no rows.
\<close>

definition lenient_rows :: "bytes \<Rightarrow> Row list" where
  "lenient_rows data =
     (case json_parse data of
        Some (ArrV js) \<Rightarrow> map (\<lambda>j. case j of ArrV es \<Rightarrow> map (\<lambda>e. case e of StrV x \<Rightarrow> x | _ \<Rightarrow> []) es | _ \<Rightarrow> []) js
      | _ \<Rightarrow> [])"

fun Contains :: "bytes \<Rightarrow> bytes \<Rightarrow> bool" where
  "Contains [] sub \<longleftrightarrow> sub = []"
| "Contains (c # s) sub \<longleftrightarrow> HasPrefix (c # s) sub \<or> Contains s sub"

definition holds_val :: "bytes \<Rightarrow> Row \<Rightarrow> bool" where
  "holds_val val r \<longleftrightarrow>
     (case r of
        _ # valCol # _ \<Rightarrow> valCol = val \<or> Contains valCol (lit '','' @ val) \<or> Contains valCol val
      | _ \<Rightarrow> False)"

definition Sprint_bool :: "bool \<Rightarrow> bytes" where
  "Sprint_bool b = (if b then lit ''true'' else lit ''false'')"

text \<open>\<^verbatim>\<open>%v\<close> of a slice of slices of strings.\<close>

definition Sprint_rows :: "Row list \<Rightarrow> bytes" where
  "Sprint_rows rows = [91] @ Join (map (\<lambda>r. [91] @ Join r [32] @ [93]) rows) [32] @ [93]"

definition sql_keyA :: bytes where "sql_keyA = lit ''INSERT INTO t VALUES (keyA, valA)''"

definition sql_keyB :: bytes where "sql_keyB = lit ''INSERT INTO t VALUES (keyB, valB)''"

definition point_keyA :: bytes where
  "point_keyA = lit ''SELECT * FROM t WHERE k = '' @ [39] @ lit ''keyA'' @ [39]"

definition verify_scatter :: "'w net \<Rightarrow> (nat \<Rightarrow> 'w \<Rightarrow> 'w) \<Rightarrow> 'w \<Rightarrow> bytes list \<times> 'w" where
  "verify_scatter net sleep w0 =
     (case req_scatter net (lit ''GET'') (proxy_url (sql_query sql_keyA)) w0 of (_, e1, w1) \<Rightarrow>
      case req_scatter net (lit ''POST'') (lit ''http://localhost:9002/execute?sql='' @ QueryEscape sql_keyB) w1 of (_, e2, w2) \<Rightarrow>
      case req_scatter net (lit ''GET'') (proxy_url (sql_query point_keyA)) (sleep 1000 w2) of (bodyA, e3, w3) \<Rightarrow>
      case req_scatter net (lit ''GET'') (proxy_url (sql_query scan_sql)) w3 of (bodyAll, e4, w4) \<Rightarrow>
        let rows = lenient_rows bodyAll;
            foundA = list_ex (holds_val (lit ''valA'')) rows;
            foundB = list_ex (holds_val (lit ''valB'')) rows
        in ([lit ''1. Cleaning Cluster (Optional: We assume clean or append)'', lit ''2. Inserting via Proxy (Shard 1)''] @ e1 @
            [lit ''3. Inserting Direct to Shard 2 (Bypass Router)''] @ e2 @
            [lit ''4. SELECT keyA (Point Query)''] @ e3 @ [lit ''Result A: '' @ bodyA] @
            [lit ''5. SELECT * (Scatter-Gather)''] @ e4 @ [lit ''Result All: '' @ bodyAll] @
            [if foundA \<and> foundB then lit ''SUCCESS: Found both valA and valB from different shards!''
             else lit ''FAILURE: Missing data. A='' @ Sprint_bool foundA @ lit '', B='' @ Sprint_bool foundB @ lit ''. Rows: '' @ Sprint_rows rows],
            w4))"

section \<open>verify_proxy_2pc\<close>

definition req_proxy :: "'w net \<Rightarrow> bytes \<Rightarrow> bytes \<Rightarrow> 'w \<Rightarrow> bytes \<times> bytes list \<times> 'w" where
  "req_proxy net req_method url w =
     (case net (lit ''GET'') url [] w of
        (Inl err, w') \<Rightarrow> ([], [lit ''FAIL: '' @ req_method @ lit '' '' @ url @ lit '' -> '' @ err], w')
      | (Inr (status, body), w') \<Rightarrow>
          (body, [req_method @ lit '' '' @ url @ lit '' -> '' @ Sprint_d status @ lit '': '' @ body], w'))"

definition hint_query :: "bytes \<Rightarrow> bytes" where
  "hint_query sql = sql_query sql @ lit ''&routing_key=keyA''"

definition verify_proxy_2pc :: "'w net \<Rightarrow> (nat \<Rightarrow> 'w \<Rightarrow> 'w) \<Rightarrow> 'w \<Rightarrow> bytes list \<times> 'w" where
  "verify_proxy_2pc net sleep w0 =
     (case req_proxy net (lit ''GET'') (proxy_url (lit ''sql=BEGIN'')) w0 of (body, e1, w1) \<Rightarrow>
        if \<not> HasPrefix body (lit ''TxnID:'')
        then ([lit ''1. BEGIN Transaction''] @ e1 @ [lit ''Failed to start txn''], w1)
        else
          let txnID = TrimPrefix body (lit ''TxnID:'') in
          case req_proxy net (lit ''GET'') (proxy_url (insert_query txnID sql_keyA)) w1 of (_, e2, w2) \<Rightarrow>
          case req_proxy net (lit ''GET'') (proxy_url (insert_query txnID sql_keyB)) w2 of (_, e3, w3) \<Rightarrow>
          case req_proxy net (lit ''GET'') (proxy_url (hint_query scan_sql)) w3 of (_, e4, w4) \<Rightarrow>
          case req_proxy net (lit ''GET'') (proxy_url (commit_request txnID)) w4 of (_, e5, w5) \<Rightarrow>
          case req_proxy net (lit ''GET'') (proxy_url (hint_query scan_sql)) (sleep 1000 w5) of (_, e6, w6) \<Rightarrow>
            ([lit ''1. BEGIN Transaction''] @ e1 @ [lit ''Started Txn: '' @ txnID, lit ''2. INSERT A''] @ e2 @
             [lit ''3. INSERT B''] @ e3 @
             [lit ''4. SELECT A (Should fail/empty or old value if Isolation works? Our Read doesn'' @ [39] @ lit ''t check lock yet?)''] @ e4 @
             [lit ''5. COMMIT''] @ e5 @ [lit ''6. SELECT A (Should succeed)''] @ e6, w6))"

section \<open>What the shards are going to hold\<close>

definition final_stores :: "'t btree_ops \<Rightarrow> ('x, 'pe) sqlparser \<Rightarrow> 't cluster \<Rightarrow> bytes \<rightharpoonup> 't MemoryStore" where
  "final_stores B P cl = (\<lambda>a. map_option (\<lambda>srv. sn_engine (settled B P srv)) (cl a))"

lemma final_stores_settled: "final_stores B P cl a = map_option sn_engine (map_option (settled B P) (cl a))"
  by (simp add: final_stores_def option.map_comp comp_def)

lemma final_stores_steps: "(cluster_step B P)\<^sup>*\<^sup>* cl cl' \<Longrightarrow> final_stores B P cl' = final_stores B P cl"
  by (rule ext) (simp only: final_stores_settled cluster_steps_settled)

lemma final_stores_applied: "all_applied cl \<Longrightarrow> stores cl = final_stores B P cl"
  by (auto simp: all_applied_def stores_def final_stores_def settled_def shard_run_def fun_eq_iff ran_def intro!: option.map_cong)

lemma final_stores_propose:
  assumes "cl a = Some srv"
  shows "final_stores B P (cl(a \<mapsto> \<lparr>srv_node = srv_node srv, srv_queue = srv_queue srv @ [msg]\<rparr>)) =
    (final_stores B P cl)(a \<mapsto> sn_engine (fst (shard_Apply B P (settled B P srv) msg)))"
  using assms by (simp add: final_stores_def settled_def shard_run_def fun_eq_iff)

lemma cluster_inv_stores: "cluster_inv B tinv cl \<longleftrightarrow> (\<forall>e \<in> ran (stores cl). store_inv B tinv e)"
  by (auto simp: cluster_inv_def stores_def ran_def)

definition settles :: "'t btree_ops \<Rightarrow> ('x, 'pe) sqlparser \<Rightarrow> ('t cluster \<Rightarrow> 't cluster) \<Rightarrow> ('t system \<Rightarrow> 't system) \<Rightarrow> bool" where
  "settles B P sched sleep \<longleftrightarrow> (\<forall>s. finite (dom (sys_shards s)) \<longrightarrow> (sys_step B P sched)\<^sup>*\<^sup>* s (sleep s) \<and> quiet (sleep s))"

lemma sleep_without_calls:
  assumes "settles B P sched sleep" and "finite (dom (sys_shards s))" and "sys_calls s = []"
  shows "quiet (sleep s) \<and> sys_proxy (sleep s) = sys_proxy s \<and> stores (sys_shards (sleep s)) = final_stores B P (sys_shards s)"
proof -
  have st: "(sys_step B P sched)\<^sup>*\<^sup>* s (sleep s)" and q: "quiet (sleep s)" using assms(1,2) by (auto simp: settles_def)
  obtain cs where cs: "sys_proxy (sleep s) = sys_proxy s" "mset (sys_calls s) = mset cs + mset (sys_calls (sleep s))"
    "net_exec (cluster_net B P sched) (cluster_step B P) cs (sys_shards s) (sys_shards (sleep s))"
    using sys_steps_exec [OF st] by blast
  then have "(cluster_step B P)\<^sup>*\<^sup>* (sys_shards s) (sys_shards (sleep s))" using assms(3) net_exec_Nil by simp
  from final_stores_steps [OF this] final_stores_applied [of "sys_shards (sleep s)" B P] q cs(1) show ?thesis
    by (simp add: quiet_def)
qed

section \<open>Requests to the proxy\<close>

lemma split_proxy_url: "split_url (proxy_url q) = (proxy_addr, lit ''/execute'', q)"
proof -
  have "proxy_url q = proxy_addr @ lit ''/execute'' @ 63 # q" by (simp add: proxy_url_def proxy_addr_def lit_def)
  moreover have "good_addr proxy_addr" by code_simp
  ultimately show ?thesis using split_url_good(1) path_facts(13-15) by metis
qed

lemma system_net_proxy:
  assumes "sys_request B P sched ord1 ord2 arrival (clock s) q s = (s1, status, ans)"
  shows "system_net B P sched ord1 ord2 arrival clock shard_net T (lit ''GET'') (proxy_url q) [] s = (Inr (status, body_text T status ans), s1)"
  using assms by (auto simp: system_net_def split_proxy_url sys_request_def split: prod.splits)

text \<open>The default router sends every key to one address.\<close>

definition one_target :: "Router \<Rightarrow> bytes \<Rightarrow> bool" where
  "one_target r a \<longleftrightarrow> good_addr a \<and> (\<forall>k. rt_ShardAddrs r (GetShardID r k) = Some a)"

lemma one_target_New: "one_target (NewRouter url) (lit ''http://localhost:9001'')"
proof -
  have "GetShardID (NewRouter url) k = 1" for k by (rule GetShardID_New)
  then show ?thesis using three_addrs(4) by (simp only: one_target_def) (simp add: NewRouter_def)
qed

lemma forward_insert:
  assumes "shard_cluster B tinv P sched" and "rt_ShardAddrs r sid = Some a" and "good_addr a" and "cl a = Some srv"
    and "\<not> HasPrefix (ToUpper sql) (lit ''SELECT'')"
  shows "\<exists>cl'. forward (cluster_net B P sched) r sid sql cl = (Inr (lit ''OK''), cl') \<and> dom cl' = dom cl \<and>
    final_stores B P cl' = (final_stores B P cl)(a \<mapsto> sn_engine (fst (shard_Apply B P (settled B P srv) (lit ''SQL:'' @ sql))))"
proof -
  let ?cl = "cl(a \<mapsto> \<lparr>srv_node = srv_node srv, srv_queue = srv_queue srv @ [lit ''SQL:'' @ sql]\<rparr>)"
  have "query_Get [] (lit ''sql'') = []" by code_simp
  then have "cluster_http B P (HttpPost (a @ lit ''/execute'') sql) cl = (Some \<lparr>resp_StatusCode = 200, resp_Body = Some (lit ''OK'')\<rparr>, ?cl)"
    using decode_txn_calls(5) [OF assms(3), of sql] assms(4,5) by (simp add: cluster_http_def serve_def shard_handle_def)
  then have "forward (cluster_net B P sched) r sid sql cl = (Inr (lit ''OK''), sched ?cl)"
    using assms(2) by (simp add: forward_def ForwardRequest_def cluster_net_def)
  moreover have "(cluster_step B P)\<^sup>*\<^sup>* ?cl (sched ?cl)" by (rule shard_cluster.sched_delivers [OF assms(1)])
  ultimately show ?thesis
    using final_stores_steps [of B P ?cl "sched ?cl"] final_stores_propose [of cl a srv B P, OF assms(4)] cluster_steps_dom [of B P ?cl "sched ?cl"] assms(4)
    by (auto simp: insert_absorb domI)
qed

lemma ask_autocommit:
  assumes "shard_cluster B tinv P sched" and "one_target (co_router (px_coord (sys_proxy s))) a" and "sys_shards s a = Some srv"
    and "plain_statement sql" and "\<not> HasPrefix (ToUpper sql) (lit ''SELECT'')" and "sql \<noteq> []"
    and "ParseToPlan P sql = Inr (InsertNode tab cols vals)"
    and "Analyze P sql = Inr \<lparr>plan_Type = PlanSingle, plan_RoutingKey = key\<rparr>"
    and "sys_request B P sched ord1 ord2 arrival now (sql_query sql) s = (s1, status, ans)"
  shows "status = 200 \<and> ans = Text (lit ''OK'') \<and> sys_calls s1 = sys_calls s \<and> px_coord (sys_proxy s1) = px_coord (sys_proxy s) \<and>
    dom (sys_shards s1) = dom (sys_shards s) \<and> final_stores B P (sys_shards s1) =
      (final_stores B P (sys_shards s))(a \<mapsto> fst (executeInsert (memory_engine B) tab vals (sn_engine (settled B P srv)) 100))"
proof -
  let ?r = "co_router (px_coord (sys_proxy s))" and ?k = "if key = [] then lit ''default'' else key"
  have a: "rt_ShardAddrs ?r (GetShardID ?r ?k) = Some a" "good_addr a" using assms(2) by (simp_all only: one_target_def)
  have "sn_engine (fst (shard_Apply B P (settled B P srv) (lit ''SQL:'' @ sql))) =
      fst (executeInsert (memory_engine B) tab vals (sn_engine (settled B P srv)) 100)"
    unfolding apply_sql assms(7) by (simp add: Execute_def)
  with forward_insert [where cl = "sys_shards s", OF assms(1) a assms(3,5)] obtain cl' where cl':
    "forward (cluster_net B P sched) ?r (GetShardID ?r ?k) sql (sys_shards s) = (Inr (lit ''OK''), cl')" "dom cl' = dom (sys_shards s)"
    "final_stores B P cl' = (final_stores B P (sys_shards s))(a \<mapsto> fst (executeInsert (memory_engine B) tab vals (sn_engine (settled B P srv)) 100))"
    by metis
  have route: "proxy_route P (cluster_net B P sched) arrival sql [] ?r (sys_shards s) = (Forwarded (lit ''OK''), cl')"
    using cl'(1) assms(8) by (cases "key = []") (simp_all add: proxy_route_def)
  have "\<exists>px. proxy_execute P (cluster_net B P sched) ord1 ord2 arrival now (execute_query (sql_query sql) []) (sys_proxy s) (sys_shards s) =
      (px, [], cl', Forwarded (lit ''OK'')) \<and> px_coord px = px_coord (sys_proxy s)"
    using assms(4,6,7) route by (simp add: proxy_execute_def execute_query_sql plain_statement_def Let_def split: list.split)
  then have "status = 200" "ans = Text (lit ''OK'')" "sys_calls s1 = sys_calls s" "px_coord (sys_proxy s1) = px_coord (sys_proxy s)" "sys_shards s1 = cl'"
    using assms(9) by (auto simp: sys_request_def proxy_serve_def command_words)
  with cl'(2,3) show ?thesis by simp
qed

text \<open>A query for one shard, by its key or by a hint.\<close>

lemma ask_query_single:
  assumes "shard_cluster B tinv P sched" and "one_target (co_router (px_coord (sys_proxy s))) a"
    and "plain_statement sql" and "HasPrefix (ToUpper sql) (lit ''SELECT'')"
    and "ParseToPlan P sql = Inr plan" and "query_plan plan"
    and "hint \<noteq> [] \<or> Analyze P sql = Inr \<lparr>plan_Type = PlanSingle, plan_RoutingKey = key\<rparr>"
    and "execute_query q [] = \<lparr>q_sql = sql, q_body = [], q_txn = [], q_routing_key = hint\<rparr>"
    and "only_queries P (sys_shards s)" and "stores (sys_shards s) a = Some e"
    and "sys_request B P sched ord1 ord2 arrival now q s = (s1, status, ans)"
  shows "status = 200 \<and> ans = Text (encode_rows (query_rows B plan e)) \<and> sys_calls s1 = sys_calls s \<and>
    px_coord (sys_proxy s1) = px_coord (sys_proxy s) \<and> stores (sys_shards s1) = stores (sys_shards s) \<and> only_queries P (sys_shards s1)"
proof -
  let ?r = "co_router (px_coord (sys_proxy s))" and ?E = "stores (sys_shards s)"
  have ne: "sql \<noteq> []" using assms(4) by (auto simp: HasPrefix_def ToUpper_def lit_def)
  have a: "rt_ShardAddrs ?r (GetShardID ?r k) = Some a" "good_addr a" for k using assms(2) by (simp_all only: one_target_def)
  have sv: "serving P ?E (sys_shards s)" using assms(9) by (simp add: serving_def)
  let ?k = "let k = (if hint \<noteq> [] then hint else key) in if k = [] then lit ''default'' else k"
  obtain cl' where cl': "forward (cluster_net B P sched) ?r (GetShardID ?r ?k) sql (sys_shards s) = (Inr (encode_rows (query_rows B plan e)), cl')"
    "serving P ?E cl'" using forward_query [OF assms(1,5,6,4) sv a assms(10)] by blast
  have "proxy_route P (cluster_net B P sched) arrival sql hint ?r (sys_shards s) = (Forwarded (encode_rows (query_rows B plan e)), cl')"
    using cl'(1) assms(7) by (auto simp: proxy_route_def Let_def)
  then have "\<exists>px. proxy_execute P (cluster_net B P sched) ord1 ord2 arrival now (execute_query q []) (sys_proxy s) (sys_shards s) =
      (px, [], cl', Forwarded (encode_rows (query_rows B plan e))) \<and> px_coord px = px_coord (sys_proxy s)"
    unfolding assms(8) proxy_query [OF assms(3) ne assms(5,6) refl] by simp
  with cl'(2) assms(11) show ?thesis by (auto simp: sys_request_def proxy_serve_def command_words serving_def)
qed

section \<open>The run of verify_scatter\<close>

lemma req_scatter_ok:
  "net (lit ''GET'') url [] w = (Inr (status, body), w') \<Longrightarrow>
    req_scatter net req_method url w = (body, [req_method @ lit '' '' @ url @ lit '' -> '' @ Sprint_d status], w')"
  by (simp add: req_scatter_def)

lemma lenient_encode_rows: "lenient_rows (encode_rows (Some rs)) = map (map json_string) rs"
proof -
  have "json_fits (Suc (Suc d)) (rows_json (Some rs))" for d by (simp add: rows_json_def)
  from this [of 9998] have fits: "json_fits 10000 (rows_json (Some rs))" by simp
  have "json_parse (encode_rows (Some rs)) = Some (json_coerce (rows_json (Some rs)))"
    by (simp add: encode_rows_def json_parse_print(2) [OF fits])
  then show ?thesis by (simp add: lenient_rows_def rows_json_def comp_def)
qed

lemma statement_words:
  "plain_statement sql_keyA" "plain_statement sql_keyB" "plain_statement point_keyA" "plain_statement scan_sql"
  "\<not> HasPrefix (ToUpper sql_keyA) (lit ''SELECT'')" "\<not> HasPrefix (ToUpper sql_keyB) (lit ''SELECT'')"
  "HasPrefix (ToUpper point_keyA) (lit ''SELECT'')" "HasPrefix (ToUpper scan_sql) (lit ''SELECT'')"
  "sql_keyA \<noteq> []" "sql_keyB \<noteq> []" "58 \<notin> set (lit ''t'')" "lit ''keyA'' < [0xFF]" "lit ''keyB'' < [0xFF]"
  by code_simp+

text \<open>The insert that goes to the second shard directly.\<close>

lemma direct_insert:
  assumes "cl (lit ''http://localhost:9002'') = Some srv"
  shows "shards_net B P order range_order unmarshal T (lit ''GET'') (lit ''http://localhost:9002/execute?sql='' @ QueryEscape sql_keyB) [] cl =
    (Inr (200, lit ''OK''), cl(lit ''http://localhost:9002'' \<mapsto>
      \<lparr>srv_node = srv_node srv, srv_queue = srv_queue srv @ [lit ''SQL:'' @ sql_keyB]\<rparr>))"
proof -
  have u: "split_url (lit ''http://localhost:9002/execute?sql='' @ QueryEscape sql_keyB) =
      (lit ''http://localhost:9002'', lit ''/execute'', sql_query sql_keyB)"
    by code_simp
  have m: "shard_mux (lit ''/execute'') (sql_query sql_keyB) [] = Some (ReqExecute sql_keyB [])"
    by code_simp
  show ?thesis
    using net_mux [OF u m, where cl = cl, OF assms, of B P "srv_node srv" "lit ''SQL:'' @ sql_keyB" 200 OKText] statement_words(6,10)
    by (simp add: shard_handle_def)
qed

lemma direct_not_proxy:
  "fst (split_url (lit ''http://localhost:9002/execute?sql='' @ QueryEscape sql_keyB)) \<noteq> proxy_addr"
  by code_simp

definition rowA :: "'t btree_ops \<Rightarrow> 't MemoryStore" where "rowA B = row_store B (lit ''t'') [lit ''keyA'', lit ''valA'']"

definition rowB :: "'t btree_ops \<Rightarrow> 't MemoryStore" where "rowB B = row_store B (lit ''t'') [lit ''keyB'', lit ''valB'']"

text \<open>The two inserts and the sleep.\<close>

lemma scatter_setup:
  assumes "shard_cluster B tinv P sched" and "ParseToPlan P sql_keyA = Inr (InsertNode (lit ''t'') cA [lit ''keyA'', lit ''valA''])"
    and "Analyze P sql_keyA = Inr \<lparr>plan_Type = PlanSingle, plan_RoutingKey = kA\<rparr>"
    and "ParseToPlan P sql_keyB = Inr (InsertNode (lit ''t'') cB [lit ''keyB'', lit ''valB''])" and "settles B P sched sleep"
    and "sys_request B P sched ord1 ord2 arrival now (sql_query sql_keyA) (three_system B (NewMemoryStore B)) = (s1, status, ans)"
  shows "\<exists>cl2. shards_net B P order range_order unmarshal T (lit ''GET'') (lit ''http://localhost:9002/execute?sql='' @ QueryEscape sql_keyB) []
      (sys_shards s1) = (Inr (200, lit ''OK''), cl2) \<and>
    quiet (sleep (s1\<lparr>sys_shards := cl2\<rparr>)) \<and> co_router (px_coord (sys_proxy (sleep (s1\<lparr>sys_shards := cl2\<rparr>)))) = NewRouter (lit ''http://localhost:9000'') \<and>
    stores (sys_shards (sleep (s1\<lparr>sys_shards := cl2\<rparr>))) = [lit ''http://localhost:9001'' \<mapsto> rowA B, lit ''http://localhost:9002'' \<mapsto> rowB B,
      lit ''http://localhost:9003'' \<mapsto> NewMemoryStore B]"
proof -
  let ?s0 = "three_system B (NewMemoryStore B)" and ?a1 = "lit ''http://localhost:9001''" and ?a2 = "lit ''http://localhost:9002''"
  note addrs = three_addrs
  have r0: "co_router (px_coord (sys_proxy ?s0)) = NewRouter (lit ''http://localhost:9000'')"
    by (simp add: three_system_def proxy_main_def NewCoordinator_def)
  have srv1: "sys_shards ?s0 ?a1 = Some (idle_server (NewMemoryStore B))" using addrs by (simp add: three_system_def)
  have idle: "settled B P (idle_server e) = \<lparr>sn_engine = e, sn_metrics = empty_registry\<rparr>" for e
    by (simp add: settled_def idle_server_def shard_run_def)
  have f0: "final_stores B P (sys_shards ?s0) = [?a1 \<mapsto> NewMemoryStore B, ?a2 \<mapsto> NewMemoryStore B, lit ''http://localhost:9003'' \<mapsto> NewMemoryStore B]"
    by (simp add: final_stores_def three_system_def idle fun_eq_iff)
  have tgt: "one_target (co_router (px_coord (sys_proxy ?s0))) ?a1" unfolding r0 by (rule one_target_New)
  note 1 = ask_autocommit [OF assms(1) tgt srv1 statement_words(1,5,9) assms(2,3,6), unfolded idle]
  have f1: "final_stores B P (sys_shards s1) = [?a1 \<mapsto> rowA B, ?a2 \<mapsto> NewMemoryStore B, lit ''http://localhost:9003'' \<mapsto> NewMemoryStore B]"
    using 1 f0 addrs by (simp add: rowA_def row_store_def fun_eq_iff)
  have "final_stores B P (sys_shards s1) ?a2 = Some (NewMemoryStore B)" using f1 addrs by simp
  then obtain srv2 where srv2: "sys_shards s1 ?a2 = Some srv2" "sn_engine (settled B P srv2) = NewMemoryStore B"
    by (auto simp: final_stores_def)
  define cl2 where "cl2 = (sys_shards s1)(?a2 \<mapsto> \<lparr>srv_node = srv_node srv2, srv_queue = srv_queue srv2 @ [lit ''SQL:'' @ sql_keyB]\<rparr>)"
  note 2 = direct_insert [where cl = "sys_shards s1", OF srv2(1), of B P order range_order unmarshal T]
  have "sn_engine (fst (shard_Apply B P (settled B P srv2) (lit ''SQL:'' @ sql_keyB))) = rowB B"
    unfolding apply_sql assms(4) by (simp add: Execute_def srv2(2) rowB_def row_store_def)
  then have f2: "final_stores B P cl2 = [?a1 \<mapsto> rowA B, ?a2 \<mapsto> rowB B, lit ''http://localhost:9003'' \<mapsto> NewMemoryStore B]"
    using final_stores_propose [where cl = "sys_shards s1", OF srv2(1), of B P] f1 addrs by (simp add: cl2_def fun_eq_iff)
  have "finite (dom (sys_shards ?s0))" by (simp add: three_system_def)
  then have "finite (dom cl2)" using 1 by (simp add: cl2_def)
  moreover have "sys_calls s1 = []" using 1 by (simp add: three_system_def)
  ultimately have "quiet (sleep (s1\<lparr>sys_shards := cl2\<rparr>)) \<and> sys_proxy (sleep (s1\<lparr>sys_shards := cl2\<rparr>)) = sys_proxy s1 \<and>
      stores (sys_shards (sleep (s1\<lparr>sys_shards := cl2\<rparr>))) = final_stores B P cl2"
    using sleep_without_calls [OF assms(5), of "s1\<lparr>sys_shards := cl2\<rparr>"] by simp
  with 1 2 f2 r0 show ?thesis unfolding cl2_def by simp
qed

lemma row_joins:
  "Join [lit ''keyA'', lit ''valA''] (lit '','') = lit ''keyA,valA''" "Join [lit ''keyB'', lit ''valB''] (lit '','') = lit ''keyB,valB''"
  by code_simp+

lemma shown_rows:
  "shown (lit ''keyA'', Some (lit ''keyA,valA'')) = [lit ''keyA'', lit ''keyA,valA'']"
  "shown (lit ''keyB'', Some (lit ''keyB,valB'')) = [lit ''keyB'', lit ''keyB,valB'']"
  "map json_string [lit ''keyA'', lit ''keyA,valA''] = [lit ''keyA'', lit ''keyA,valA'']"
  "map json_string [lit ''keyB'', lit ''keyB,valB''] = [lit ''keyB'', lit ''keyB,valB'']"
  "holds_val (lit ''valA'') [lit ''keyA'', lit ''keyA,valA'']" "holds_val (lit ''valB'') [lit ''keyB'', lit ''keyB,valB'']"
  by code_simp+

lemma rowA_point:
  assumes "btree_api B tinv"
  shows "query_rows B (PointGetNode (lit ''t'') (lit ''keyA'')) (rowA B) = Some [[lit ''keyA'', lit ''keyA,valA'']]"
proof -
  note eng = btree_api.memory_engine_laws [OF assms] and new = new_store [OF assms]
  obtain r where r: "executeInsert (memory_engine B) (lit ''t'') [lit ''keyA'', lit ''valA''] (NewMemoryStore B) 100 = (rowA B, r)"
    unfolding rowA_def row_store_def by (metis prod.collapse)
  have "available (view B (NewMemoryStore B)) k n" "readable (view B (NewMemoryStore B)) k" for k n
    by (simp_all add: available_def readable_def new(3,4) del: view_sel)
  from mvcc_engine.insert_point_get [OF eng new(1) this _ _ r, of MaxUint64] new(3) show ?thesis
    by (simp add: query_rows_def Execute_def row_joins del: view_sel Join.simps)
qed

text \<open>The query of the whole table on the three stores.\<close>

lemma scatter_finds_both:
  assumes "shard_cluster B tinv P sched" and "only_queries P (sys_shards s)"
    and "co_router (px_coord (sys_proxy s)) = NewRouter url"
    and "stores (sys_shards s) = [lit ''http://localhost:9001'' \<mapsto> rowA B, lit ''http://localhost:9002'' \<mapsto> rowB B,
      lit ''http://localhost:9003'' \<mapsto> NewMemoryStore B]"
    and "ParseToPlan P scan_sql = Inr (ProjectNode (ScanNode (lit ''t'')) cols)"
    and "Analyze P scan_sql = Inr \<lparr>plan_Type = PlanBroadcast, plan_RoutingKey = key\<rparr>" and "mset arrival = mset [1, 2, 3]"
    and "sys_request B P sched ord1 ord2 arrival now (sql_query scan_sql) s = (s1, status, ans)"
  shows "\<exists>rs. status = 200 \<and> ans = Text (encode_rows (Some rs)) \<and>
    set rs = {[lit ''keyA'', lit ''keyA,valA''], [lit ''keyB'', lit ''keyB,valB'']} \<and> length rs = 2"
proof -
  have api: "btree_api B tinv" using assms(1) by (simp add: shard_cluster_def)
  let ?st = "\<lambda>sid :: u64. if sid = 1 then rowA B else if sid = 2 then rowB B else NewMemoryStore B"
  let ?addr = "\<lambda>sid :: u64. if sid = 1 then lit ''http://localhost:9001'' else if sid = 2 then lit ''http://localhost:9002'' else lit ''http://localhost:9003''"
  note addrs = three_addrs and row = row_store_facts [OF api] and new = new_store [OF api]
  have inv: "cluster_inv B tinv (sys_shards s)"
    unfolding cluster_inv_stores assms(4) using row(1) new(1) by (auto simp: ran_def rowA_def rowB_def)
  have at: "\<exists>srv. sys_shards s (?addr sid) = Some srv \<and> sn_engine (srv_node srv) = ?st sid" for sid
  proof -
    have "stores (sys_shards s) (?addr sid) = Some (?st sid)" unfolding assms(4) using addrs by simp
    then show ?thesis by (auto simp: stores_def)
  qed
  define srv where "srv sid = the (sys_shards s (?addr sid))" for sid
  have srv: "sys_shards s (?addr sid) = Some (srv sid)" "sn_engine (srv_node (srv sid)) = ?st sid" for sid
    using at [of sid] by (auto simp: srv_def)
  have up: "\<forall>sid \<in> {1, 2, 3}. \<exists>a. rt_ShardAddrs (co_router (px_coord (sys_proxy s))) sid = Some a \<and> good_addr a \<and>
      sys_shards s a = Some (srv sid) \<and> scannable (view B (sn_engine (srv_node (srv sid)))) (lit ''t'' @ lit '':'')"
  proof
    fix sid :: u64
    assume "sid \<in> {1, 2, 3}"
    then have "rt_ShardAddrs (NewRouter url) sid = Some (?addr sid)" by (auto simp: NewRouter_def)
    moreover have "scannable (view B (?st sid)) (lit ''t'' @ lit '':'')" using row(2) new(2) by (simp add: rowA_def rowB_def)
    ultimately show "\<exists>a. rt_ShardAddrs (co_router (px_coord (sys_proxy s))) sid = Some a \<and> good_addr a \<and>
      sys_shards s a = Some (srv sid) \<and> scannable (view B (sn_engine (srv_node (srv sid)))) (lit ''t'' @ lit '':'')"
      unfolding assms(3) srv(2) using srv(1) [of sid] addrs by (intro exI [of _ "?addr sid"]) simp
  qed
  from scatter_rows [OF assms(1) inv assms(2) statement_words(4,8) assms(5) statement_words(11) assms(6,7) up assms(8)]
  obtain rows where rows: "status = 200"
    "ans = Text (encode_rows (if concat (map rows arrival) = [] then None else Some (map shown (concat (map rows arrival)))))"
    "\<forall>sid \<in> {1, 2, 3}. distinct (map fst (rows sid)) \<and> set (rows sid) = {(k, v). k < [0xFF] \<and>
        newest (versions (view B (?st sid)) (userKey (lit ''t'') k)) MaxUint64 = Some v}"
    unfolding srv(2) by blast
  have got: "set (rows 1) = {(lit ''keyA'', Some (lit ''keyA,valA''))}" "set (rows 2) = {(lit ''keyB'', Some (lit ''keyB,valB''))}"
    using rows(3) row_store_rows [OF api statement_words(12)] row_store_rows [OF api statement_words(13)]
    by (simp_all add: rowA_def rowB_def row_joins del: view_sel Join.simps)
  have "rows 3 = []" using rows(3) new_store_rows [OF api] by (simp del: view_sel)
  moreover have "rows 1 = [(lit ''keyA'', Some (lit ''keyA,valA''))]" "rows 2 = [(lit ''keyB'', Some (lit ''keyB,valB''))]"
    using rows(3) singleton_rows [OF _ got(1)] singleton_rows [OF _ got(2)] by blast+
  moreover have "set arrival = {1, 2, 3}" using mset_eq_setD [OF assms(7)] by simp
  moreover have "sum_list (map (\<lambda>sid. length (rows sid)) arrival) = sum_mset (image_mset (\<lambda>sid. length (rows sid)) (mset [1, 2, 3]))"
    unfolding assms(7) [symmetric] by (simp flip: mset_map add: sum_mset_sum_list del: mset_map)
  ultimately have "set (map shown (concat (map rows arrival))) = {[lit ''keyA'', lit ''keyA,valA''], [lit ''keyB'', lit ''keyB,valB'']}"
    and len: "length (concat (map rows arrival)) = 2"
    using shown_rows(1,2) by (simp_all add: length_concat comp_def insert_commute)
  moreover have "concat (map rows arrival) \<noteq> []" using len by (metis list.size(3) zero_neq_numeral)
  ultimately show ?thesis
    using rows(1,2) by (intro exI [of _ "map shown (concat (map rows arrival))"]) (simp only: if_False simp_thms length_map)
qed

text \<open>What the program prints, from the four answers.\<close>

definition scatter_lines :: "nat \<Rightarrow> nat \<Rightarrow> nat \<Rightarrow> bytes \<Rightarrow> nat \<Rightarrow> bytes list" where
  "scatter_lines st1 st2 st3 bodyA st4 =
     (let line = (\<lambda>m url st. m @ lit '' '' @ url @ lit '' -> '' @ Sprint_d st) in
      [lit ''1. Cleaning Cluster (Optional: We assume clean or append)'', lit ''2. Inserting via Proxy (Shard 1)'',
       line (lit ''GET'') (proxy_url (sql_query sql_keyA)) st1, lit ''3. Inserting Direct to Shard 2 (Bypass Router)'',
       line (lit ''POST'') (lit ''http://localhost:9002/execute?sql='' @ QueryEscape sql_keyB) st2, lit ''4. SELECT keyA (Point Query)'',
       line (lit ''GET'') (proxy_url (sql_query point_keyA)) st3, lit ''Result A: '' @ bodyA, lit ''5. SELECT * (Scatter-Gather)'',
       line (lit ''GET'') (proxy_url (sql_query scan_sql)) st4])"

lemma verify_scatter_run:
  assumes "net (lit ''GET'') (proxy_url (sql_query sql_keyA)) [] w0 = (Inr (st1, body1), w1)"
    and "net (lit ''GET'') (lit ''http://localhost:9002/execute?sql='' @ QueryEscape sql_keyB) [] w1 = (Inr (st2, body2), w2)"
    and "net (lit ''GET'') (proxy_url (sql_query point_keyA)) [] (sleep 1000 w2) = (Inr (st3, bodyA), w3)"
    and "net (lit ''GET'') (proxy_url (sql_query scan_sql)) [] w3 = (Inr (st4, encode_rows (Some rs)), w4)"
    and "set rs = {[lit ''keyA'', lit ''keyA,valA''], [lit ''keyB'', lit ''keyB,valB'']}"
  shows "fst (verify_scatter net sleep w0) = scatter_lines st1 st2 st3 bodyA st4 @
    [lit ''Result All: '' @ encode_rows (Some rs), lit ''SUCCESS: Found both valA and valB from different shards!'']"
proof -
  have len: "lenient_rows (encode_rows (Some rs)) = rs"
    unfolding lenient_encode_rows
    by (rule map_idI, unfold assms(5), elim insertE emptyE) (simp_all only: shown_rows(3,4))
  have found: "list_ex (holds_val (lit ''valA'')) rs" "list_ex (holds_val (lit ''valB'')) rs"
    unfolding list_ex_iff assms(5) using shown_rows(5,6) by blast+
  note ok = req_scatter_ok [where net = net]
  show ?thesis
    unfolding verify_scatter_def ok [OF assms(1)] prod.case ok [OF assms(2)] ok [OF assms(3)] ok [OF assms(4)] len Let_def
    using found by (simp add: scatter_lines_def)
qed

section \<open>The run of verify_proxy_2pc\<close>

lemma req_proxy_ok:
  "net (lit ''GET'') url [] w = (Inr (status, body), w') \<Longrightarrow>
    req_proxy net req_method url w = (body, [req_method @ lit '' '' @ url @ lit '' -> '' @ Sprint_d status @ lit '': '' @ body], w')"
  by (simp add: req_proxy_def)

lemma execute_query_hint:
  "execute_query (hint_query scan_sql) [] = \<lparr>q_sql = scan_sql, q_body = [], q_txn = [], q_routing_key = lit ''keyA''\<rparr>"
  by code_simp

definition xA :: WriteIntent where "xA = \<lparr>wi_Key = lit ''t:keyA'', wi_Value = lit ''valA''\<rparr>"

definition xB :: WriteIntent where "xB = \<lparr>wi_Key = lit ''t:keyB'', wi_Value = lit ''valB''\<rparr>"

lemma row_keys: "userKey (lit ''t'') (lit ''keyA'') = lit ''t:keyA''" "userKey (lit ''t'') (lit ''keyB'') = lit ''t:keyB''"
  "lit ''t:keyA'' \<noteq> lit ''t:keyB''" "\<not> prefix (lit ''t:keyA'') (lit ''t:keyB'')" "\<not> prefix (lit ''t:keyB'') (lit ''t:keyA'')"
  "userKey (lit ''t'') k = lit ''t:keyA'' \<longleftrightarrow> k = lit ''keyA''" "userKey (lit ''t'') k = lit ''t:keyB'' \<longleftrightarrow> k = lit ''keyB''"
  "lit ''keyA'' \<noteq> lit ''keyB''" "lit ''keyB'' \<noteq> lit ''keyA''"
  by (simp_all add: userKey_def lit_def)

lemma tool_inserts:
  "ParseToPlan P sql_keyA = Inr (InsertNode (lit ''t'') cA [lit ''keyA'', lit ''valA'']) \<Longrightarrow> inserts P sql_keyA xA"
  "ParseToPlan P sql_keyB = Inr (InsertNode (lit ''t'') cB [lit ''keyB'', lit ''valB'']) \<Longrightarrow> inserts P sql_keyB xB"
  using statement_words(1,2,9,10) by (simp_all add: inserts_def row_keys xA_def xB_def)

lemma queries_final:
  assumes "only_queries P cl"
  shows "final_stores B P cl = stores cl"
proof -
  have "list_all (query_msg P) ms \<Longrightarrow> sn_engine (shard_run B P n ms) = sn_engine n" for n ms
    by (induction ms arbitrary: n) (simp_all add: shard_run_def apply_query_msg)
  with assms show ?thesis
    by (auto simp: final_stores_def stores_def settled_def only_queries_def ran_def fun_eq_iff intro!: option.map_cong)
qed

lemma cluster_state_final: "cluster_state B P cl = (\<lambda>a. map_option (view B) (final_stores B P cl a))"
  by (simp add: cluster_state_def final_stores_def option.map_comp comp_def)

text \<open>The two writes fit the cluster of fresh shards.\<close>

lemma tool_placed:
  assumes "one_target r a" and "M a = Some m" and "\<forall>k. intents m k = None"
  shows "\<forall>x \<in> set [xA, xB]. placed r M txnID x"
proof -
  have "Locate r k = a" for k using assms(1) by (simp add: Locate_def one_target_def)
  moreover have "32 \<notin> set (lit ''t:keyA'')" "32 \<notin> set (lit ''t:keyB'')" "32 \<notin> set (lit ''valA'')" "32 \<notin> set (lit ''valB'')"
    "utf8_valid (lit ''t:keyA'')" "utf8_valid (lit ''t:keyB'')" "utf8_valid (lit ''valA'')" "utf8_valid (lit ''valB'')"
    unfolding utf8_valid_def by code_simp+
  ultimately show ?thesis
    using assms by (simp add: placed_def xA_def xB_def available_def one_target_def)
qed

text \<open>The rows of a store whose only versions are the two that the transaction has written.\<close>

lemma two_row_scan:
  assumes "btree_api B tinv" and "store_inv B tinv e"
    and v: "\<forall>k. versions (view B e) k = (if k = lit ''t:keyA'' then [t1 \<mapsto> Some (lit ''valA'')]
      else if k = lit ''t:keyB'' then [t1 \<mapsto> Some (lit ''valB'')] else Map.empty)"
  shows "\<exists>rs. query_rows B (ProjectNode (ScanNode (lit ''t'')) cols) e = Some rs \<and>
    set rs = {[lit ''keyA'', lit ''valA''], [lit ''keyB'', lit ''valB'']} \<and> length rs = 2"
proof -
  have "stored_keys (view B e) = {lit ''t:keyA'', lit ''t:keyB''}"
    using v by (auto simp: stored_keys_def row_keys(3) simp del: view_sel split: if_splits)
  moreover have "\<not> strict_prefix (lit ''t:keyA'') (lit ''t'' @ lit '':'')" "\<not> strict_prefix (lit ''t:keyB'') (lit ''t'' @ lit '':'')"
    by (simp_all add: lit_def)
  ultimately have "scannable (view B e) (lit ''t'' @ lit '':'')"
    by (auto simp: scannable_def prefix_free_def row_keys)
  from query_rows_exact [OF assms(1,2) this statement_words(11), of cols] obtain kvs where kvs:
    "(case query_rows B (ProjectNode (ScanNode (lit ''t'')) cols) e of None \<Rightarrow> [] | Some rs \<Rightarrow> rs) = map (\<lambda>(k, v). [k, slice_bytes v]) kvs"
    "distinct (map fst kvs)" "set kvs = {(k, v). k < [0xFF] \<and> newest (versions (view B e) (userKey (lit ''t'') k)) MaxUint64 = Some v}"
    by blast
  have "set kvs = {(lit ''keyA'', Some (lit ''valA'')), (lit ''keyB'', Some (lit ''valB''))}"
    unfolding kvs(3) using v statement_words(12,13) row_keys(3,8,9)
    by (auto simp: newest_eq_Some_iff row_keys(6,7) simp del: view_sel split: if_splits)
  moreover have "length kvs = card (set kvs)" using kvs(2) distinct_card [of kvs] by (simp add: distinct_map)
  ultimately show ?thesis
    using kvs(1) row_keys(8) by (cases "query_rows B (ProjectNode (ScanNode (lit ''t'')) cols) e") (auto simp: slice_bytes_def)
qed

text \<open>Up to the commit nothing of the transaction is seen: the query before it finds no row.\<close>

lemma proxy_2pc_fill:
  assumes "shard_cluster B tinv P sched" and "inserts P sql_keyA xA" and "inserts P sql_keyB xB"
    and "ParseToPlan P scan_sql = Inr (ProjectNode (ScanNode (lit ''t'')) cols)"
    and "sys_request B P sched ord1 ord2 arrival t0 (lit ''sql=BEGIN'') (three_system B (NewMemoryStore B)) = (s1, st1, an1)"
    and "sys_request B P sched ord1 ord2 arrival now2 (insert_query (txn_name t0) sql_keyA) s1 = (s2, st2, an2)"
    and "sys_request B P sched ord1 ord2 arrival now3 (insert_query (txn_name t0) sql_keyB) s2 = (s3, st3, an3)"
    and "sys_request B P sched ord1 ord2 arrival now4 (hint_query scan_sql) s3 = (s4, st4, an4)"
  shows "st1 = 200 \<and> an1 = Text (lit ''TxnID:'' @ txn_name t0) \<and> st2 = 200 \<and> an2 = Text (lit ''Buffered Write OK'') \<and>
    st3 = 200 \<and> an3 = Text (lit ''Buffered Write OK'') \<and> st4 = 200 \<and> an4 = Text (encode_rows None) \<and>
    dom (sys_shards s4) = dom (sys_shards (three_system B (NewMemoryStore B))) \<and>
    filling B tinv P (NewRouter (lit ''http://localhost:9000'')) (cluster_state B P (sys_shards (three_system B (NewMemoryStore B))))
      (txn_name t0) t0 [xA, xB] s4"
proof -
  let ?s0 = "three_system B (NewMemoryStore B)" and ?r = "NewRouter (lit ''http://localhost:9000'')"
  let ?M = "cluster_state B P (sys_shards ?s0)" and ?plan = "ProjectNode (ScanNode (lit ''t'')) cols"
  have api: "btree_api B tinv" using assms(1) by (simp add: shard_cluster_def)
  have inv: "cluster_inv B tinv (sys_shards ?s0)" "only_queries P (sys_shards ?s0)"
    using new_store(1) [OF api]
    by (auto simp: cluster_inv_def only_queries_def three_system_def idle_server_def ran_def split: if_splits)
  have r0: "co_router (px_coord (sys_proxy ?s0)) = ?r" by (simp add: three_system_def proxy_main_def NewCoordinator_def)
  have e0: "stores (sys_shards ?s0) (lit ''http://localhost:9001'') = Some (NewMemoryStore B)"
    using three_addrs by (simp add: stores_def three_system_def idle_server_def)
  have "sys_calls ?s0 = []" by (simp add: three_system_def)
  note 1 = ask_begin [OF assms(5) this inv(1), unfolded r0]
  note 2 = ask_insert [OF assms(6) _ assms(2), of tinv ?r ?M "[]"] and 3 = ask_insert [OF assms(7) _ assms(3), of tinv ?r ?M "[xA]"]
  have fill: "filling B tinv P ?r ?M (txn_name t0) t0 [xA, xB] s3" and same: "sys_shards s3 = sys_shards ?s0"
    using 1 2 3 by simp_all
  have r3: "co_router (px_coord (sys_proxy s3)) = ?r" using fill by (simp add: filling_def)
  have tgt: "one_target (co_router (px_coord (sys_proxy s3))) (lit ''http://localhost:9001'')" unfolding r3 by (rule one_target_New)
  have plan: "query_plan ?plan" by (simp add: query_plan_def)
  have "lit ''keyA'' \<noteq> []" by (simp add: lit_def)
  then have h: "lit ''keyA'' \<noteq> [] \<or> Analyze P scan_sql = Inr \<lparr>plan_Type = PlanSingle, plan_RoutingKey = []\<rparr>" by simp
  note 4 = ask_query_single [OF assms(1) tgt statement_words(4,8) assms(4) plan h execute_query_hint inv(2) [folded same] e0 [folded same] assms(8)]
  obtain kvs where kvs: "(case query_rows B ?plan (NewMemoryStore B) of None \<Rightarrow> [] | Some rs \<Rightarrow> rs) = map (\<lambda>(k, v). [k, slice_bytes v]) kvs"
    "set kvs = {}" using query_rows_exact [OF api new_store(1,2) [OF api] statement_words(11), of cols] new_store_rows [OF api] by auto
  then have none: "query_rows B ?plan (NewMemoryStore B) = None"
    using query_rows_not_empty [of B "lit ''t''" cols "NewMemoryStore B"] by (simp split: option.splits)
  have "final_stores B P (sys_shards s4) = final_stores B P (sys_shards s3)"
    using 4 queries_final [of P "sys_shards s4" B] queries_final [OF inv(2), of B] same by simp
  then have "cluster_state B P (sys_shards s4) = cluster_state B P (sys_shards s3)" by (simp add: cluster_state_final)
  moreover have "cluster_inv B tinv (sys_shards s4)" using 4 inv(1) same by (simp add: cluster_inv_stores)
  ultimately have "filling B tinv P ?r ?M (txn_name t0) t0 [xA, xB] s4" using fill 4 by (simp add: filling_def)
  with 1 2 3 4 none sys_request_dom [OF assms(1,8)] same show ?thesis by simp
qed

text \<open>The commit, the sleep and the query after it.\<close>

lemma proxy_2pc_commit:
  assumes "shard_cluster B tinv P sched" and "ParseToPlan P scan_sql = Inr (ProjectNode (ScanNode (lit ''t'')) cols)"
    and "\<forall>g. mset (ord1 g) = mset g" and "\<forall>g. mset (ord2 g) = mset g" and "settles B P sched sleep"
    and "filling B tinv P (NewRouter url) M (txn_name t0) t0 [xA, xB] s4" and "finite (dom (sys_shards s4))"
    and "M (lit ''http://localhost:9001'') = Some (view B (NewMemoryStore B))"
    and "sys_request B P sched ord1 ord2 arrival t1 (commit_request (txn_name t0)) s4 = (s5, st5, an5)"
    and "sys_request B P sched ord1 ord2 arrival now6 (hint_query scan_sql) (sleep s5) = (s6, st6, an6)"
  shows "st5 = 200 \<and> an5 = Text (lit ''COMMIT OK'') \<and> st6 = 200 \<and>
    (\<exists>rs. an6 = Text (encode_rows (Some rs)) \<and> set rs = {[lit ''keyA'', lit ''valA''], [lit ''keyB'', lit ''valB'']} \<and> length rs = 2)"
proof -
  let ?a = "lit ''http://localhost:9001''" and ?r = "NewRouter url" and ?plan = "ProjectNode (ScanNode (lit ''t'')) cols"
  let ?N = "cluster_state B P (sys_shards (sleep s5))"
  have api: "btree_api B tinv" using assms(1) by (simp add: shard_cluster_def)
  note new = new_store [OF api] and tgt = one_target_New [of url]
  have loc: "Locate ?r k = ?a" for k using tgt by (simp add: Locate_def one_target_def)
  have placed: "\<forall>x \<in> set [xA, xB]. placed ?r M (txn_name t0) x"
    by (rule tool_placed [where M = M, OF tgt assms(8)]) (use new(4) in blast)
  have fin: "finite (dom (sys_shards s5))" using assms(7) sys_request_dom [OF assms(1,9)] by simp
  have st: "(sys_step B P sched)\<^sup>*\<^sup>* s5 (sleep s5)" "quiet (sleep s5)" using assms(5) fin by (auto simp: settles_def)
  have "distinct (map wi_Key [xA, xB])" using row_keys(3) by (simp add: xA_def xB_def)
  note rest = commit_to_rest [OF assms(1,6) _ this placed assms(3,4,9) st]
  have cell: "cell_of ?N ?a k = Some (if k = lit ''t:keyA'' then [t1 \<mapsto> Some (lit ''valA'')]
      else if k = lit ''t:keyB'' then [t1 \<mapsto> Some (lit ''valB'')] else Map.empty, None)" for k
  proof -
    have c0: "cell_of M ?a k = Some (Map.empty, None)" for k
      using assms(8) new(3,4) by (simp add: cell_of_def fun_eq_iff del: view_sel)
    have w: "cell_of ?N ?a (lit ''t:keyA'') = Some ([t1 \<mapsto> Some (lit ''valA'')], None)"
      "cell_of ?N ?a (lit ''t:keyB'') = Some ([t1 \<mapsto> Some (lit ''valB'')], None)"
      using rest loc c0 by (simp_all add: xA_def xB_def cell_write_def may_take_def)
    have "cell_of ?N ?a k = Some (Map.empty, None)" if "k \<noteq> lit ''t:keyA''" "k \<noteq> lit ''t:keyB''"
      using rest that c0 by (simp add: xA_def xB_def)
    with w show ?thesis by simp
  qed
  obtain srv where srv: "sys_shards (sleep s5) ?a = Some srv" using cell [of "[]"] by (auto simp: cell_of_def cluster_state_def)
  let ?e = "sn_engine (srv_node srv)"
  have app: "all_applied (sys_shards (sleep s5))" using st(2) by (simp add: quiet_def)
  have "versions (view B ?e) k = (if k = lit ''t:keyA'' then [t1 \<mapsto> Some (lit ''valA'')]
      else if k = lit ''t:keyB'' then [t1 \<mapsto> Some (lit ''valB'')] else Map.empty)" for k
    using applied_cell [OF app cell [of k]] srv by (simp del: view_sel)
  moreover have "store_inv B tinv ?e" using rest srv by (auto simp: cluster_inv_def ran_def)
  ultimately obtain rs where rs: "query_rows B ?plan ?e = Some rs"
    "set rs = {[lit ''keyA'', lit ''valA''], [lit ''keyB'', lit ''valB'']}" "length rs = 2"
    using two_row_scan [OF api, of ?e t1 cols] by blast
  have rt: "co_router (px_coord (sys_proxy (sleep s5))) = ?r" using rest by simp
  have e: "stores (sys_shards (sleep s5)) ?a = Some ?e" using srv by (simp add: stores_def)
  have plan: "query_plan ?plan" by (simp add: query_plan_def)
  have h: "lit ''keyA'' \<noteq> [] \<or> Analyze P scan_sql = Inr \<lparr>plan_Type = PlanSingle, plan_RoutingKey = []\<rparr>" by (simp add: lit_def)
  from ask_query_single [OF assms(1) _ statement_words(4,8) assms(2) plan h execute_query_hint applied_only_queries [OF app] e assms(10)] tgt
  have "st6 = 200 \<and> an6 = Text (encode_rows (Some rs))" unfolding rt rs(1) by simp
  with rest rs(2,3) show ?thesis by auto
qed

definition proxy_2pc_lines :: "bytes \<Rightarrow> Row list \<Rightarrow> bytes list" where
  "proxy_2pc_lines txnID rs =
     (let line = (\<lambda>q body. lit ''GET'' @ lit '' '' @ proxy_url q @ lit '' -> '' @ Sprint_d 200 @ lit '': '' @ body) in
      [lit ''1. BEGIN Transaction'', line (lit ''sql=BEGIN'') (lit ''TxnID:'' @ txnID), lit ''Started Txn: '' @ txnID,
       lit ''2. INSERT A'', line (insert_query txnID sql_keyA) (lit ''Buffered Write OK''),
       lit ''3. INSERT B'', line (insert_query txnID sql_keyB) (lit ''Buffered Write OK''),
       lit ''4. SELECT A (Should fail/empty or old value if Isolation works? Our Read doesn'' @ [39] @ lit ''t check lock yet?)'',
       line (hint_query scan_sql) (encode_rows None),
       lit ''5. COMMIT'', line (commit_request txnID) (lit ''COMMIT OK''),
       lit ''6. SELECT A (Should succeed)'', line (hint_query scan_sql) (encode_rows (Some rs))])"

lemma verify_proxy_2pc_run:
  assumes "net (lit ''GET'') (proxy_url (lit ''sql=BEGIN'')) [] w0 = (Inr (200, lit ''TxnID:'' @ txnID), w1)"
    and "net (lit ''GET'') (proxy_url (insert_query txnID sql_keyA)) [] w1 = (Inr (200, lit ''Buffered Write OK''), w2)"
    and "net (lit ''GET'') (proxy_url (insert_query txnID sql_keyB)) [] w2 = (Inr (200, lit ''Buffered Write OK''), w3)"
    and "net (lit ''GET'') (proxy_url (hint_query scan_sql)) [] w3 = (Inr (200, encode_rows None), w4)"
    and "net (lit ''GET'') (proxy_url (commit_request txnID)) [] w4 = (Inr (200, lit ''COMMIT OK''), w5)"
    and "net (lit ''GET'') (proxy_url (hint_query scan_sql)) [] (sleep 1000 w5) = (Inr (200, encode_rows (Some rs)), w6)"
  shows "fst (verify_proxy_2pc net sleep w0) = proxy_2pc_lines txnID rs"
proof -
  have t: "HasPrefix (lit ''TxnID:'' @ txnID) (lit ''TxnID:'')" "TrimPrefix (lit ''TxnID:'' @ txnID) (lit ''TxnID:'') = txnID"
    by (simp_all add: HasPrefix_def TrimPrefix_def)
  note ok = req_proxy_ok [where net = net]
  show ?thesis
    unfolding verify_proxy_2pc_def ok [OF assms(1)] prod.case t Let_def ok [OF assms(2)] ok [OF assms(3)] ok [OF assms(4)]
      ok [OF assms(5)] ok [OF assms(6)]
    by (simp add: proxy_2pc_lines_def)
qed

section \<open>Properties\<close>

text \<open>
  \<^verbatim>\<open>verify_scatter\<close> passes: run against a fresh proxy and three fresh shards whose parser
  understands its four statements, over any tree, with the shards applying entries at any
  time and a sleep in which they catch up, the program reads back exactly the row it stored
  through the proxy, the query of the whole table returns the two rows of the two shards and
  nothing else, and its last line reports success.
\<close>

theorem verify_scatter_passes:
  assumes sc: "shard_cluster B tinv P sched"
    and A: "ParseToPlan P sql_keyA = Inr (InsertNode (lit ''t'') cA [lit ''keyA'', lit ''valA''])"
      "Analyze P sql_keyA = Inr \<lparr>plan_Type = PlanSingle, plan_RoutingKey = kA\<rparr>"
    and B: "ParseToPlan P sql_keyB = Inr (InsertNode (lit ''t'') cB [lit ''keyB'', lit ''valB''])"
    and Q: "ParseToPlan P point_keyA = Inr (PointGetNode (lit ''t'') (lit ''keyA''))"
      "Analyze P point_keyA = Inr \<lparr>plan_Type = PlanSingle, plan_RoutingKey = kQ\<rparr>"
    and S: "ParseToPlan P scan_sql = Inr (ProjectNode (ScanNode (lit ''t'')) cols)"
      "Analyze P scan_sql = Inr \<lparr>plan_Type = PlanBroadcast, plan_RoutingKey = kS\<rparr>"
    and arrival: "mset arrival = mset [1, 2, 3]" and sleep: "\<forall>n. settles B P sched (sleep n)"
    and net: "net = system_net B P sched ord1 ord2 arrival clock (shards_net B P order range_order unmarshal T) T"
  shows "\<exists>out rs. fst (verify_scatter net sleep (three_system B (NewMemoryStore B))) =
      out @ [lit ''Result All: '' @ encode_rows (Some rs), lit ''SUCCESS: Found both valA and valB from different shards!''] \<and>
    lit ''Result A: '' @ encode_rows (Some [[lit ''keyA'', lit ''keyA,valA'']]) \<in> set out \<and>
    set rs = {[lit ''keyA'', lit ''keyA,valA''], [lit ''keyB'', lit ''keyB,valB'']} \<and> length rs = 2"
proof -
  have api: "btree_api B tinv" using sc by (simp add: shard_cluster_def)
  let ?s0 = "three_system B (NewMemoryStore B)" and ?sn = "shards_net B P order range_order unmarshal T"
  let ?u2 = "lit ''http://localhost:9002/execute?sql='' @ QueryEscape sql_keyB" and ?ask = "sys_request B P sched ord1 ord2 arrival"
  obtain s1 st1 an1 where 1: "?ask (clock ?s0) (sql_query sql_keyA) ?s0 = (s1, st1, an1)" by (metis surj_pair)
  obtain cl2 where cl2: "?sn (lit ''GET'') ?u2 [] (sys_shards s1) = (Inr (200, lit ''OK''), cl2)"
    and q3: "quiet (sleep 1000 (s1\<lparr>sys_shards := cl2\<rparr>))"
      "co_router (px_coord (sys_proxy (sleep 1000 (s1\<lparr>sys_shards := cl2\<rparr>)))) = NewRouter (lit ''http://localhost:9000'')"
      "stores (sys_shards (sleep 1000 (s1\<lparr>sys_shards := cl2\<rparr>))) = [lit ''http://localhost:9001'' \<mapsto> rowA B,
        lit ''http://localhost:9002'' \<mapsto> rowB B, lit ''http://localhost:9003'' \<mapsto> NewMemoryStore B]"
    using scatter_setup [OF sc A B sleep [rule_format] 1] by blast
  define s3 where "s3 = sleep 1000 (s1\<lparr>sys_shards := cl2\<rparr>)"
  note q3 = q3 [folded s3_def]
  obtain s4 st3 an3 where 3: "?ask (clock s3) (sql_query point_keyA) s3 = (s4, st3, an3)" by (metis surj_pair)
  have tgt: "one_target (co_router (px_coord (sys_proxy s3))) (lit ''http://localhost:9001'')" unfolding q3(2) by (rule one_target_New)
  have "query_plan (PointGetNode (lit ''t'') (lit ''keyA''))" by (simp add: query_plan_def)
  moreover have "stores (sys_shards s3) (lit ''http://localhost:9001'') = Some (rowA B)" unfolding q3(3) using three_addrs by simp
  moreover have "only_queries P (sys_shards s3)" using q3(1) by (simp add: quiet_def applied_only_queries)
  ultimately have r3: "st3 = 200" "an3 = Text (encode_rows (Some [[lit ''keyA'', lit ''keyA,valA'']]))"
      "px_coord (sys_proxy s4) = px_coord (sys_proxy s3)" "stores (sys_shards s4) = stores (sys_shards s3)" "only_queries P (sys_shards s4)"
    using ask_query_single [OF sc tgt statement_words(3,7) Q(1) _ _ execute_query_sql _ _ 3, of kQ "rowA B"] Q(2)
    by (simp_all add: rowA_point [OF api])
  obtain s5 st4 an4 where 4: "?ask (clock s4) (sql_query scan_sql) s4 = (s5, st4, an4)" by (metis surj_pair)
  have r2: "co_router (px_coord (sys_proxy s4)) = NewRouter (lit ''http://localhost:9000'')"
      "stores (sys_shards s4) = [lit ''http://localhost:9001'' \<mapsto> rowA B,
        lit ''http://localhost:9002'' \<mapsto> rowB B, lit ''http://localhost:9003'' \<mapsto> NewMemoryStore B]"
    unfolding r3(3,4) by (rule q3(2), rule q3(3))
  obtain rs where rs: "st4 = 200" "an4 = Text (encode_rows (Some rs))"
      "set rs = {[lit ''keyA'', lit ''keyA,valA''], [lit ''keyB'', lit ''keyB,valB'']}" "length rs = 2"
    using scatter_finds_both [OF sc r3(5) r2(1) r2(2) S arrival 4] by blast
  have direct: "net (lit ''GET'') ?u2 [] s1 = (Inr (200, lit ''OK''), s1\<lparr>sys_shards := cl2\<rparr>)"
    using cl2 direct_not_proxy unfolding net by (simp add: system_net_def case_prod_beta)
  note ask = system_net_proxy [of B P sched ord1 ord2 arrival clock _ _ _ _ _ ?sn T, folded net]
  note 3 = 3 [unfolded r3(1,2) s3_def] and 4 = 4 [unfolded rs(1,2)]
  from verify_scatter_run [where net = net and sleep = sleep, OF ask [OF 1] direct ask [OF 3, unfolded body_text.simps] ask [OF 4, unfolded body_text.simps] rs(3)]
  show ?thesis using rs(3,4) by (intro exI conjI) (assumption | simp add: scatter_lines_def)+
qed

text \<open>
  (C11) \<^verbatim>\<open>verify_proxy_2pc\<close> passes: run against a fresh proxy and three fresh shards whose parser
  understands its statements, over any tree and clock, with the shards applying entries at
  any time and a sleep in which they catch up, the program gets a transaction, the two
  inserts are buffered, the query before the commit finds no row, the commit succeeds, and
  the query after it returns the two rows with the values of the inserts and nothing else.
  Each shard address is a server of its own that applies every accepted proposal once and in
  order, and every call is answered.
\<close>

theorem verify_proxy_2pc_passes:
  assumes sc: "shard_cluster B tinv P sched"
    and A: "ParseToPlan P sql_keyA = Inr (InsertNode (lit ''t'') cA [lit ''keyA'', lit ''valA''])"
    and B: "ParseToPlan P sql_keyB = Inr (InsertNode (lit ''t'') cB [lit ''keyB'', lit ''valB''])"
    and S: "ParseToPlan P scan_sql = Inr (ProjectNode (ScanNode (lit ''t'')) cols)"
    and ord: "\<forall>g. mset (ord1 g) = mset g" "\<forall>g. mset (ord2 g) = mset g" and sleep: "\<forall>n. settles B P sched (sleep n)"
    and net: "net = system_net B P sched ord1 ord2 arrival clock shard_net T"
  shows "\<exists>rs. fst (verify_proxy_2pc net sleep (three_system B (NewMemoryStore B))) =
      proxy_2pc_lines (txn_name (clock (three_system B (NewMemoryStore B)))) rs \<and>
    set rs = {[lit ''keyA'', lit ''valA''], [lit ''keyB'', lit ''valB'']} \<and> length rs = 2"
proof -
  let ?s0 = "three_system B (NewMemoryStore B)" and ?ask = "sys_request B P sched ord1 ord2 arrival"
  define txnID where "txnID = txn_name (clock ?s0)"
  obtain s1 st1 an1 where 1: "?ask (clock ?s0) (lit ''sql=BEGIN'') ?s0 = (s1, st1, an1)" by (metis surj_pair)
  obtain s2 st2 an2 where 2: "?ask (clock s1) (insert_query txnID sql_keyA) s1 = (s2, st2, an2)" by (metis surj_pair)
  obtain s3 st3 an3 where 3: "?ask (clock s2) (insert_query txnID sql_keyB) s2 = (s3, st3, an3)" by (metis surj_pair)
  obtain s4 st4 an4 where 4: "?ask (clock s3) (hint_query scan_sql) s3 = (s4, st4, an4)" by (metis surj_pair)
  obtain s5 st5 an5 where 5: "?ask (clock s4) (commit_request txnID) s4 = (s5, st5, an5)" by (metis surj_pair)
  obtain s6 st6 an6 where 6: "?ask (clock (sleep 1000 s5)) (hint_query scan_sql) (sleep 1000 s5) = (s6, st6, an6)" by (metis surj_pair)
  note f = proxy_2pc_fill [OF sc tool_inserts(1) [OF A] tool_inserts(2) [OF B] S 1 2 [unfolded txnID_def] 3 [unfolded txnID_def] 4]
  have fin: "finite (dom (sys_shards s4))" using f by (simp add: three_system_def)
  have M: "cluster_state B P (sys_shards ?s0) (lit ''http://localhost:9001'') = Some (view B (NewMemoryStore B))"
    using three_addrs by (simp add: cluster_state_def three_system_def idle_server_def settled_def shard_run_def)
  have fill: "filling B tinv P (NewRouter (lit ''http://localhost:9000'')) (cluster_state B P (sys_shards ?s0)) (txn_name (clock ?s0)) (clock ?s0) [xA, xB] s4"
    using f by blast
  have up: "settles B P sched (sleep 1000)" using sleep by blast
  note g = proxy_2pc_commit [where M = "cluster_state B P (sys_shards ?s0)", OF sc S ord up fill fin M 5 [unfolded txnID_def] 6]
  then obtain rs where rs: "an6 = Text (encode_rows (Some rs))" "set rs = {[lit ''keyA'', lit ''valA''], [lit ''keyB'', lit ''valB'']}" "length rs = 2"
    by blast
  note ask = system_net_proxy [of B P sched ord1 ord2 arrival clock _ _ _ _ _ shard_net T, folded net]
  have "fst (verify_proxy_2pc net sleep ?s0) = proxy_2pc_lines txnID rs"
    by (rule verify_proxy_2pc_run [where net = net and sleep = sleep])
      (use ask [OF 1] ask [OF 2] ask [OF 3] ask [OF 4] ask [OF 5] ask [OF 6] f g rs(1) in \<open>simp_all add: txnID_def\<close>)
  with rs(2,3) show ?thesis unfolding txnID_def by blast
qed

text \<open>A parser that knows the statements of the programs, and sleeps in which everything settles.\<close>

definition tool_parser :: "(bytes, unit) sqlparser" where
  "tool_parser = table_parser
     [(sql_keyA, insert_into (lit ''t'') [lit ''keyA'', lit ''valA'']), (sql_keyB, insert_into (lit ''t'') [lit ''keyB'', lit ''valB'']),
      (point_keyA, SelectStmt \<lparr>sel_From = [AliasedTableExpr (lit ''t'')],
         sel_Where = Some (ComparisonExpr EqualStr (ColName (lit ''k'')) (SQLVal (lit ''keyA''))), sel_SelectExprs = [StarExpr]\<rparr>),
      (scan_sql, star_select)]"

lemma tool_parser_plans:
  "ParseToPlan tool_parser sql_keyA = Inr (InsertNode (lit ''t'') [] [lit ''keyA'', lit ''valA''])"
  "Analyze tool_parser sql_keyA = Inr \<lparr>plan_Type = PlanSingle, plan_RoutingKey = lit ''keyA''\<rparr>"
  "ParseToPlan tool_parser sql_keyB = Inr (InsertNode (lit ''t'') [] [lit ''keyB'', lit ''valB''])"
  "ParseToPlan tool_parser point_keyA = Inr (PointGetNode (lit ''t'') (lit ''keyA''))"
  "Analyze tool_parser point_keyA = Inr \<lparr>plan_Type = PlanSingle, plan_RoutingKey = lit ''keyA''\<rparr>"
  "ParseToPlan tool_parser scan_sql = Inr (ProjectNode (ScanNode (lit ''t'')) [lit ''*''])"
  "Analyze tool_parser scan_sql = Inr \<lparr>plan_Type = PlanBroadcast, plan_RoutingKey = []\<rparr>"
proof -
  have "sql_keyA \<noteq> sql_keyB" "sql_keyA \<noteq> point_keyA" "sql_keyA \<noteq> scan_sql" "sql_keyB \<noteq> point_keyA" "sql_keyB \<noteq> scan_sql" "point_keyA \<noteq> scan_sql"
    by code_simp+
  then show "ParseToPlan tool_parser sql_keyA = Inr (InsertNode (lit ''t'') [] [lit ''keyA'', lit ''valA''])"
    "Analyze tool_parser sql_keyA = Inr \<lparr>plan_Type = PlanSingle, plan_RoutingKey = lit ''keyA''\<rparr>"
    "ParseToPlan tool_parser sql_keyB = Inr (InsertNode (lit ''t'') [] [lit ''keyB'', lit ''valB''])"
    "ParseToPlan tool_parser point_keyA = Inr (PointGetNode (lit ''t'') (lit ''keyA''))"
    "Analyze tool_parser point_keyA = Inr \<lparr>plan_Type = PlanSingle, plan_RoutingKey = lit ''keyA''\<rparr>"
    "ParseToPlan tool_parser scan_sql = Inr (ProjectNode (ScanNode (lit ''t'')) [lit ''*''])"
    "Analyze tool_parser scan_sql = Inr \<lparr>plan_Type = PlanBroadcast, plan_RoutingKey = []\<rparr>"
    by (simp_all add: tool_parser_def table_parser_def insert_into_def star_select_def ParseToPlan_def buildInsertPlan_def buildSelectPlan_def
        Analyze_def analyzeInsert_def analyzeSelect_def analyze_visit_def)
qed

lemma settles_exists:
  assumes "shard_cluster B tinv P sched"
  shows "\<exists>sleep. settles B P sched sleep"
proof -
  have "\<forall>s. \<exists>t. finite (dom (sys_shards s)) \<longrightarrow> (sys_step B P sched)\<^sup>*\<^sup>* s t \<and> quiet t"
    using sys_comes_to_rest [OF assms] by blast
  from choice [OF this] show ?thesis by (simp add: settles_def)
qed

theorem verify_scatter_passes_witness:
  "\<exists>sleep out. (\<forall>n. settles sl_btree tool_parser id (sleep n)) \<and>
     fst (verify_scatter (system_net sl_btree tool_parser id id id [2, 3, 1] (\<lambda>_. 7)
       (shards_net sl_btree tool_parser key_order (\<lambda>xs. xs) (\<lambda>_. None :: unit option) no_texts) no_texts) sleep
       (three_system sl_btree (NewMemoryStore sl_btree))) =
       out @ [lit ''SUCCESS: Found both valA and valB from different shards!'']"
proof -
  obtain sl where sl: "settles sl_btree tool_parser id sl" using settles_exists [OF lazy.shard_cluster_axioms] by blast
  have m: "mset [2, 3, 1 :: u64] = mset [1, 2, 3]" by simp
  from sl have "\<forall>n. settles sl_btree tool_parser id ((\<lambda>_ :: nat. sl) n)" by simp
  from verify_scatter_passes [OF lazy.shard_cluster_axioms tool_parser_plans(1-7) m this refl, of id id "\<lambda>_. 7" key_order "\<lambda>xs. xs" "\<lambda>_. None :: unit option" no_texts]
  obtain out rs where "fst (verify_scatter (system_net sl_btree tool_parser id id id [2, 3, 1] (\<lambda>_. 7)
       (shards_net sl_btree tool_parser key_order (\<lambda>xs. xs) (\<lambda>_. None :: unit option) no_texts) no_texts) (\<lambda>_. sl)
       (three_system sl_btree (NewMemoryStore sl_btree))) = out @ [lit ''Result All: '' @ encode_rows (Some rs),
         lit ''SUCCESS: Found both valA and valB from different shards!'']" by blast
  with sl show ?thesis
    by (intro exI [of _ "\<lambda>_. sl"] exI [of _ "out @ [lit ''Result All: '' @ encode_rows (Some rs)]"]) simp
qed

theorem verify_proxy_2pc_passes_witness:
  "\<exists>sleep rs. (\<forall>n. settles sl_btree tool_parser id (sleep n)) \<and>
     fst (verify_proxy_2pc (system_net sl_btree tool_parser id id id [2, 3, 1] (\<lambda>_. 7)
       (shards_net sl_btree tool_parser key_order (\<lambda>xs. xs) (\<lambda>_. None :: unit option) no_texts) no_texts) sleep
       (three_system sl_btree (NewMemoryStore sl_btree))) = proxy_2pc_lines (txn_name 7) rs \<and>
     set rs = {[lit ''keyA'', lit ''valA''], [lit ''keyB'', lit ''valB'']}"
proof -
  obtain sl where sl: "settles sl_btree tool_parser id sl" using settles_exists [OF lazy.shard_cluster_axioms] by blast
  from sl have "\<forall>n. settles sl_btree tool_parser id ((\<lambda>_ :: nat. sl) n)" by simp
  from verify_proxy_2pc_passes [OF lazy.shard_cluster_axioms tool_parser_plans(1,3,6) _ _ this refl, of id id "[2, 3, 1]" "\<lambda>_. 7"
      "shards_net sl_btree tool_parser key_order (\<lambda>xs. xs) (\<lambda>_. None :: unit option) no_texts" no_texts]
  show ?thesis using sl by (intro exI [of _ "\<lambda>_. sl"]) auto
qed

end
