(* ===== verification/Coordinator_Steps.thy ===== *)
theory Coordinator_Steps
  imports Txn_Network
begin

text \<open>
  The coordinator with its methods running at once, as the proxy calls it from one goroutine
  per request.  \<open>Commit\<close> of \<^verbatim>\<open>internal/txn/coordinator.go\<close> holds the mutex only while it copies
  the writes and when it sets the state; between them, while it talks to the shards, other
  methods run.  Here it is a program counter that advances from one such point to the next.
\<close>

section \<open>Commit, point by point\<close>

datatype commit_pc =
    Entered (pc_txn: bytes)
  | SendingOneShot (pc_txn: bytes) bytes "WriteIntent list"
  | SentOneShot (pc_txn: bytes)
  | Preparing (pc_txn: bytes) groups "(bytes \<times> WriteIntent) list"   \<comment> \<open>the prepares left to send\<close>
  | Failing (pc_txn: bytes) txn_error
  | Returned (pc_txn: bytes) "txn_error option"

text \<open>One step of \<open>Commit\<close>: where it is then, the coordinator, the calls started, and the network.\<close>

fun advance ::
  "'w http \<Rightarrow> (groups \<Rightarrow> groups) \<Rightarrow> (groups \<Rightarrow> groups) \<Rightarrow> u64 \<Rightarrow> commit_pc \<Rightarrow> Coordinator \<Rightarrow> 'w \<Rightarrow>
   (commit_pc \<times> Coordinator \<times> http_call list \<times> 'w) option" where
  "advance http ord1 ord2 now (Entered txnID) c w = Some (
     case co_transactions c txnID of
       None \<Rightarrow> (Returned txnID (Some NotActive), c, [], w)
     | Some txn \<Rightarrow>
         if tx_State txn \<noteq> StateActive then (Returned txnID (Some NotActive), c, [], w)
         else if tx_Writes txn = [] then (Returned txnID None, c, [], w)
         else (case group_by_shard (co_router c) (tx_Writes txn) of
                 [(shard, ws)] \<Rightarrow> (SendingOneShot txnID shard ws, c, [], w)
               | g \<Rightarrow> (Preparing txnID g (flatten (ord1 g)), c, [], w)))"
| "advance http ord1 ord2 now (SendingOneShot txnID shard ws) c w = Some (
     case sendOneShot http shard ws txnID now w of
       (Some err, w') \<Rightarrow> (Failing txnID (OneShotFailed err), c, [], w')
     | (None, w') \<Rightarrow> (SentOneShot txnID, c, [], w'))"
| "advance http ord1 ord2 now (SentOneShot txnID) c w = Some (Returned txnID None, set_state txnID StateCommitted c, [], w)"
| "advance http ord1 ord2 now (Preparing txnID g ((shard, x) # rest)) c w = Some (
     case sendPrepare http shard (wi_Key x) (wi_Value x) txnID w of
       (Some err, w') \<Rightarrow> (Failing txnID (PrepareFailed shard (wi_Key x) err), c, [], w')
     | (None, w') \<Rightarrow> (Preparing txnID g rest, c, [], w'))"
| "advance http ord1 ord2 now (Preparing txnID g []) c w = Some (
     Returned txnID None, set_state txnID StateCommitted c,
     map (\<lambda>(shard, x). commit_call shard (wi_Key x) txnID now) (flatten (ord2 g)), w)"
| "advance http ord1 ord2 now (Failing txnID err) c w = Some (
     case coord_Abort txnID c of (c', calls, _) \<Rightarrow> (Returned txnID (Some err), c', calls, w))"
| "advance http ord1 ord2 now (Returned txnID res) c w = None"

section \<open>All methods at once\<close>

record 'w conc =
  cc_coord :: Coordinator
  cc_commits :: "commit_pc list"   \<comment> \<open>the calls of \<open>Commit\<close>, the finished ones too\<close>
  cc_calls :: "http_call list"     \<comment> \<open>the requests that goroutines are about to send\<close>
  cc_net :: 'w

text \<open>What clients do; all else is internal.  Two transactions never begin in the same nanosecond.\<close>

datatype client_event = DoBegin u64 | DoAddWrite bytes bytes bytes | DoAbort bytes | DoCommit bytes | Internal

inductive conc_step ::
  "'w http \<Rightarrow> ('w \<Rightarrow> 'w \<Rightarrow> bool) \<Rightarrow> (groups \<Rightarrow> groups) \<Rightarrow> (groups \<Rightarrow> groups) \<Rightarrow> client_event \<Rightarrow> 'w conc \<Rightarrow> 'w conc \<Rightarrow> bool"
  for http tau ord1 ord2 where
  do_begin: "Begin now (cc_coord s) = (c', txnID) \<Longrightarrow> co_transactions (cc_coord s) txnID = None \<Longrightarrow>
    conc_step http tau ord1 ord2 (DoBegin now) s (s\<lparr>cc_coord := c'\<rparr>)"
| do_add_write: "AddWrite txnID key value (cc_coord s) = (c', None) \<Longrightarrow>
    conc_step http tau ord1 ord2 (DoAddWrite txnID key value) s (s\<lparr>cc_coord := c'\<rparr>)"
| do_abort: "coord_Abort txnID (cc_coord s) = (c', calls, None) \<Longrightarrow>
    conc_step http tau ord1 ord2 (DoAbort txnID) s (s\<lparr>cc_coord := c', cc_calls := cc_calls s @ calls\<rparr>)"
| do_commit: "conc_step http tau ord1 ord2 (DoCommit txnID) s (s\<lparr>cc_commits := cc_commits s @ [Entered txnID]\<rparr>)"
| advances: "i < length (cc_commits s) \<Longrightarrow>
    advance http ord1 ord2 now (cc_commits s ! i) (cc_coord s) (cc_net s) = Some (pc', c', calls, w') \<Longrightarrow>
    conc_step http tau ord1 ord2 Internal s
      \<lparr>cc_coord = c', cc_commits = (cc_commits s)[i := pc'], cc_calls = cc_calls s @ calls, cc_net = w'\<rparr>"
| arrives: "cc_calls s = xs @ call # ys \<Longrightarrow>
    conc_step http tau ord1 ord2 Internal s (s\<lparr>cc_calls := xs @ ys, cc_net := snd (http call (cc_net s))\<rparr>)"
| works: "tau (cc_net s) w' \<Longrightarrow> conc_step http tau ord1 ord2 Internal s (s\<lparr>cc_net := w'\<rparr>)"

inductive conc_run ::
  "'w http \<Rightarrow> ('w \<Rightarrow> 'w \<Rightarrow> bool) \<Rightarrow> (groups \<Rightarrow> groups) \<Rightarrow> (groups \<Rightarrow> groups) \<Rightarrow> 'w conc \<Rightarrow> client_event list \<Rightarrow> 'w conc \<Rightarrow> bool"
  for http tau ord1 ord2 s0 where
  run_start: "conc_run http tau ord1 ord2 s0 [] s0"
| run_step: "conc_run http tau ord1 ord2 s0 es s \<Longrightarrow> conc_step http tau ord1 ord2 e s s' \<Longrightarrow>
    conc_run http tau ord1 ord2 s0 (es @ [e]) s'"

inductive_cases conc_stepE: "conc_step http tau ord1 ord2 e s s'"

definition commits :: "client_event list \<Rightarrow> bytes list" where
  "commits es = concat (map (\<lambda>e. case e of DoCommit txnID \<Rightarrow> [txnID] | _ \<Rightarrow> []) es)"

definition only_commits :: "client_event list \<Rightarrow> bool" where
  "only_commits es \<longleftrightarrow> (\<forall>e \<in> set es. case e of Internal \<Rightarrow> True | DoCommit _ \<Rightarrow> True | _ \<Rightarrow> False)"

lemma commits_append [simp]: "commits (es @ fs) = commits es @ commits fs"
  by (simp add: commits_def)

lemma only_commits_append [simp]: "only_commits (es @ fs) \<longleftrightarrow> only_commits es \<and> only_commits fs"
  by (auto simp: only_commits_def)

section \<open>Commit alone\<close>

text \<open>The network, the coordinator and one \<open>Commit\<close> among others.\<close>

lemma conc_run_trans:
  "conc_run http tau ord1 ord2 s1 fs s2 \<Longrightarrow> conc_run http tau ord1 ord2 s0 es s1 \<Longrightarrow> conc_run http tau ord1 ord2 s0 (es @ fs) s2"
proof (induction rule: conc_run.induct)
  case run_start
  then show ?case by simp
next
  case (run_step fs s e s')
  from conc_run.run_step [OF run_step.IH [OF run_step.prems] run_step.hyps(2)] show ?case by simp
qed

lemma advance_run:
  assumes "advance http ord1 ord2 now pc c w = Some (pc', c', calls, w')"
  shows "conc_run http tau ord1 ord2 \<lparr>cc_coord = c, cc_commits = ps @ [pc], cc_calls = cs, cc_net = w\<rparr> [Internal]
    \<lparr>cc_coord = c', cc_commits = ps @ [pc'], cc_calls = cs @ calls, cc_net = w'\<rparr>"
proof -
  let ?s = "\<lparr>cc_coord = c, cc_commits = ps @ [pc], cc_calls = cs, cc_net = w\<rparr>"
  have "conc_step http tau ord1 ord2 Internal ?s \<lparr>cc_coord = c', cc_commits = (cc_commits ?s)[length ps := pc'],
      cc_calls = cc_calls ?s @ calls, cc_net = w'\<rparr>"
    by (rule advances [where now = now]) (use assms in simp_all)
  with run_step [OF run_start, of http tau ord1 ord2 Internal ?s] show ?thesis by simp
qed

lemma prepare_run:
  assumes "prepare_loop http txnID ps w = (res, w')"
  shows "\<exists>es. only_commits es \<and> commits es = [] \<and>
    conc_run http tau ord1 ord2 \<lparr>cc_coord = c, cc_commits = qs @ [Preparing txnID g ps], cc_calls = cs, cc_net = w\<rparr> es
      \<lparr>cc_coord = c, cc_commits = qs @ [case res of None \<Rightarrow> Preparing txnID g [] | Some err \<Rightarrow> Failing txnID err], cc_calls = cs, cc_net = w'\<rparr>"
  using assms
proof (induction ps arbitrary: w)
  case Nil
  then show ?case using run_start by (intro exI [of _ "[]"]) (auto simp: only_commits_def commits_def)
next
  case (Cons p ps)
  obtain shard x where p: "p = (shard, x)" by fastforce
  obtain e w1 where send: "sendPrepare http shard (wi_Key x) (wi_Value x) txnID w = (e, w1)" by fastforce
  let ?st = "\<lambda>pc w. \<lparr>cc_coord = c, cc_commits = qs @ [pc], cc_calls = cs, cc_net = w\<rparr>"
  note one = advance_run [where http = http and ?ord1.0 = ord1 and ?ord2.0 = ord2 and pc = "Preparing txnID g (p # ps)" and c = c and w = w
      and c' = c and calls = "[]" and w' = w1 and ps = qs and cs = cs and tau = tau]
  show ?case
  proof (cases e)
    case None
    with Cons.prems send p have "prepare_loop http txnID ps w1 = (res, w')" by simp
    from Cons.IH [OF this] obtain es where es: "only_commits es" "commits es = []" "conc_run http tau ord1 ord2 (?st (Preparing txnID g ps) w1) es
        (?st (case res of None \<Rightarrow> Preparing txnID g [] | Some err \<Rightarrow> Failing txnID err) w')" by blast
    have "conc_run http tau ord1 ord2 (?st (Preparing txnID g (p # ps)) w) [Internal] (?st (Preparing txnID g ps) w1)"
      using one [where pc' = "Preparing txnID g ps"] send None p by simp
    from conc_run_trans [OF es(3) this] es(1,2) show ?thesis
      by (intro exI [of _ "[Internal] @ es"]) (simp add: only_commits_def commits_def)
  next
    case (Some err)
    with Cons.prems send p have "res = Some (PrepareFailed shard (wi_Key x) err)" "w' = w1" by simp_all
    with one [where pc' = "Failing txnID (PrepareFailed shard (wi_Key x) err)"] send Some p show ?thesis
      by (intro exI [of _ "[Internal]"]) (simp add: only_commits_def commits_def)
  qed
qed

lemma fail_run:
  assumes "coord_Abort txnID c = (c', calls, e)"
  shows "conc_run http tau ord1 ord2 \<lparr>cc_coord = c, cc_commits = ps @ [Failing txnID err], cc_calls = cs, cc_net = w\<rparr> [Internal]
    \<lparr>cc_coord = c', cc_commits = ps @ [Returned txnID (Some err)], cc_calls = cs @ calls, cc_net = w\<rparr>"
  by (rule advance_run) (simp add: assms)

lemma commit_from_entered:
  assumes "coord_Commit http ord1 ord2 now txnID c w = (c', calls, w', err)"
  shows "\<exists>es. only_commits es \<and> commits es = [] \<and>
    conc_run http tau ord1 ord2 \<lparr>cc_coord = c, cc_commits = ps @ [Entered txnID], cc_calls = cs, cc_net = w\<rparr> es
      \<lparr>cc_coord = c', cc_commits = ps @ [Returned txnID err], cc_calls = cs @ calls, cc_net = w'\<rparr>"
proof -
  let ?st = "\<lambda>c pc cs w. \<lparr>cc_coord = c, cc_commits = ps @ [pc], cc_calls = cs, cc_net = w\<rparr>"
  let ?run = "conc_run http tau ord1 ord2" and ?goal = "\<lambda>es. only_commits es \<and> commits es = []"
  have I: "?goal [Internal]" by (simp add: only_commits_def commits_def)
  have II: "?goal es \<Longrightarrow> ?goal fs \<Longrightarrow> ?goal (es @ fs)" for es fs by simp
  note one = advance_run [where http = http and ?ord1.0 = ord1 and ?ord2.0 = ord2 and tau = tau and ps = ps]
  obtain a calls0 e0 where ab: "coord_Abort txnID c = (a, calls0, e0)" by (metis surj_pair)
  show ?thesis
  proof (cases "\<exists>txn. co_transactions c txnID = Some txn \<and> tx_State txn = StateActive \<and> tx_Writes txn \<noteq> []")
    case False
    then have "advance http ord1 ord2 now (Entered txnID) c w = Some (Returned txnID err, c', calls, w')"
      using assms by (auto simp: coord_Commit_def split: option.splits if_splits)
    from one [OF this] I show ?thesis by blast
  next
    case True
    then obtain txn where txn: "co_transactions c txnID = Some txn" "tx_State txn = StateActive" "tx_Writes txn \<noteq> []" by blast
    let ?g = "group_by_shard (co_router c) (tx_Writes txn)"
    show ?thesis
    proof (cases "\<exists>shard ws. ?g = [(shard, ws)]")
      case True
      then obtain shard ws where g: "?g = [(shard, ws)]" by blast
      obtain e w1 where send: "sendOneShot http shard ws txnID now w = (e, w1)" by fastforce
      have 1: "?run (?st c (Entered txnID) cs w) [Internal] (?st c (SendingOneShot txnID shard ws) (cs @ []) w)"
        by (rule one [where now = now]) (simp add: txn g)
      have 2: "?run (?st c (SendingOneShot txnID shard ws) (cs @ []) w) [Internal]
          (?st c (case e of None \<Rightarrow> SentOneShot txnID | Some x \<Rightarrow> Failing txnID (OneShotFailed x)) ((cs @ []) @ []) w1)"
        by (rule one [where now = now]) (simp add: send split: option.split)
      have 3: "?run (?st c (case e of None \<Rightarrow> SentOneShot txnID | Some x \<Rightarrow> Failing txnID (OneShotFailed x)) ((cs @ []) @ []) w1) [Internal]
          (?st c' (Returned txnID err) (((cs @ []) @ []) @ calls) w')"
        by (rule one [where now = now]) (use assms in \<open>auto simp: coord_Commit_def txn g send ab split: option.splits\<close>)
      from conc_run_trans [OF 3 conc_run_trans [OF 2 1]] show ?thesis
        using II [OF I II [OF I I]] by (intro exI [of _ "[Internal] @ [Internal] @ [Internal]"]) simp
    next
      case several: False
      obtain e w1 where loop: "prepare_loop http txnID (flatten (ord1 ?g)) w = (e, w1)" by fastforce
      have sel: "(case ?g of [(shard, ws)] \<Rightarrow> f shard ws | _ \<Rightarrow> z) = z" for f and z :: "Coordinator \<times> http_call list \<times> 'a \<times> txn_error option"
        using several by (auto split: list.split)
      have 1: "?run (?st c (Entered txnID) cs w) [Internal] (?st c (Preparing txnID ?g (flatten (ord1 ?g))) (cs @ []) w)"
        by (rule one [where now = now]) (use several in \<open>auto simp: txn split: list.splits\<close>)
      obtain es where 2: "?goal es" "?run (?st c (Preparing txnID ?g (flatten (ord1 ?g))) (cs @ []) w) es
          (?st c (case e of None \<Rightarrow> Preparing txnID ?g [] | Some x \<Rightarrow> Failing txnID x) (cs @ []) w1)"
        using prepare_run [OF loop] by blast
      have 3: "?run (?st c (case e of None \<Rightarrow> Preparing txnID ?g [] | Some x \<Rightarrow> Failing txnID x) (cs @ []) w1) [Internal]
          (?st c' (Returned txnID err) ((cs @ []) @ calls) w')"
        by (rule one [where now = now])
          (use assms in \<open>auto simp: coord_Commit_def txn sel Let_def loop ab split: option.splits\<close>)
      from conc_run_trans [OF 3 conc_run_trans [OF 2(2) 1]] show ?thesis
        using II [OF II [OF I 2(1)] I] by (intro exI [of _ "([Internal] @ es) @ [Internal]"]) simp
    qed
  qed
qed

section \<open>Calls that arrive, and a rollback that comes too late\<close>

lemma net_exec_appendD: "net_exec http tau (cs @ ds) w w2 \<Longrightarrow> \<exists>w1. net_exec http tau cs w w1 \<and> net_exec http tau ds w1 w2"
proof (induction "cs @ ds" w w2 arbitrary: cs rule: net_exec.induct)
  case (exec_done w)
  then show ?case by (auto intro: net_exec.exec_done)
next
  case (exec_tau w w1 w2)
  then show ?case by (blast intro: net_exec.exec_tau)
next
  case (exec_call cs' c w w2)
  show ?case
  proof (cases cs)
    case Nil
    with exec_call show ?thesis by (metis append_Nil net_exec.exec_call net_exec.exec_done)
  next
    case (Cons c1 cs1)
    with exec_call(3) have "c1 = c" "cs' = cs1 @ ds" by simp_all
    with exec_call(2) Cons show ?thesis by (blast intro: net_exec.exec_call)
  qed
qed

lemma exec_run:
  assumes "net_exec http tau cs w w'" and "mset calls = mset cs"
  shows "\<exists>n. conc_run http tau ord1 ord2 \<lparr>cc_coord = c, cc_commits = pcs, cc_calls = calls, cc_net = w\<rparr> (replicate n Internal)
    \<lparr>cc_coord = c, cc_commits = pcs, cc_calls = [], cc_net = w'\<rparr>"
  using assms
proof (induction arbitrary: calls rule: net_exec.induct)
  case (exec_done w)
  then show ?case using run_start by (intro exI [of _ 0]) simp
next
  case (exec_tau w w1 cs w2)
  let ?st = "\<lambda>calls w. \<lparr>cc_coord = c, cc_commits = pcs, cc_calls = calls, cc_net = w\<rparr>"
  have "conc_step http tau ord1 ord2 Internal (?st calls w) (?st calls w1)" using works [of tau "?st calls w"] exec_tau.hyps(1) by simp
  from run_step [OF run_start this] have 1: "conc_run http tau ord1 ord2 (?st calls w) [Internal] (?st calls w1)" by simp
  obtain n where "conc_run http tau ord1 ord2 (?st calls w1) (replicate n Internal) (?st [] w2)" using exec_tau by blast
  from conc_run_trans [OF this 1] show ?case by (intro exI [of _ "Suc n"]) simp
next
  case (exec_call cs call w w2)
  let ?st = "\<lambda>calls w. \<lparr>cc_coord = c, cc_commits = pcs, cc_calls = calls, cc_net = w\<rparr>"
  have "call \<in> set calls" using mset_eq_setD [OF exec_call.prems] by simp
  then obtain xs ys where xy: "calls = xs @ call # ys" by (meson split_list)
  then have "mset (xs @ ys) = mset cs" using exec_call.prems by simp
  then obtain n where "conc_run http tau ord1 ord2 (?st (xs @ ys) (snd (http call w))) (replicate n Internal) (?st [] w2)"
    using exec_call.IH by blast
  moreover have "conc_step http tau ord1 ord2 Internal (?st calls w) (?st (xs @ ys) (snd (http call w)))"
    using arrives [of "?st calls w" xs call ys] xy by simp
  from run_step [OF run_start this] have "conc_run http tau ord1 ord2 (?st calls w) [Internal] (?st (xs @ ys) (snd (http call w)))" by simp
  ultimately show ?case using conc_run_trans by (intro exI [of _ "Suc n"]) fastforce
qed

lemma abort_after_write: "may_take txn (snd c) \<Longrightarrow> cell_cmd (CAbort key txn) (cell_write txn v ts c) = cell_write txn v ts c"
  by (cases c) (simp add: cell_write_def)

context txn_network
begin

text \<open>All prepares, then all commits, then the aborts of a rollback that was accepted in between.\<close>

lemma late_abort_effect:
  assumes "winv w" and "txn_ok txn" and "distinct (map wi_Key ws)"
    and ok: "\<forall>p \<in> set (located r ws). addr_ok (fst p) \<and> state w (fst p) \<noteq> None \<and> arg_ok (wi_Key (snd p)) \<and> arg_ok (wi_Value (snd p))"
    and ps: "mset ps = mset (located r ws)" and qs: "mset qs = mset (located r ws)"
    and "prepare_loop http txn ps w = (e, w0)"
    and "net_exec http tau (map (\<lambda>p. commit_call (fst p) (wi_Key (snd p)) txn ts) qs) w0 w1"
    and "net_exec http tau (map (\<lambda>p. abort_call (fst p) (wi_Key (snd p)) txn) (located r ws)) w1 w2"
    and x: "x \<in> set ws"
  shows "cell_of (state w2) (Locate r (wi_Key x)) (wi_Key x) =
    map_option (\<lambda>c. cell_cmd (CAbort (wi_Key x) txn) (cell_write txn (wi_Value x) ts c)) (cell_of (state w) (Locate r (wi_Key x)) (wi_Key x))"
proof -
  have sets: "set ps = set (located r ws)" "set qs = set (located r ws)" using ps qs by (metis mset_eq_setD)+
  have p0: "winv w0" "state w0 = fold spec_op (map (prepare_op txn) ps) (state w)"
    using prepare_loop_effect [OF assms(1,2) _ assms(7)] ok sets by auto
  have p1: "winv w1" "state w1 = fold spec_op (map (commit_op txn ts) qs) (state w0)"
    using exec_commits [OF assms(8) p0(1) assms(2)] ok sets by (auto simp: p0(2) fold_spec_op_dom)
  have p2: "state w2 = fold spec_op (map (abort_op txn) (located r ws)) (state w1)"
    using exec_aborts [OF assms(9) p1(1) assms(2)] ok by (auto simp: p1(2) p0(2) fold_spec_op_dom)
  have d: "distinct (map (\<lambda>p. wi_Key (snd p)) ps)" by (rule distinct_located [OF ps assms(3)])
  have dl: "distinct (map (\<lambda>p. wi_Key (snd p)) (located r ws))" by (rule distinct_located [OF refl assms(3)])
  let ?p = "(Locate r (wi_Key x), x)"
  have mem: "?p \<in> set (located r ws)" using x by (simp add: located_def)
  have "mset qs = mset ps" using ps qs by simp
  from two_phase_cells(1) [OF d this, of ?p txn ts "state w"] mem sets
  have w: "cell_of (state w1) (Locate r (wi_Key x)) (wi_Key x) =
      map_option (cell_write txn (wi_Value x) ts) (cell_of (state w) (Locate r (wi_Key x)) (wi_Key x))" by (simp add: p1(2) p0(2))
  from cells_of_ops(1) [OF dl, of "\<lambda>p. CAbort (wi_Key (snd p)) txn" ?p "state w1"] mem
  show ?thesis by (simp add: p2 w option.map_comp comp_def del: cell_cmd.simps)
qed

end

text \<open>
  The methods one after the other are one of the schedules: what \<open>Commit\<close> does as a whole,
  on its errors too, it also does point by point when nothing else runs, among any other
  commits and calls under way.
\<close>

theorem commit_alone:
  assumes "coord_Commit http ord1 ord2 now txnID c w = (c', calls, w', err)"
  shows "\<exists>es. only_commits es \<and> commits es = [txnID] \<and>
    conc_run http tau ord1 ord2 \<lparr>cc_coord = c, cc_commits = pcs, cc_calls = cs, cc_net = w\<rparr> es
      \<lparr>cc_coord = c', cc_commits = pcs @ [Returned txnID err], cc_calls = cs @ calls, cc_net = w'\<rparr>"
proof -
  let ?s = "\<lparr>cc_coord = c, cc_commits = pcs, cc_calls = cs, cc_net = w\<rparr>"
  from commit_from_entered [OF assms] obtain es where es: "only_commits es" "commits es = []"
    "conc_run http tau ord1 ord2 \<lparr>cc_coord = c, cc_commits = pcs @ [Entered txnID], cc_calls = cs, cc_net = w\<rparr> es
      \<lparr>cc_coord = c', cc_commits = pcs @ [Returned txnID err], cc_calls = cs @ calls, cc_net = w'\<rparr>" by blast
  have "conc_run http tau ord1 ord2 ?s [DoCommit txnID] (?s\<lparr>cc_commits := cc_commits ?s @ [Entered txnID]\<rparr>)"
    using run_step [OF run_start do_commit] by (metis append_Nil)
  from conc_run_trans [OF es(3), of ?s "[DoCommit txnID]"] this es(1,2) show ?thesis
    by (intro exI [of _ "[DoCommit txnID] @ es"]) (simp add: only_commits_def commits_def)
qed

theorem commit_alone_witness:
  "\<exists>es s. commits es = [lit ''txn-7''] \<and> cc_commits s = [Returned (lit ''txn-7'') None] \<and>
     conc_run always_ok (\<lambda>_ _. False) id id \<lparr>cc_coord = sample_coordinator, cc_commits = [], cc_calls = [], cc_net = ()\<rparr> es s"
proof -
  obtain c' calls w' err where r: "coord_Commit always_ok id id 9 (lit ''txn-7'') sample_coordinator () = (c', calls, w', err)"
    by (metis surj_pair)
  have "snd (snd (snd (coord_Commit always_ok id id 9 (lit ''txn-7'') sample_coordinator ()))) = None" by code_simp
  then have "err = None" by (simp add: r)
  with commit_alone [OF r, of "\<lambda>_ _. False" "[]" "[]"] show ?thesis
    by (metis append_Nil conc.select_convs(2))
qed

end
