(* ===== verification/Concurrent_Commit.thy ===== *)
theory Concurrent_Commit
  imports Coordinator_Steps Cluster_Txn
begin

text \<open>
  Commits that run at the same time.  The locale \<open>batch_network\<close> adds to \<open>txn_network\<close> what a
  shard does with a batch; inside it, an invariant ties every point of every \<open>Commit\<close> under way
  and every call under way to the versions and intents of the keys it writes, and every step
  keeps it when no two of the transactions write the same key.
\<close>

section \<open>How far a transaction has come\<close>

text \<open>What has happened to the cell of one write.\<close>

datatype progress = Untouched | Holding | Written u64

fun expected :: "progress \<Rightarrow> bytes \<Rightarrow> bytes \<Rightarrow> cell \<Rightarrow> cell" where
  "expected Untouched txn v c = c"
| "expected Holding txn v c = cell_cmd (CPrepare [] (Some v) txn) c"
| "expected (Written ts) txn v c = cell_write txn v ts c"

text \<open>No two writes of the transactions have the same key.\<close>

definition separate :: "bytes set \<Rightarrow> (bytes \<Rightarrow> WriteIntent list) \<Rightarrow> bool" where
  "separate D W \<longleftrightarrow> (\<forall>t \<in> D. distinct (map wi_Key (W t))) \<and>
     (\<forall>t \<in> D. \<forall>u \<in> D. \<forall>x \<in> set (W t). \<forall>y \<in> set (W u). wi_Key x = wi_Key y \<longrightarrow> t = u)"

lemma separateD:
  assumes "separate D W" and "t \<in> D" and "u \<in> D" and "x \<in> set (W t)" and "y \<in> set (W u)" and "wi_Key x = wi_Key y"
  shows "t = u \<and> x = y"
proof -
  have "t = u" using assms unfolding separate_def by blast
  moreover have "inj_on wi_Key (set (W t))" using assms(1,2) by (simp add: separate_def distinct_map)
  ultimately show ?thesis using assms(4-6) by (auto dest: inj_onD)
qed

definition cells_as ::
  "Router \<Rightarrow> bytes set \<Rightarrow> (bytes \<Rightarrow> WriteIntent list) \<Rightarrow> (bytes \<Rightarrow> WriteIntent \<Rightarrow> progress) \<Rightarrow> net_state \<Rightarrow> net_state \<Rightarrow> bool" where
  "cells_as r D W prog M0 M \<longleftrightarrow>
     (\<forall>t \<in> D. \<forall>x \<in> set (W t). cell_of M (Locate r (wi_Key x)) (wi_Key x) =
        map_option (expected (prog t x) t (wi_Value x)) (cell_of M0 (Locate r (wi_Key x)) (wi_Key x))) \<and>
     (\<forall>a k. (\<forall>t \<in> D. \<forall>x \<in> set (W t). (Locate r (wi_Key x), wi_Key x) \<noteq> (a, k)) \<longrightarrow> cell_of M a k = cell_of M0 a k)"

lemma cells_as_update:
  assumes "cells_as r D W prog M0 M" and "separate D W" and "t \<in> D" and "X \<subseteq> set (W t)"
    and X: "\<forall>x \<in> X. cell_of M' (Locate r (wi_Key x)) (wi_Key x) = map_option (f x) (cell_of M (Locate r (wi_Key x)) (wi_Key x))"
    and other: "\<forall>a k. (\<forall>x \<in> X. (Locate r (wi_Key x), wi_Key x) \<noteq> (a, k)) \<longrightarrow> cell_of M' a k = cell_of M a k"
    and f: "\<forall>x \<in> X. \<forall>c. f x (expected (prog t x) t (wi_Value x) c) = expected p t (wi_Value x) c"
  shows "cells_as r D W (prog(t := (\<lambda>x. if x \<in> X then p else prog t x))) M0 M'"
proof -
  let ?prog = "prog(t := (\<lambda>x. if x \<in> X then p else prog t x))" and ?loc = "\<lambda>x. Locate r (wi_Key x)"
  have "cell_of M' (?loc y) (wi_Key y) = map_option (expected (?prog u y) u (wi_Value y)) (cell_of M0 (?loc y) (wi_Key y))"
    if u: "u \<in> D" "y \<in> set (W u)" for u y
  proof (cases "u = t \<and> y \<in> X")
    case True
    then have "cell_of M' (?loc y) (wi_Key y) = map_option (f y) (map_option (expected (prog t y) t (wi_Value y)) (cell_of M0 (?loc y) (wi_Key y)))"
      using X assms(1) u by (auto simp: cells_as_def)
    moreover have "f y \<circ> expected (prog t y) t (wi_Value y) = expected p t (wi_Value y)"
      using f True by (intro ext) (simp only: comp_apply)
    ultimately show ?thesis using True by (simp add: option.map_comp)
  next
    case False
    have "(?loc x, wi_Key x) \<noteq> (?loc y, wi_Key y)" if x: "x \<in> X" for x
      using separateD [OF assms(2,3) u(1) _ u(2), of x] assms(4) x False by auto
    with other have "cell_of M' (?loc y) (wi_Key y) = cell_of M (?loc y) (wi_Key y)" by blast
    with assms(1) u False show ?thesis by (auto simp: cells_as_def)
  qed
  moreover have "cell_of M' a k = cell_of M0 a k" if "\<forall>u \<in> D. \<forall>y \<in> set (W u). (?loc y, wi_Key y) \<noteq> (a, k)" for a k
  proof -
    have "\<forall>x \<in> X. (?loc x, wi_Key x) \<noteq> (a, k)" using that assms(3,4) by blast
    with other have "cell_of M' a k = cell_of M a k" by blast
    moreover have "cell_of M a k = cell_of M0 a k" using assms(1) that unfolding cells_as_def by blast
    ultimately show ?thesis by simp
  qed
  ultimately show ?thesis unfolding cells_as_def by blast
qed

lemma cells_as_known:
  assumes "cells_as r D W prog M0 M" and "t \<in> D" and "x \<in> set (W t)" and "M0 (Locate r (wi_Key x)) \<noteq> None"
  shows "M (Locate r (wi_Key x)) \<noteq> None"
proof -
  have "cell_of M (Locate r (wi_Key x)) (wi_Key x) =
      map_option (expected (prog t x) t (wi_Value x)) (cell_of M0 (Locate r (wi_Key x)) (wi_Key x))"
    using assms(1-3) unfolding cells_as_def by blast
  with assms(4) show ?thesis by (auto simp: cell_of_def)
qed

text \<open>A commit after a prepare.\<close>

lemma expected_commit: "cell_cmd (CCommit key txn ts) (expected Holding txn v c) = expected (Written ts) txn v c"
  using cell_write_two_phases [of key txn ts v c] by (cases c) simp

lemma expected_prepare: "cell_cmd (CPrepare key (Some v) txn) (expected Untouched txn v c) = expected Holding txn v c"
  by (cases c) simp

section \<open>The invariant\<close>

text \<open>A commit call under way: its transaction, timestamp and write.\<close>

type_synonym pending = "bytes \<times> u64 \<times> WriteIntent"

fun pending_call :: "Router \<Rightarrow> pending \<Rightarrow> http_call" where
  "pending_call r (t, ts, x) = commit_call (Locate r (wi_Key x)) (wi_Key x) t ts"

fun pc_ok :: "Router \<Rightarrow> (bytes \<Rightarrow> WriteIntent list) \<Rightarrow> (bytes \<Rightarrow> WriteIntent \<Rightarrow> progress) \<Rightarrow> pending list \<Rightarrow> commit_pc \<Rightarrow> bool" where
  "pc_ok r W prog pend (Entered t) \<longleftrightarrow> (\<forall>x \<in> set (W t). prog t x = Untouched)"
| "pc_ok r W prog pend (SendingOneShot t shard ws) \<longleftrightarrow> (\<forall>x \<in> set (W t). prog t x = Untouched \<and> Locate r (wi_Key x) = shard) \<and>
     mset ws = mset (W t) \<and> ws \<noteq> []"
| "pc_ok r W prog pend (SentOneShot t) \<longleftrightarrow> (\<exists>ts. \<forall>x \<in> set (W t). prog t x = Written ts)"
| "pc_ok r W prog pend (Preparing t g todo) \<longleftrightarrow> g = group_by_shard r (W t) \<and> distinct todo \<and> set todo \<subseteq> set (located r (W t)) \<and>
     (\<forall>x \<in> set (W t). prog t x = (if (Locate r (wi_Key x), x) \<in> set todo then Untouched else Holding))"
| "pc_ok r W prog pend (Failing t err) \<longleftrightarrow> False"
| "pc_ok r W prog pend (Returned t res) \<longleftrightarrow> res = None \<and> (\<exists>ts. (\<forall>ts' x. (t, ts', x) \<in> set pend \<longrightarrow> ts' = ts) \<and>
     (\<forall>x \<in> set (W t). prog t x = (if (t, ts, x) \<in> set pend then Holding else Written ts)))"

lemma pc_ok_cong:
  assumes "prog' (pc_txn pc) = prog (pc_txn pc)" and "\<And>ts x. (pc_txn pc, ts, x) \<in> set pend' \<longleftrightarrow> (pc_txn pc, ts, x) \<in> set pend"
  shows "pc_ok r W prog' pend' pc \<longleftrightarrow> pc_ok r W prog pend pc"
  using assms by (cases pc) simp_all

fun finished :: "commit_pc \<Rightarrow> bool" where
  "finished (Returned t res) = True"
| "finished pc = False"

definition txns_ok :: "bytes set \<Rightarrow> (bytes \<Rightarrow> WriteIntent list) \<Rightarrow> commit_pc list \<Rightarrow> Coordinator \<Rightarrow> bool" where
  "txns_ok D W pcs c \<longleftrightarrow> (\<forall>t \<in> D. \<exists>txn. co_transactions c t = Some txn \<and> tx_Writes txn = W t \<and>
     ((\<forall>pc \<in> set pcs. pc_txn pc = t \<longrightarrow> pc = Entered t) \<longrightarrow> tx_State txn = StateActive))"

definition pend_ok :: "(bytes \<Rightarrow> WriteIntent list) \<Rightarrow> commit_pc list \<Rightarrow> pending list \<Rightarrow> bool" where
  "pend_ok W pcs pend \<longleftrightarrow> distinct pend \<and> (\<forall>(t, ts, x) \<in> set pend. x \<in> set (W t) \<and> Returned t None \<in> set pcs)"

text \<open>The program counters, and what they say of the writes.\<close>

definition pcs_ok :: "Router \<Rightarrow> bytes set \<Rightarrow> (bytes \<Rightarrow> WriteIntent list) \<Rightarrow> (bytes \<Rightarrow> WriteIntent \<Rightarrow> progress) \<Rightarrow> pending list \<Rightarrow>
    commit_pc list \<Rightarrow> bool" where
  "pcs_ok r D W prog pend pcs \<longleftrightarrow> distinct (map pc_txn pcs) \<and> pc_txn ` set pcs \<subseteq> D \<and> pend_ok W pcs pend \<and>
     (\<forall>pc \<in> set pcs. pc_ok r W prog pend pc) \<and>
     (\<forall>t \<in> D - pc_txn ` set pcs. \<forall>x \<in> set (W t). prog t x = Untouched)"

lemma same_txn:
  assumes "distinct (map pc_txn pcs)" and "i < length pcs" and "pc \<in> set pcs" and "pc_txn pc = pc_txn (pcs ! i)"
  shows "pc = pcs ! i"
proof -
  have "inj_on pc_txn (set pcs)" using assms(1) by (simp add: distinct_map)
  with assms show ?thesis by (auto dest: inj_onD)
qed

lemma set_list_update:
  assumes "distinct (map pc_txn pcs)" and "i < length pcs" and "pc_txn pc' = pc_txn (pcs ! i)"
  shows "set (pcs[i := pc']) = insert pc' {pc \<in> set pcs. pc_txn pc \<noteq> pc_txn pc'}"
proof -
  have "distinct pcs" using assms(1) by (simp add: distinct_map)
  then have "set (pcs[i := pc']) = insert pc' (set pcs - {pcs ! i})" using assms(2) by (rule set_update_distinct)
  moreover have "set pcs - {pcs ! i} = {pc \<in> set pcs. pc_txn pc \<noteq> pc_txn pc'}"
    using same_txn [OF assms(1,2)] assms(3) by auto
  ultimately show ?thesis by simp
qed

text \<open>Before it has returned, a commit has no call under way.\<close>

lemma no_pending:
  assumes "pcs_ok r D W prog pend pcs" and "i < length pcs" and "\<not> finished (pcs ! i)"
  shows "(pc_txn (pcs ! i), ts, x) \<notin> set pend"
proof
  assume "(pc_txn (pcs ! i), ts, x) \<in> set pend"
  then have "Returned (pc_txn (pcs ! i)) None \<in> set pcs" using assms(1) by (auto simp: pcs_ok_def pend_ok_def)
  then have "Returned (pc_txn (pcs ! i)) None = pcs ! i" using assms(1,2) by (intro same_txn) (simp_all add: pcs_ok_def)
  with assms(3) show False by (metis finished.simps(1))
qed

text \<open>One commit has advanced.\<close>

lemma pcs_ok_advance:
  assumes "pcs_ok r D W prog pend pcs" and "i < length pcs" and "\<not> finished (pcs ! i)" and "pc_txn pc' = pc_txn (pcs ! i)"
    and "pc_ok r W (prog(pc_txn pc' := p)) (pend @ new) pc'"
    and "\<forall>(t, ts, x) \<in> set new. t = pc_txn pc' \<and> x \<in> set (W t)" and "distinct new" and "new \<noteq> [] \<Longrightarrow> pc' = Returned (pc_txn pc') None"
  shows "pcs_ok r D W (prog(pc_txn pc' := p)) (pend @ new) (pcs[i := pc'])"
proof -
  let ?t = "pc_txn pc'"
  have d: "distinct (map pc_txn pcs)" and sub: "pc_txn ` set pcs \<subseteq> D" and pend: "pend_ok W pcs pend"
    and ok: "\<forall>pc \<in> set pcs. pc_ok r W prog pend pc" and rest: "\<forall>t \<in> D - pc_txn ` set pcs. \<forall>x \<in> set (W t). prog t x = Untouched"
    using assms(1) by (simp_all add: pcs_ok_def)
  note set = set_list_update [OF d assms(2,4)]
  have txns: "map pc_txn (pcs[i := pc']) = map pc_txn pcs"
    using assms(2,4) by (metis list_update_id map_update nth_map)
  then have img: "pc_txn ` set (pcs[i := pc']) = pc_txn ` set pcs" by (metis list.set_map)
  have new: "(?t, ts, x) \<notin> set pend" for ts x using no_pending [OF assms(1-3)] assms(4) by simp
  have "pc_ok r W (prog(?t := p)) (pend @ new) pc" if pc: "pc \<in> set (pcs[i := pc'])" for pc
  proof (cases "pc = pc'")
    case False
    then have "pc \<in> set pcs" "pc_txn pc \<noteq> ?t" using pc set by auto
    then show ?thesis using ok assms(6) by (subst pc_ok_cong [where prog = prog and pend = pend]) auto
  qed (use assms(5) in simp)
  moreover have "pend_ok W (pcs[i := pc']) (pend @ new)"
    using pend assms(6-8) new unfolding pend_ok_def set by fastforce
  moreover have "?t \<in> pc_txn ` set pcs" using assms(2,4) by simp
  ultimately show ?thesis using d sub rest by (simp add: pcs_ok_def txns img)
qed

lemma txns_ok_advance:
  assumes "txns_ok D W pcs c" and "distinct (map pc_txn pcs)" and "i < length pcs" and "pc_txn pc' = pc_txn (pcs ! i)"
    and "pc' \<noteq> Entered (pc_txn pc')" and "c' = c \<or> c' = set_state (pc_txn pc') st c"
  shows "txns_ok D W (pcs[i := pc']) c'"
  unfolding txns_ok_def
proof
  fix t
  assume "t \<in> D"
  then obtain txn where txn: "co_transactions c t = Some txn" "tx_Writes txn = W t"
    "(\<forall>pc \<in> set pcs. pc_txn pc = t \<longrightarrow> pc = Entered t) \<longrightarrow> tx_State txn = StateActive"
    using assms(1) unfolding txns_ok_def by blast
  note set = set_list_update [OF assms(2-4)]
  show "\<exists>txn. co_transactions c' t = Some txn \<and> tx_Writes txn = W t \<and>
      ((\<forall>pc \<in> set (pcs[i := pc']). pc_txn pc = t \<longrightarrow> pc = Entered t) \<longrightarrow> tx_State txn = StateActive)"
  proof (cases "t = pc_txn pc'")
    case True
    then have "\<not> (\<forall>pc \<in> set (pcs[i := pc']). pc_txn pc = t \<longrightarrow> pc = Entered t)" using assms(5) set by auto
    moreover have "\<exists>txn'. co_transactions c' t = Some txn' \<and> tx_Writes txn' = W t"
      using assms(6) txn(1,2) True by (elim disjE) (simp_all add: set_state_def)
    ultimately show ?thesis by blast
  next
    case False
    then have "(\<forall>pc \<in> set (pcs[i := pc']). pc_txn pc = t \<longrightarrow> pc = Entered t) \<longleftrightarrow> (\<forall>pc \<in> set pcs. pc_txn pc = t \<longrightarrow> pc = Entered t)"
      unfolding set by auto
    moreover have "co_transactions c' t = co_transactions c t"
      using assms(6) False by (elim disjE) (simp_all add: set_state_def)
    ultimately show ?thesis using txn by simp
  qed
qed

lemma distinct_flatten_group:
  assumes "distinct (map wi_Key ws)" and "\<forall>g. mset (ord g) = mset g"
  shows "distinct (flatten (ord (group_by_shard r ws)))" and "set (flatten (ord (group_by_shard r ws))) = set (located r ws)"
proof -
  have m: "mset (flatten (ord (group_by_shard r ws))) = mset (located r ws)" by (rule mset_visited [OF assms(2)])
  then show "set (flatten (ord (group_by_shard r ws))) = set (located r ws)" by (rule mset_eq_setD)
  have "distinct (map (\<lambda>p. wi_Key (snd p)) (flatten (ord (group_by_shard r ws))))" by (rule distinct_located [OF m assms(1)])
  then show "distinct (flatten (ord (group_by_shard r ws)))" by (simp add: distinct_map)
qed

section \<open>The interface with batches\<close>

locale batch_network = txn_network +
  fixes text_ok :: "bytes \<Rightarrow> bool"
  assumes oneshot_law: "winv w \<Longrightarrow> addr_ok a \<Longrightarrow> state w a \<noteq> None \<Longrightarrow> text_ok txn \<Longrightarrow>
      \<forall>x \<in> set ws. text_ok (wi_Key x) \<and> text_ok (wi_Value x) \<Longrightarrow> http (oneshot_call a ws txn ts) w = (r, w') \<Longrightarrow>
      ok_response r \<and> winv w' \<and> state w' = spec_op (a, COnePhaseCommit (batch_of ws) txn ts) (state w)"
begin

text \<open>A set of transactions that can be committed at the same time.\<close>

definition ready :: "Router \<Rightarrow> bytes set \<Rightarrow> (bytes \<Rightarrow> WriteIntent list) \<Rightarrow> net_state \<Rightarrow> bool" where
  "ready r D W M0 \<longleftrightarrow> separate D W \<and> (\<forall>t \<in> D. txn_ok t \<and> text_ok t \<and> W t \<noteq> [] \<and>
     (\<forall>x \<in> set (W t). addr_ok (Locate r (wi_Key x)) \<and> arg_ok (wi_Key x) \<and> arg_ok (wi_Value x) \<and>
       text_ok (wi_Key x) \<and> text_ok (wi_Value x) \<and>
       (\<exists>m. M0 (Locate r (wi_Key x)) = Some m \<and> available m (wi_Key x) t)))"

definition conc_at :: "Router \<Rightarrow> bytes set \<Rightarrow> (bytes \<Rightarrow> WriteIntent list) \<Rightarrow> net_state \<Rightarrow> (bytes \<Rightarrow> WriteIntent \<Rightarrow> progress) \<Rightarrow>
    pending list \<Rightarrow> 'a conc \<Rightarrow> bool" where
  "conc_at r D W M0 prog pend s \<longleftrightarrow> winv (cc_net s) \<and> co_router (cc_coord s) = r \<and> txns_ok D W (cc_commits s) (cc_coord s) \<and>
     pcs_ok r D W prog pend (cc_commits s) \<and> cells_as r D W prog M0 (state (cc_net s)) \<and> cc_calls s = map (pending_call r) pend"

text \<open>The prepare and the commit of one write.\<close>

lemma one_cell:
  assumes "state w' = spec_op (Locate r (wi_Key x), c) (state w)" and "cmd_key c = Some (wi_Key x)"
    and "cells_as r D W prog M0 (state w)" and "separate D W" and "t \<in> D" and "x \<in> set (W t)"
    and "\<And>d. cell_cmd c (expected (prog t x) t (wi_Value x) d) = expected p t (wi_Value x) d"
  shows "cells_as r D W (prog(t := (prog t)(x := p))) M0 (state w')"
proof -
  have "cells_as r D W (prog(t := (\<lambda>y. if y \<in> {x} then p else prog t y))) M0 (state w')"
    by (rule cells_as_update [OF assms(3-5), where f = "\<lambda>_. cell_cmd c"])
      (use assms(1,2,6,7) in \<open>auto simp: cell_spec_op simp del: cell_cmd.simps expected.simps\<close>)
  moreover have "(\<lambda>y. if y \<in> {x} then p else prog t y) = (prog t)(x := p)" by auto
  ultimately show ?thesis by simp
qed

lemma send_prepare_ok:
  assumes "winv w" and "ready r D W M0" and "cells_as r D W prog M0 (state w)" and "t \<in> D" and "x \<in> set (W t)"
    and "prog t x = Untouched"
  shows "\<exists>w'. sendPrepare http (Locate r (wi_Key x)) (wi_Key x) (wi_Value x) t w = (None, w') \<and> winv w' \<and>
    cells_as r D W (prog(t := (prog t)(x := Holding))) M0 (state w')"
proof -
  let ?a = "Locate r (wi_Key x)"
  have ok: "addr_ok ?a" "arg_ok (wi_Key x)" "arg_ok (wi_Value x)" "txn_ok t" "M0 ?a \<noteq> None" and sep: "separate D W"
    using assms(2,4,5) by (auto simp: ready_def)
  have known: "state w ?a \<noteq> None" by (rule cells_as_known [OF assms(3-5) ok(5)])
  obtain rs w' where h: "http (prepare_call ?a (wi_Key x) (wi_Value x) t) w = (rs, w')" by fastforce
  have eff: "ok_response rs" "winv w'" "state w' = spec_op (?a, CPrepare (wi_Key x) (Some (wi_Value x)) t) (state w)"
    using prepare_law [OF assms(1) ok(1) known ok(2-4) h] by blast+
  have "cells_as r D W (prog(t := (prog t)(x := Holding))) M0 (state w')"
    by (rule one_cell [OF eff(3) _ assms(3) sep assms(4,5)]) (simp_all only: cmd_key.simps assms(6) expected_prepare)
  moreover have "sendPrepare http ?a (wi_Key x) (wi_Value x) t w = (None, w')"
    using h eff(1) by (auto simp: sendPrepare_def send_def ok_response_def)
  ultimately show ?thesis using eff(2) by blast
qed

lemma arrive_ok:
  assumes "winv w" and "ready r D W M0" and "cells_as r D W prog M0 (state w)" and "t \<in> D" and "x \<in> set (W t)"
    and "prog t x = Holding" and h: "w' = snd (http (pending_call r (t, ts, x)) w)"
  shows "winv w' \<and> cells_as r D W (prog(t := (prog t)(x := Written ts))) M0 (state w')"
proof -
  let ?a = "Locate r (wi_Key x)"
  have ok: "addr_ok ?a" "arg_ok (wi_Key x)" "txn_ok t" "M0 ?a \<noteq> None" and sep: "separate D W"
    using assms(2,4,5) by (auto simp: ready_def)
  have known: "state w ?a \<noteq> None" by (rule cells_as_known [OF assms(3-5) ok(4)])
  have "http (commit_call ?a (wi_Key x) t ts) w = (fst (http (commit_call ?a (wi_Key x) t ts) w), w')" using h by simp
  from commit_law [OF assms(1) ok(1) known ok(2,3) this]
  have eff: "winv w'" "state w' = spec_op (?a, CCommit (wi_Key x) t ts) (state w)" by blast+
  have "cells_as r D W (prog(t := (prog t)(x := Written ts))) M0 (state w')"
    by (rule one_cell [OF eff(2) _ assms(3) sep assms(4,5)]) (simp_all only: cmd_key.simps assms(6) expected_commit)
  with eff(1) show ?thesis by blast
qed

text \<open>All writes of a transaction at once.\<close>

lemma send_oneshot_ok:
  assumes "winv w" and "ready r D W M0" and "cells_as r D W prog M0 (state w)" and "t \<in> D"
    and u: "\<forall>x \<in> set (W t). prog t x = Untouched \<and> Locate r (wi_Key x) = a" and "mset ws = mset (W t)" and "ws \<noteq> []"
  shows "\<exists>w'. sendOneShot http a ws t now w = (None, w') \<and> winv w' \<and>
    cells_as r D W (prog(t := (\<lambda>x. if x \<in> set (W t) then Written now else prog t x))) M0 (state w')"
proof -
  have set: "set ws = set (W t)" using assms(6) by (rule mset_eq_setD)
  obtain x0 where x0: "x0 \<in> set (W t)" using assms(7) set by (metis hd_in_set)
  have ok: "addr_ok a" "text_ok t" "\<forall>x \<in> set ws. text_ok (wi_Key x) \<and> text_ok (wi_Value x)" and sep: "separate D W"
    using assms(2,4) u x0 set by (auto simp: ready_def)
  have d: "distinct (map wi_Key ws)"
    using sep assms(4,6) by (metis mset_eq_imp_distinct_iff mset_map separate_def)
  have same: "cell_of (state w) a (wi_Key x) = cell_of M0 a (wi_Key x)" if "x \<in> set (W t)" for x
    using assms(3,4) u that by (auto simp: cells_as_def option.map_ident_strong)
  have m0: "\<exists>m0. M0 a = Some m0 \<and> available m0 (wi_Key x) t" if x: "x \<in> set (W t)" for x
  proof -
    have "\<exists>m0. M0 (Locate r (wi_Key x)) = Some m0 \<and> available m0 (wi_Key x) t" using assms(2,4) x unfolding ready_def by blast
    with u x show ?thesis by simp
  qed
  obtain m where m: "state w a = Some m" using same [OF x0] m0 [OF x0] by (auto simp: cell_of_def)
  have av: "available m (wi_Key x) t" if x: "x \<in> set (W t)" for x
    using m0 [OF x] same [OF x] m by (auto simp: cell_of_def available_def)
  obtain rs w' where h: "http (oneshot_call a ws t now) w = (rs, w')" by fastforce
  have eff: "ok_response rs" "winv w'" "state w' = spec_op (a, COnePhaseCommit (batch_of ws) t now) (state w)"
    using oneshot_law [OF assms(1) ok(1) _ ok(2,3) h] m by auto
  have "\<forall>bop \<in> set (batch_of ws). available m (op_Key bop) t" using av set by (auto simp: batch_of_def)
  then have st: "state w' = (state w)(a \<mapsto> spec_write_batch (batch_of ws) now m)" using eff(3) m by (simp add: spec_op_def)
  have "cells_as r D W (prog(t := (\<lambda>x. if x \<in> set (W t) then Written now else prog t x))) M0 (state w')"
  proof (rule cells_as_update [OF assms(3) sep assms(4) subset_refl, where f = "\<lambda>x. cell_write t (wi_Value x) now"])
    show "\<forall>x \<in> set (W t). cell_of (state w') (Locate r (wi_Key x)) (wi_Key x) =
        map_option (cell_write t (wi_Value x) now) (cell_of (state w) (Locate r (wi_Key x)) (wi_Key x))"
      using u av m batch_cell [OF d] set by (simp add: st cell_of_def cell_write_def may_take_def available_def)
    show "\<forall>b k. (\<forall>x \<in> set (W t). (Locate r (wi_Key x), wi_Key x) \<noteq> (b, k)) \<longrightarrow> cell_of (state w') b k = cell_of (state w) b k"
      using u m batch_other [of ws] set by (simp add: st cell_of_def)
  qed (use u in simp)
  moreover have "sendOneShot http a ws t now w = (None, w')"
    using h eff(1) by (auto simp: sendOneShot_def send_def ok_response_def)
  ultimately show ?thesis using eff(2) by blast
qed

text \<open>One commit advances.\<close>

definition after :: "'a conc \<Rightarrow> nat \<Rightarrow> commit_pc \<times> Coordinator \<times> http_call list \<times> 'a \<Rightarrow> 'a conc" where
  "after s i res = (case res of (pc', c', calls, w') \<Rightarrow>
     \<lparr>cc_coord = c', cc_commits = (cc_commits s)[i := pc'], cc_calls = cc_calls s @ calls, cc_net = w'\<rparr>)"

lemma after_at:
  assumes "conc_at r D W M0 prog pend s" and "i < length (cc_commits s)" and "\<not> finished (cc_commits s ! i)"
    and "winv w'" and "pc_txn pc' = pc_txn (cc_commits s ! i)" and "pc' \<noteq> Entered (pc_txn pc')"
    and "c' = cc_coord s \<or> c' = set_state (pc_txn pc') StateCommitted (cc_coord s)"
    and "pc_ok r W (prog(pc_txn pc' := p)) (pend @ new) pc'" and "cells_as r D W (prog(pc_txn pc' := p)) M0 (state w')"
    and "\<forall>(t, ts, x) \<in> set new. t = pc_txn pc' \<and> x \<in> set (W t)" and "distinct new" and "new \<noteq> [] \<Longrightarrow> pc' = Returned (pc_txn pc') None"
    and "calls = map (pending_call r) new"
  shows "conc_at r D W M0 (prog(pc_txn pc' := p)) (pend @ new) (after s i (pc', c', calls, w'))"
proof -
  have pcs: "pcs_ok r D W prog pend (cc_commits s)" using assms(1) by (simp add: conc_at_def)
  have "pcs_ok r D W (prog(pc_txn pc' := p)) (pend @ new) ((cc_commits s)[i := pc'])"
    by (rule pcs_ok_advance [OF pcs assms(2,3,5,8,10,11,12)])
  moreover have "txns_ok D W ((cc_commits s)[i := pc']) c'"
    by (rule txns_ok_advance [OF _ _ assms(2,5,6,7)]) (use assms(1) pcs in \<open>simp_all add: conc_at_def pcs_ok_def\<close>)
  moreover have "co_router c' = r" using assms(1,7) by (auto simp: conc_at_def set_state_def)
  ultimately show ?thesis using assms(1,4,9,13) by (simp add: conc_at_def after_def)
qed

lemma at_commit:
  assumes "conc_at r D W M0 prog pend s" and "ready r D W M0" and "i < length (cc_commits s)"
  shows "pc_txn (cc_commits s ! i) \<in> D" and "pc_ok r W prog pend (cc_commits s ! i)" and "distinct (map pc_txn (cc_commits s))"
    and "separate D W" and "W (pc_txn (cc_commits s ! i)) \<noteq> []" and "distinct (map wi_Key (W (pc_txn (cc_commits s ! i))))"
    and "winv (cc_net s)" and "cells_as r D W prog M0 (state (cc_net s))" and "co_router (cc_coord s) = r"
    and "pcs_ok r D W prog pend (cc_commits s)"
proof -
  have "cc_commits s ! i \<in> set (cc_commits s)" using assms(3) by simp
  then show t: "pc_txn (cc_commits s ! i) \<in> D" and "pc_ok r W prog pend (cc_commits s ! i)" and "distinct (map pc_txn (cc_commits s))"
    using assms(1) by (auto simp: conc_at_def pcs_ok_def)
  show "separate D W" "W (pc_txn (cc_commits s ! i)) \<noteq> []" "distinct (map wi_Key (W (pc_txn (cc_commits s ! i))))"
    using assms(2) t by (auto simp: ready_def separate_def)
  show "winv (cc_net s)" "cells_as r D W prog M0 (state (cc_net s))" "co_router (cc_coord s) = r" "pcs_ok r D W prog pend (cc_commits s)"
    using assms(1) by (simp_all add: conc_at_def)
qed

lemma advance_entered:
  assumes at: "conc_at r D W M0 prog pend s" and rdy: "ready r D W M0" and "\<forall>g. mset (ord1 g) = mset g" and i: "i < length (cc_commits s)"
    and pc: "cc_commits s ! i = Entered t"
    and adv: "advance http ord1 ord2 now (Entered t) (cc_coord s) (cc_net s) = Some (pc', c', calls, w')"
  shows "conc_at r D W M0 prog pend (after s i (pc', c', calls, w'))"
proof -
  note f = at_commit [OF at rdy i, unfolded pc commit_pc.sel]
  let ?g = "group_by_shard r (W t)"
  have "\<forall>q \<in> set (cc_commits s). pc_txn q = t \<longrightarrow> q = Entered t" using same_txn [OF f(3) i] pc by (metis commit_pc.sel(1))
  then obtain txn where txn: "co_transactions (cc_coord s) t = Some txn" "tx_Writes txn = W t" "tx_State txn = StateActive"
    using at f(1) unfolding conc_at_def txns_ok_def by blast
  have u: "\<forall>x \<in> set (W t). prog t x = Untouched" using f(2) by simp
  note go = after_at [OF at i _ f(7), where pc' = pc' and p = "prog t" and new = "[]" and c' = c' and calls = calls]
  show ?thesis
  proof (cases "\<exists>shard ws. ?g = [(shard, ws)]")
    case True
    then obtain shard ws where g: "?g = [(shard, ws)]" by blast
    have "ws \<noteq> []" using group_single(1) [OF g] f(5) by auto
    moreover have "pc' = SendingOneShot t shard ws" "c' = cc_coord s" "calls = []" "w' = cc_net s"
      using adv by (simp_all add: txn f(9) g f(5))
    ultimately show ?thesis using go u f(8) pc group_single [OF g] by simp
  next
    case False
    have "pc' = Preparing t ?g (flatten (ord1 ?g))" "c' = cc_coord s" "calls = []" "w' = cc_net s"
      using adv False by (auto simp: txn f(9) f(5) split: list.splits)
    moreover have "\<forall>x \<in> set (W t). (Locate r (wi_Key x), x) \<in> set (flatten (ord1 ?g))"
      using distinct_flatten_group(2) [OF f(6) assms(3)] by (auto simp: located_def)
    ultimately show ?thesis using go u f(8) pc distinct_flatten_group [OF f(6) assms(3)] by simp
  qed
qed

lemma advance_oneshot:
  assumes at: "conc_at r D W M0 prog pend s" and rdy: "ready r D W M0" and i: "i < length (cc_commits s)"
    and pc: "cc_commits s ! i = SendingOneShot t shard ws"
    and adv: "advance http ord1 ord2 now (SendingOneShot t shard ws) (cc_coord s) (cc_net s) = Some (pc', c', calls, w')"
  shows "conc_at r D W M0 (prog(t := (\<lambda>x. if x \<in> set (W t) then Written now else prog t x))) pend (after s i (pc', c', calls, w'))"
proof -
  note f = at_commit [OF at rdy i, unfolded pc commit_pc.sel]
  have o: "\<forall>x \<in> set (W t). prog t x = Untouched \<and> Locate r (wi_Key x) = shard" "mset ws = mset (W t)" "ws \<noteq> []" using f(2) by simp_all
  from send_oneshot_ok [OF f(7) rdy f(8,1) o, of now] obtain w1 where w1: "sendOneShot http shard ws t now (cc_net s) = (None, w1)" "winv w1"
    "cells_as r D W (prog(t := (\<lambda>x. if x \<in> set (W t) then Written now else prog t x))) M0 (state w1)" by blast
  then have "pc' = SentOneShot t" "c' = cc_coord s" "calls = []" "w' = w1" using adv by simp_all
  then show ?thesis
    using after_at [OF at i _ w1(2), where pc' = pc' and p = "\<lambda>x. if x \<in> set (W t) then Written now else prog t x" and new = "[]"
        and c' = c' and calls = calls] w1(3) pc by auto
qed

lemma advance_sent:
  assumes at: "conc_at r D W M0 prog pend s" and rdy: "ready r D W M0" and i: "i < length (cc_commits s)"
    and pc: "cc_commits s ! i = SentOneShot t"
    and adv: "advance http ord1 ord2 now (SentOneShot t) (cc_coord s) (cc_net s) = Some (pc', c', calls, w')"
  shows "conc_at r D W M0 prog pend (after s i (pc', c', calls, w'))"
proof -
  note f = at_commit [OF at rdy i, unfolded pc commit_pc.sel]
  have "pc' = Returned t None" "c' = set_state t StateCommitted (cc_coord s)" "calls = []" "w' = cc_net s" using adv by simp_all
  moreover have "(t, ts, x) \<notin> set pend" for ts x using no_pending [OF f(10) i] pc by simp
  ultimately show ?thesis
    using after_at [OF at i _ f(7), where pc' = pc' and p = "prog t" and new = "[]" and c' = c' and calls = calls] f(2,8) pc by simp
qed

lemma advance_prepare:
  assumes at: "conc_at r D W M0 prog pend s" and rdy: "ready r D W M0" and i: "i < length (cc_commits s)"
    and pc: "cc_commits s ! i = Preparing t g ((shard, x) # rest)"
    and adv: "advance http ord1 ord2 now (Preparing t g ((shard, x) # rest)) (cc_coord s) (cc_net s) = Some (pc', c', calls, w')"
  shows "conc_at r D W M0 (prog(t := (prog t)(x := Holding))) pend (after s i (pc', c', calls, w'))"
proof -
  note f = at_commit [OF at rdy i, unfolded pc commit_pc.sel]
  have p: "g = group_by_shard r (W t)" "distinct ((shard, x) # rest)" "set ((shard, x) # rest) \<subseteq> set (located r (W t))"
    "\<forall>y \<in> set (W t). prog t y = (if (Locate r (wi_Key y), y) \<in> set ((shard, x) # rest) then Untouched else Holding)"
    using f(2) by simp_all
  have x: "shard = Locate r (wi_Key x)" "x \<in> set (W t)" using p(3) fst_located [of "(shard, x)" r "W t"] by auto
  have un: "prog t x = Untouched" using p(4) x by simp
  from send_prepare_ok [OF f(7) rdy f(8,1) x(2) un] obtain w1 where w1:
    "sendPrepare http (Locate r (wi_Key x)) (wi_Key x) (wi_Value x) t (cc_net s) = (None, w1)" "winv w1"
    "cells_as r D W (prog(t := (prog t)(x := Holding))) M0 (state w1)" by blast
  then have res: "pc' = Preparing t g rest" "c' = cc_coord s" "calls = []" "w' = w1" using adv by (simp_all add: x(1))
  have "pc_ok r W (prog(t := (prog t)(x := Holding))) pend pc'" unfolding res(1) using p x by auto
  with res show ?thesis
    using after_at [OF at i _ w1(2), where pc' = pc' and p = "(prog t)(x := Holding)" and new = "[]" and c' = c' and calls = calls] w1(3) pc by simp
qed

lemma advance_decide:
  assumes at: "conc_at r D W M0 prog pend s" and rdy: "ready r D W M0" and "\<forall>g. mset (ord2 g) = mset g" and i: "i < length (cc_commits s)"
    and pc: "cc_commits s ! i = Preparing t g []"
    and adv: "advance http ord1 ord2 now (Preparing t g []) (cc_coord s) (cc_net s) = Some (pc', c', calls, w')"
  shows "conc_at r D W M0 prog (pend @ map (\<lambda>q. (t, now, snd q)) (flatten (ord2 g))) (after s i (pc', c', calls, w'))"
proof -
  note f = at_commit [OF at rdy i, unfolded pc commit_pc.sel]
  let ?new = "map (\<lambda>q. (t, now, snd q)) (flatten (ord2 g))"
  have g: "g = group_by_shard r (W t)" and hold: "\<forall>x \<in> set (W t). prog t x = Holding" using f(2) by simp_all
  note fl = distinct_flatten_group [OF f(6) assms(3), of r, folded g]
  have loc: "fst q = Locate r (wi_Key (snd q)) \<and> snd q \<in> set (W t)" if "q \<in> set (flatten (ord2 g))" for q
    using fst_located that fl(2) by blast
  have res: "pc' = Returned t None" "c' = set_state t StateCommitted (cc_coord s)" "w' = cc_net s"
    "calls = map (\<lambda>(shard, x). commit_call shard (wi_Key x) t now) (flatten (ord2 g))" using adv by simp_all
  have calls: "calls = map (pending_call r) ?new" unfolding res(4) using loc by (auto simp: case_prod_beta)
  have "inj_on (\<lambda>q. (t, now, snd q)) (set (flatten (ord2 g)))" by (rule inj_onI) (simp add: loc prod_eq_iff)
  then have d: "distinct ?new" using fl(1) by (simp add: distinct_map)
  have all: "(t, now, x) \<in> set ?new" if "x \<in> set (W t)" for x
  proof -
    have "(Locate r (wi_Key x), x) \<in> set (flatten (ord2 g))" using that fl(2) by (simp add: located_def)
    then have "(t, now, snd (Locate r (wi_Key x), x)) \<in> set ?new" unfolding set_map by (rule imageI)
    then show ?thesis by simp
  qed
  have none: "(t, ts, x) \<notin> set pend" for ts x using no_pending [OF f(10) i] pc by simp
  have ok: "pc_ok r W prog (pend @ ?new) (Returned t None)"
    using all none hold by (auto intro!: exI [of _ now])
  have new: "\<forall>(u, ts, x) \<in> set ?new. u = t \<and> x \<in> set (W u)" using loc by auto
  show ?thesis
    using after_at [OF at i _ f(7), where pc' = pc' and p = "prog t" and new = ?new and c' = c' and calls = calls] pc ok new d calls f(8)
    by (simp add: res(1-3))
qed

lemma advance_keeps:
  assumes at: "conc_at r D W M0 prog pend s" and rdy: "ready r D W M0" and "\<forall>g. mset (ord1 g) = mset g" and "\<forall>g. mset (ord2 g) = mset g"
    and i: "i < length (cc_commits s)"
    and adv: "advance http ord1 ord2 now (cc_commits s ! i) (cc_coord s) (cc_net s) = Some (pc', c', calls, w')"
  shows "\<exists>prog' pend'. conc_at r D W M0 prog' pend' (after s i (pc', c', calls, w'))"
proof (cases "cc_commits s ! i")
  case (Entered t)
  with advance_entered [OF at rdy assms(3) i Entered] adv show ?thesis by auto
next
  case (SendingOneShot t shard ws)
  with advance_oneshot [OF at rdy i SendingOneShot] adv show ?thesis by fastforce
next
  case (SentOneShot t)
  with advance_sent [OF at rdy i SentOneShot] adv show ?thesis by auto
next
  case (Preparing t g todo)
  show ?thesis
  proof (cases todo)
    case Nil
    with advance_decide [OF at rdy assms(4) i] Preparing adv show ?thesis by fastforce
  next
    case (Cons q rest)
    then show ?thesis using advance_prepare [OF at rdy i, where shard = "fst q" and x = "snd q"] Preparing adv by fastforce
  qed
next
  case (Failing t err)
  with at_commit(2) [OF at rdy i] show ?thesis by simp
next
  case (Returned t res)
  with adv show ?thesis by simp
qed

text \<open>A commit call arrives.\<close>

lemma arrives_keeps:
  assumes at: "conc_at r D W M0 prog pend s" and rdy: "ready r D W M0" and calls: "cc_calls s = xs @ call # ys"
  shows "\<exists>prog' pend'. conc_at r D W M0 prog' pend' (s\<lparr>cc_calls := xs @ ys, cc_net := snd (http call (cc_net s))\<rparr>)"
proof -
  let ?pcs = "cc_commits s"
  have pcs: "pcs_ok r D W prog pend ?pcs" and w: "winv (cc_net s)" and cells: "cells_as r D W prog M0 (state (cc_net s))"
    and "map (pending_call r) pend = xs @ call # ys" using at calls by (simp_all add: conc_at_def)
  then obtain p1 t ts x p2 where p: "pend = p1 @ (t, ts, x) # p2" "xs = map (pending_call r) p1" "ys = map (pending_call r) p2"
    "call = pending_call r (t, ts, x)"
    by (auto simp: map_eq_append_conv map_eq_Cons_conv)
  have ret: "Returned t None \<in> set ?pcs" and x: "x \<in> set (W t)" and d: "distinct pend"
    using pcs p(1) by (auto simp: pcs_ok_def pend_ok_def)
  have "pc_txn (Returned t None) \<in> D" and ok: "pc_ok r W prog pend (Returned t None)"
    using pcs ret unfolding pcs_ok_def by blast+
  then have t: "t \<in> D" by simp
  have mem: "(t, ts, x) \<in> set pend" using p(1) by simp
  obtain ts0 where "\<forall>ts' y. (t, ts', y) \<in> set pend \<longrightarrow> ts' = ts0"
    "\<forall>y \<in> set (W t). prog t y = (if (t, ts0, y) \<in> set pend then Holding else Written ts0)"
    using ok unfolding pc_ok.simps by blast
  moreover from this mem have "ts0 = ts" by blast
  ultimately have one: "\<forall>ts' y. (t, ts', y) \<in> set pend \<longrightarrow> ts' = ts" and hold: "prog t x = Holding"
    and all: "\<forall>y \<in> set (W t). prog t y = (if (t, ts, y) \<in> set pend then Holding else Written ts)"
    using mem x by simp_all
  let ?prog = "prog(t := (prog t)(x := Written ts))" and ?pend = "p1 @ p2"
  have ar: "winv (snd (http call (cc_net s)))" "cells_as r D W ?prog M0 (state (snd (http call (cc_net s))))"
    using arrive_ok [OF w rdy cells t x hold] unfolding p(4) by blast+
  have gone: "(t, ts, x) \<notin> set ?pend" "\<And>z. z \<noteq> (t, ts, x) \<Longrightarrow> z \<in> set ?pend \<longleftrightarrow> z \<in> set pend"
    using d p(1) by auto
  have "pc_ok r W ?prog ?pend pc" if pc: "pc \<in> set ?pcs" for pc
  proof (cases "pc_txn pc = t")
    case True
    have "inj_on pc_txn (set ?pcs)" using pcs by (simp add: pcs_ok_def distinct_map)
    then have pc': "pc = Returned t None" by (rule inj_onD) (use pc ret True in simp_all)
    show ?thesis unfolding pc' pc_ok.simps
    proof (intro conjI exI [of _ ts] allI ballI impI)
      show "ts' = ts" if "(t, ts', y) \<in> set ?pend" for ts' y using one that p(1) by auto
      show "?prog t y = (if (t, ts, y) \<in> set ?pend then Holding else Written ts)" if "y \<in> set (W t)" for y
        using all that gone by auto
    qed simp
  next
    case False
    then show ?thesis
      using pcs pc gone(2) by (subst pc_ok_cong [where prog = prog and pend = pend]) (auto simp: pcs_ok_def)
  qed
  moreover have "pend_ok W ?pcs ?pend" using pcs p(1) by (auto simp: pcs_ok_def pend_ok_def)
  moreover have "t \<in> pc_txn ` set ?pcs" using imageI [OF ret, of pc_txn] by simp
  ultimately have "pcs_ok r D W ?prog ?pend ?pcs" using pcs by (auto simp: pcs_ok_def)
  with at ar p(2,3) have "conc_at r D W M0 ?prog ?pend (s\<lparr>cc_calls := xs @ ys, cc_net := snd (http call (cc_net s))\<rparr>)"
    by (simp add: conc_at_def)
  then show ?thesis by blast
qed

lemma commit_keeps:
  assumes at: "conc_at r D W M0 prog pend s" and "t \<in> D" and "t \<notin> pc_txn ` set (cc_commits s)"
  shows "conc_at r D W M0 prog pend (s\<lparr>cc_commits := cc_commits s @ [Entered t]\<rparr>)"
proof -
  have pcs: "pcs_ok r D W prog pend (cc_commits s)" and tx: "txns_ok D W (cc_commits s) (cc_coord s)" using at by (simp_all add: conc_at_def)
  have "\<forall>x \<in> set (W t). prog t x = Untouched" using pcs assms(2,3) by (auto simp: pcs_ok_def)
  with pcs assms(2,3) have "pcs_ok r D W prog pend (cc_commits s @ [Entered t])"
    by (auto simp: pcs_ok_def pend_ok_def)
  moreover have "txns_ok D W (cc_commits s @ [Entered t]) (cc_coord s)"
    unfolding txns_ok_def
  proof
    fix u
    assume "u \<in> D"
    then obtain txn where "co_transactions (cc_coord s) u = Some txn" "tx_Writes txn = W u"
      "(\<forall>pc \<in> set (cc_commits s). pc_txn pc = u \<longrightarrow> pc = Entered u) \<longrightarrow> tx_State txn = StateActive"
      using tx unfolding txns_ok_def by blast
    then show "\<exists>txn. co_transactions (cc_coord s) u = Some txn \<and> tx_Writes txn = W u \<and>
        ((\<forall>pc \<in> set (cc_commits s @ [Entered t]). pc_txn pc = u \<longrightarrow> pc = Entered u) \<longrightarrow> tx_State txn = StateActive)"
      by (intro exI [of _ txn]) simp
  qed
  ultimately show ?thesis using at by (simp add: conc_at_def)
qed

section \<open>Every run\<close>

lemma step_keeps:
  assumes at: "conc_at r D W M0 prog pend s" and rdy: "ready r D W M0" and "\<forall>g. mset (ord1 g) = mset g" and "\<forall>g. mset (ord2 g) = mset g"
    and "conc_step http tau ord1 ord2 e s s'" and "only_commits [e]" and "set (commits [e]) \<subseteq> D - pc_txn ` set (cc_commits s)"
  shows "(\<exists>prog' pend'. conc_at r D W M0 prog' pend' s') \<and> map pc_txn (cc_commits s') = map pc_txn (cc_commits s) @ commits [e]"
  using assms(5)
proof cases
  case (do_commit t)
  then have "t \<in> D" "t \<notin> pc_txn ` set (cc_commits s)" using assms(7) by (auto simp: commits_def)
  from commit_keeps [OF at this] do_commit show ?thesis by (auto simp: commits_def)
next
  case (advances i now pc' c' calls w')
  from advance_keeps [OF at rdy assms(3,4) advances(3,4)] have "\<exists>prog' pend'. conc_at r D W M0 prog' pend' s'"
    by (simp add: advances(2) after_def)
  moreover have "pc_txn pc' = pc_txn (cc_commits s ! i)"
    using advances(4) by (cases "(http, ord1, ord2, now, cc_commits s ! i, cc_coord s, cc_net s)" rule: advance.cases)
      (auto split: option.splits if_splits prod.splits list.splits)
  then have "map pc_txn (cc_commits s') = map pc_txn (cc_commits s)"
    using advances(2,3) by (metis conc.select_convs(2) list_update_id map_update nth_map)
  ultimately show ?thesis by (simp add: commits_def advances(1))
next
  case (arrives xs call ys)
  from arrives_keeps [OF at rdy arrives(3)] arrives(1,2) show ?thesis by (simp add: commits_def)
next
  case (works w')
  have "winv w' \<and> state w' = state (cc_net s)" using tau_law [OF _ works(3)] at by (simp add: conc_at_def)
  with at have "conc_at r D W M0 prog pend s'" by (simp add: conc_at_def works(2))
  with works(1,2) show ?thesis by (auto simp: commits_def)
qed (use assms(6) in \<open>simp_all add: only_commits_def\<close>)

lemma run_keeps:
  assumes "conc_run http tau ord1 ord2 s0 es s" and "conc_at r D W M0 prog pend s0" and "cc_commits s0 = []" and rdy: "ready r D W M0"
    and "\<forall>g. mset (ord1 g) = mset g" and "\<forall>g. mset (ord2 g) = mset g"
    and "only_commits es" and "distinct (commits es)" and "set (commits es) \<subseteq> D"
  shows "(\<exists>prog pend. conc_at r D W M0 prog pend s) \<and> map pc_txn (cc_commits s) = commits es"
  using assms(1,7-9)
proof (induction rule: conc_run.induct)
  case run_start
  then show ?case using assms(2,3) by (auto simp: commits_def)
next
  case (run_step es s e s')
  then obtain prog pend where at: "conc_at r D W M0 prog pend s" and pcs: "map pc_txn (cc_commits s) = commits es" by auto
  have "set (commits [e]) \<subseteq> D - pc_txn ` set (cc_commits s)"
    using run_step.prems(2,3) arg_cong [OF pcs, of set] by auto
  from step_keeps [OF at rdy assms(5,6) run_step.hyps(2) _ this] run_step.prems(1) pcs show ?case by simp
qed

text \<open>When every commit has returned and no call is left.\<close>

lemma run_result:
  assumes "conc_run http tau ord1 ord2 \<lparr>cc_coord = c, cc_commits = [], cc_calls = [], cc_net = w\<rparr> es s" and "winv w"
    and "only_commits es" and "distinct (commits es)" and rdy: "ready (co_router c) (set (commits es)) W (state w)"
    and "\<forall>t \<in> set (commits es). \<exists>txn. co_transactions c t = Some txn \<and> tx_Writes txn = W t \<and> tx_State txn = StateActive"
    and "\<forall>g. mset (ord1 g) = mset g" and "\<forall>g. mset (ord2 g) = mset g"
    and "\<forall>pc \<in> set (cc_commits s). finished pc" and "cc_calls s = []"
  shows "cc_commits s = map (\<lambda>t. Returned t None) (commits es) \<and> winv (cc_net s) \<and>
    (\<forall>t \<in> set (commits es). \<exists>ts. \<forall>x \<in> set (W t). cell_of (state (cc_net s)) (Locate (co_router c) (wi_Key x)) (wi_Key x) =
       map_option (cell_write t (wi_Value x) ts) (cell_of (state w) (Locate (co_router c) (wi_Key x)) (wi_Key x))) \<and>
    (\<forall>a k. (\<forall>t \<in> set (commits es). \<forall>x \<in> set (W t). (Locate (co_router c) (wi_Key x), wi_Key x) \<noteq> (a, k)) \<longrightarrow>
       cell_of (state (cc_net s)) a k = cell_of (state w) a k)"
proof -
  let ?D = "set (commits es)" and ?r = "co_router c"
  have "conc_at ?r ?D W (state w) (\<lambda>_ _. Untouched) [] \<lparr>cc_coord = c, cc_commits = [], cc_calls = [], cc_net = w\<rparr>"
    using assms(2,6) by (simp add: conc_at_def txns_ok_def pcs_ok_def pend_ok_def cells_as_def option.map_ident_strong)
  from run_keeps [OF assms(1) this _ rdy assms(7,8,3,4)] obtain prog pend where at: "conc_at ?r ?D W (state w) prog pend s"
    and pcs: "map pc_txn (cc_commits s) = commits es" by auto
  have ok: "\<forall>pc \<in> set (cc_commits s). pc_ok ?r W prog pend pc" using at unfolding conc_at_def pcs_ok_def by blast
  have cells: "cells_as ?r ?D W prog (state w) (state (cc_net s))" and "pend = []" and w: "winv (cc_net s)"
    using at assms(10) by (simp_all add: conc_at_def)
  have ret: "pc = Returned (pc_txn pc) None \<and> (\<exists>ts. \<forall>x \<in> set (W (pc_txn pc)). prog (pc_txn pc) x = Written ts)"
    if "pc \<in> set (cc_commits s)" for pc
    using ok assms(9) that \<open>pend = []\<close> by (cases pc) auto
  have "cc_commits s = map (\<lambda>t. Returned t None) (map pc_txn (cc_commits s))"
    using ret by (simp add: map_idI comp_def)
  moreover have "\<exists>ts. \<forall>x \<in> set (W t). prog t x = Written ts" if t: "t \<in> ?D" for t
  proof -
    have "t \<in> pc_txn ` set (cc_commits s)" using t arg_cong [OF pcs, of set] by simp
    then show ?thesis using ret by blast
  qed
  ultimately show ?thesis using w cells pcs unfolding cells_as_def by (metis (no_types, lifting) expected.simps(3) ext)
qed

end

end
