(* ===== verification/Cluster_Steps.thy ===== *)
theory Cluster_Steps
  imports Concurrent_Commit Proxy_Server
begin

text \<open>
  The coordinator with its methods running at once, on the cluster of shard servers: many
  transactions committed at the same time, that every such run ends, and what a rollback or a
  write does that runs into a commit of the same transaction.
\<close>

section \<open>The cluster takes batches\<close>

sublocale shard_cluster < batch: batch_network "cluster_net B P sched" "cluster_step B P" "cluster_inv B tinv" "cluster_state B P"
  good_addr "\<lambda>s. 32 \<notin> set s" "\<lambda>txn. \<forall>c \<in> set txn. unreserved c" utf8_valid
  by unfold_locales (rule oneshot_effect [OF shard_cluster_axioms])

text \<open>The transactions of a coordinator that may be committed at the same time on a cluster.\<close>

definition committable :: "Coordinator \<Rightarrow> net_state \<Rightarrow> bytes set \<Rightarrow> (bytes \<Rightarrow> WriteIntent list) \<Rightarrow> bool" where
  "committable c M D W \<longleftrightarrow> separate D W \<and> (\<forall>t \<in> D. (\<forall>b \<in> set t. unreserved b) \<and> utf8_valid t \<and> W t \<noteq> [] \<and>
     (\<forall>x \<in> set (W t). placed (co_router c) M t x) \<and>
     (\<exists>txn. co_transactions c t = Some txn \<and> tx_Writes txn = W t \<and> tx_State txn = StateActive))"

context shard_cluster
begin

lemma concurrent_result:
  assumes "conc_run (cluster_net B P sched) (cluster_step B P) ord1 ord2 \<lparr>cc_coord = c, cc_commits = [], cc_calls = [], cc_net = cl\<rparr> es s"
    and "cluster_inv B tinv cl" and "only_commits es" and "distinct (commits es)"
    and com: "committable c (cluster_state B P cl) (set (commits es)) W"
    and "\<forall>g. mset (ord1 g) = mset g" and "\<forall>g. mset (ord2 g) = mset g"
    and "\<forall>pc \<in> set (cc_commits s). finished pc" and "cc_calls s = []"
  shows "cc_commits s = map (\<lambda>t. Returned t None) (commits es) \<and> cluster_inv B tinv (cc_net s) \<and>
    (\<forall>t \<in> set (commits es). \<exists>ts. \<forall>x \<in> set (W t).
       cell_of (cluster_state B P (cc_net s)) (Locate (co_router c) (wi_Key x)) (wi_Key x) =
       map_option (cell_write t (wi_Value x) ts) (cell_of (cluster_state B P cl) (Locate (co_router c) (wi_Key x)) (wi_Key x))) \<and>
    (\<forall>a k. (\<forall>t \<in> set (commits es). \<forall>x \<in> set (W t). (Locate (co_router c) (wi_Key x), wi_Key x) \<noteq> (a, k)) \<longrightarrow>
       cell_of (cluster_state B P (cc_net s)) a k = cell_of (cluster_state B P cl) a k)"
proof (rule batch.run_result [OF assms(1-4) _ _ assms(6-9)])
  show "batch.ready (co_router c) (set (commits es)) W (cluster_state B P cl)"
    using com unfolding committable_def batch.ready_def placed_def by blast
  show "\<forall>t \<in> set (commits es). \<exists>txn. co_transactions c t = Some txn \<and> tx_Writes txn = W t \<and> tx_State txn = StateActive"
    using com unfolding committable_def by blast
qed

end

section \<open>Commits end\<close>

fun entered :: "commit_pc \<Rightarrow> bool" where
  "entered (Entered t) = True"
| "entered pc = False"

fun steps_left :: "commit_pc \<Rightarrow> nat" where
  "steps_left (Preparing t g todo) = 2 + length todo"
| "steps_left (SendingOneShot t shard ws) = 2"
| "steps_left (SentOneShot t) = 1"
| "steps_left (Failing t err) = 1"
| "steps_left pc = 0"

definition conc_left :: "'t cluster conc \<Rightarrow> nat \<times> nat \<times> nat \<times> nat" where
  "conc_left s = (length (filter entered (cc_commits s)), sum_list (map steps_left (cc_commits s)), length (cc_calls s), backlog (cc_net s))"

lemma advance_left:
  assumes "advance http ord1 ord2 now pc c w = Some (pc', c', calls, w')"
  shows "\<not> entered pc' \<and> (entered pc \<or> steps_left pc' < steps_left pc) \<and> \<not> finished pc"
  using assms by (cases "(http, ord1, ord2, now, pc, c, w)" rule: advance.cases)
    (auto split: option.splits if_splits prod.splits list.splits)

lemma advance_net:
  assumes "advance http ord1 ord2 now pc c w = Some (pc', c', calls, w')" and "\<And>call w. I w \<Longrightarrow> I (snd (http call w))" and "I w"
  shows "I w'"
proof -
  have "w' = w \<or> (\<exists>call. w' = snd (http call w))"
    using assms(1) by (cases "(http, ord1, ord2, now, pc, c, w)" rule: advance.cases)
      (auto simp: sendOneShot_def sendPrepare_def send_def split: option.splits if_splits prod.splits list.splits, (metis snd_conv)+)
  with assms(2,3) show ?thesis by blast
qed

lemma filter_update_less:
  "i < length xs \<Longrightarrow> P (xs ! i) \<Longrightarrow> \<not> P y \<Longrightarrow> length (filter P (xs[i := y])) < length (filter P xs)"
proof (induction xs arbitrary: i)
  case (Cons x xs)
  then show ?case by (cases i) auto
qed simp

lemma filter_update_same:
  "i < length xs \<Longrightarrow> \<not> P (xs ! i) \<Longrightarrow> \<not> P y \<Longrightarrow> length (filter P (xs[i := y])) = length (filter P xs)"
proof (induction xs arbitrary: i)
  case (Cons x xs)
  then show ?case by (cases i) auto
qed simp

lemma sum_update_less: "i < length xs \<Longrightarrow> f y < f (xs ! i) \<Longrightarrow> sum_list (map f (xs[i := y])) < sum_list (map (f :: 'a \<Rightarrow> nat) xs)"
proof (induction xs arbitrary: i)
  case (Cons x xs)
  then show ?case by (cases i) auto
qed simp

abbreviation conc_order :: "((nat \<times> nat \<times> nat \<times> nat) \<times> (nat \<times> nat \<times> nat \<times> nat)) set" where
  "conc_order \<equiv> less_than <*lex*> less_than <*lex*> less_than <*lex*> less_than"

lemma internal_left:
  assumes "conc_step (cluster_net B P sched) (cluster_step B P) ord1 ord2 Internal s t" and "finite (dom (cc_net s))"
  shows "(conc_left t, conc_left s) \<in> conc_order"
  using assms(1)
proof cases
  case (advances i now pc' c' calls w')
  note left = advance_left [OF advances(3)]
  show ?thesis
  proof (cases "entered (cc_commits s ! i)")
    case True
    then have "length (filter entered ((cc_commits s)[i := pc'])) < length (filter entered (cc_commits s))"
      using advances(2) left by (intro filter_update_less) simp_all
    then show ?thesis by (simp add: conc_left_def advances(1))
  next
    case False
    then have "length (filter entered ((cc_commits s)[i := pc'])) = length (filter entered (cc_commits s))"
      using advances(2) left by (intro filter_update_same) simp_all
    moreover have "sum_list (map steps_left ((cc_commits s)[i := pc'])) < sum_list (map steps_left (cc_commits s))"
      using advances(2) left False by (intro sum_update_less) simp_all
    ultimately show ?thesis by (simp add: conc_left_def advances(1))
  qed
next
  case (arrives xs call ys)
  then show ?thesis by (simp add: conc_left_def)
next
  case (works w')
  with backlog_step [OF works(2) assms(2)] show ?thesis by (simp add: conc_left_def)
qed

lemma internal_dom:
  assumes "shard_cluster B tinv P sched" and "conc_step (cluster_net B P sched) (cluster_step B P) ord1 ord2 e s t"
  shows "dom (cc_net t) = dom (cc_net s)"
  using assms(2)
proof cases
  case (advances i now pc' c' calls w')
  show ?thesis
    unfolding advances(2) conc.select_convs
    by (rule advance_net [where I = "\<lambda>cl. dom cl = dom (cc_net s)", OF advances(4)]) (simp_all add: cluster_net_dom [OF assms(1)])
qed (simp_all add: cluster_net_dom [OF assms(1)] cluster_step_dom)

text \<open>Nothing is left to do exactly when every commit has returned and everything is applied.\<close>

lemma internal_stuck_iff:
  "(\<nexists>t. conc_step (cluster_net B P sched) (cluster_step B P) ord1 ord2 Internal s t) \<longleftrightarrow>
   (\<forall>pc \<in> set (cc_commits s). finished pc) \<and> cc_calls s = [] \<and> all_applied (cc_net s)"
proof
  let ?step = "conc_step (cluster_net B P sched) (cluster_step B P) ord1 ord2 Internal s"
  assume stuck: "\<nexists>t. ?step t"
  have "finished pc" if pc: "pc \<in> set (cc_commits s)" for pc
  proof (rule ccontr)
    assume "\<not> finished pc"
    then obtain res where "advance (cluster_net B P sched) ord1 ord2 0 pc (cc_coord s) (cc_net s) = Some res"
      by (cases pc rule: finished.cases; (cases "(cluster_net B P sched, ord1, ord2, 0 :: u64, pc, cc_coord s, cc_net s)" rule: advance.cases)) auto
    moreover obtain i where "i < length (cc_commits s)" "cc_commits s ! i = pc" using pc by (auto simp: in_set_conv_nth)
    ultimately have "\<exists>t. ?step t" using advances [of i s] by (metis surj_pair)
    with stuck show False by blast
  qed
  moreover have "cc_calls s = []"
    using stuck arrives [of s "[]"] by (metis append_Nil list.exhaust)
  moreover have "\<nexists>cl. cluster_step B P (cc_net s) cl"
    using stuck works [where tau = "cluster_step B P" and s = s and http = "cluster_net B P sched"] by blast
  then have "all_applied (cc_net s)" using stuck_iff_applied [of B P "cc_net s"] by simp
  ultimately show "(\<forall>pc \<in> set (cc_commits s). finished pc) \<and> cc_calls s = [] \<and> all_applied (cc_net s)" by blast
next
  assume q: "(\<forall>pc \<in> set (cc_commits s). finished pc) \<and> cc_calls s = [] \<and> all_applied (cc_net s)"
  show "\<nexists>t. conc_step (cluster_net B P sched) (cluster_step B P) ord1 ord2 Internal s t"
  proof
    assume "\<exists>t. conc_step (cluster_net B P sched) (cluster_step B P) ord1 ord2 Internal s t"
    then obtain t where "conc_step (cluster_net B P sched) (cluster_step B P) ord1 ord2 Internal s t" ..
    then show False
    proof cases
      case (advances i now pc' c' calls w')
      then show False using advance_left [OF advances(3)] q by simp
    next
      case (works w')
      then show False using q stuck_iff_applied [of B P "cc_net s"] by blast
    qed (use q in simp)
  qed
qed

lemma internal_wf:
  "wfp (\<lambda>t s. finite (dom (cc_net s)) \<and> conc_step (cluster_net B P sched) (cluster_step B P) ord1 ord2 Internal s t)"
proof -
  have "wf (inv_image conc_order conc_left)" by (intro wf_inv_image wf_lex_prod) simp_all
  moreover have "{(t, s). finite (dom (cc_net s)) \<and> conc_step (cluster_net B P sched) (cluster_step B P) ord1 ord2 Internal s t}
      \<subseteq> inv_image conc_order conc_left"
    using internal_left by (auto simp: inv_image_def)
  ultimately show ?thesis unfolding wfp_def by (rule wf_subset)
qed

lemma internal_run:
  assumes "shard_cluster B tinv P sched" and "finite (dom (cc_net s))"
  shows "\<exists>n t. conc_run (cluster_net B P sched) (cluster_step B P) ord1 ord2 s (replicate n Internal) t \<and>
    (\<forall>pc \<in> set (cc_commits t). finished pc) \<and> cc_calls t = [] \<and> all_applied (cc_net t)"
  using assms(2)
proof (induction s rule: wfp_induct_rule [OF internal_wf [of B P sched ord1 ord2]])
  case (1 s)
  let ?run = "conc_run (cluster_net B P sched) (cluster_step B P) ord1 ord2"
  let ?done = "\<lambda>t. (\<forall>pc \<in> set (cc_commits t). finished pc) \<and> cc_calls t = [] \<and> all_applied (cc_net t)"
  show ?case
  proof (cases "?done s")
    case True
    then show ?thesis using run_start by (intro exI [of _ 0] exI [of _ s]) simp
  next
    case False
    then obtain t where t: "conc_step (cluster_net B P sched) (cluster_step B P) ord1 ord2 Internal s t"
      using internal_stuck_iff [of B P sched ord1 ord2 s] by blast
    have "finite (dom (cc_net t))" using internal_dom [OF assms(1) t] 1(2) by simp
    with 1 t obtain n u where u: "?run t (replicate n Internal) u" "?done u" by blast
    have "?run s [Internal] t" using run_step [OF run_start t] by simp
    from conc_run_trans [OF u(1) this] u(2) show ?thesis by (intro exI [of _ "Suc n"] exI [of _ u]) simp
  qed
qed

lemma replicate_Internal: "only_commits (replicate n Internal)" "commits (replicate n Internal) = []"
  by (simp_all add: only_commits_def commits_def)

text \<open>Clients that commit a list of transactions, and then the time until all is done.\<close>

lemma commit_all_run:
  assumes "shard_cluster B tinv P sched" and "finite (dom (cc_net s))"
  shows "\<exists>es t. conc_run (cluster_net B P sched) (cluster_step B P) ord1 ord2 s es t \<and> only_commits es \<and> commits es = ts \<and>
    (\<forall>pc \<in> set (cc_commits t). finished pc) \<and> cc_calls t = [] \<and> all_applied (cc_net t)"
  using assms(2)
proof (induction ts arbitrary: s)
  case Nil
  then show ?case using internal_run [OF assms(1) Nil] replicate_Internal by blast
next
  case (Cons u ts)
  let ?s = "s\<lparr>cc_commits := cc_commits s @ [Entered u]\<rparr>"
  have "finite (dom (cc_net ?s))" using Cons.prems by simp
  from Cons.IH [OF this] obtain es t where
    es: "conc_run (cluster_net B P sched) (cluster_step B P) ord1 ord2 ?s es t" "only_commits es" "commits es = ts"
      "\<forall>pc \<in> set (cc_commits t). finished pc" "cc_calls t = []" "all_applied (cc_net t)" by blast
  have "conc_run (cluster_net B P sched) (cluster_step B P) ord1 ord2 s [DoCommit u] ?s"
    using run_step [OF run_start do_commit, of "cluster_net B P sched" "cluster_step B P" ord1 ord2 s u] by simp
  from conc_run_trans [OF es(1) this] es(2-6) show ?case
    by (intro exI [of _ "[DoCommit u] @ es"] exI [of _ t]) (simp add: only_commits_def commits_def)
qed

section \<open>A method that runs into a commit\<close>

text \<open>\<open>Commit\<close> has sent its prepares; another method runs; then \<open>Commit\<close> goes on, and everything arrives.\<close>

lemma race_run:
  assumes txn: "co_transactions c t = Some txn" "tx_State txn = StateActive"
    and several: "\<not> (\<exists>shard. \<forall>x \<in> set (tx_Writes txn). Locate (co_router c) (wi_Key x) = shard)"
    and g: "g = group_by_shard (co_router c) (tx_Writes txn)" and loop: "prepare_loop http t (flatten (ord1 g)) w = (None, w0)"
    and e: "conc_step http tau ord1 ord2 e \<lparr>cc_coord = c, cc_commits = [Preparing t g []], cc_calls = [], cc_net = w0\<rparr>
      \<lparr>cc_coord = c1, cc_commits = [Preparing t g []], cc_calls = cs, cc_net = w0\<rparr>"
    and exec: "net_exec http tau (map (\<lambda>p. commit_call (fst p) (wi_Key (snd p)) t now) (flatten (ord2 g)) @ cs) w0 w2"
  shows "\<exists>es. e \<in> set es \<and> conc_run http tau ord1 ord2 \<lparr>cc_coord = c, cc_commits = [], cc_calls = [], cc_net = w\<rparr> es
    \<lparr>cc_coord = set_state t StateCommitted c1, cc_commits = [Returned t None], cc_calls = [], cc_net = w2\<rparr>"
proof -
  let ?run = "conc_run http tau ord1 ord2" and ?st = "\<lambda>c pcs cs w. \<lparr>cc_coord = c, cc_commits = pcs, cc_calls = cs, cc_net = w\<rparr>"
  let ?commits = "map (\<lambda>(shard, x). commit_call shard (wi_Key x) t now) (flatten (ord2 g))"
  obtain g1 g2 gs where gs: "tx_Writes txn \<noteq> []" "g = g1 # g2 # gs" using several_groups [OF several] g by metis
  have 0: "?run (?st c [] [] w) [DoCommit t] (?st c ([] @ [Entered t]) [] w)"
    using run_step [OF run_start do_commit, of http tau ord1 ord2 "?st c [] [] w" t] by simp
  have 1: "?run (?st c ([] @ [Entered t]) [] w) [Internal] (?st c ([] @ [Preparing t g (flatten (ord1 g))]) ([] @ []) w)"
    by (rule advance_run [where now = now]) (use txn gs g in auto)
  obtain es where 2: "?run (?st c ([] @ [Preparing t g (flatten (ord1 g))]) ([] @ []) w) es (?st c [Preparing t g []] [] w0)"
    using prepare_run [OF loop, where qs = "[]" and cs = "[]"] by fastforce
  have 3: "?run (?st c [Preparing t g []] [] w0) [e] (?st c1 ([] @ [Preparing t g []]) cs w0)" using run_step [OF run_start e] by simp
  have 4: "?run (?st c1 ([] @ [Preparing t g []]) cs w0) [Internal] (?st (set_state t StateCommitted c1) ([] @ [Returned t None]) (cs @ ?commits) w0)"
    by (rule advance_run [where now = now]) simp
  have "mset (cs @ ?commits) = mset (map (\<lambda>p. commit_call (fst p) (wi_Key (snd p)) t now) (flatten (ord2 g)) @ cs)"
    by (simp add: split_def add.commute)
  from exec_run [OF exec this] obtain n where
    5: "?run (?st (set_state t StateCommitted c1) ([] @ [Returned t None]) (cs @ ?commits) w0) (replicate n Internal)
        (?st (set_state t StateCommitted c1) ([] @ [Returned t None]) [] w2)" by blast
  from conc_run_trans [OF 5 conc_run_trans [OF 4 conc_run_trans [OF 3 conc_run_trans [OF 2 conc_run_trans [OF 1 0]]]]]
  show ?thesis
    by (intro exI [of _ "((((([DoCommit t] @ [Internal]) @ es) @ [e]) @ [Internal]) @ replicate n Internal)"] conjI) simp_all
qed

text \<open>The prepares of a transaction on a healthy cluster.\<close>

lemma prepared_net:
  fixes c :: Coordinator
  assumes "shard_cluster B tinv P sched" and "cluster_inv B tinv cl" and "finite (dom cl)" and "\<forall>c \<in> set t. unreserved c"
    and "co_transactions c t = Some txn" and "tx_State txn = StateActive"
    and "\<not> (\<exists>shard. \<forall>x \<in> set (tx_Writes txn). Locate (co_router c) (wi_Key x) = shard)"
    and "\<forall>x \<in> set (tx_Writes txn). placed (co_router c) (cluster_state B P cl) t x" and "\<forall>g. mset (ord1 g) = mset g"
  shows "\<exists>cl0. prepare_loop (cluster_net B P sched) t (flatten (ord1 (group_by_shard (co_router c) (tx_Writes txn)))) cl = (None, cl0) \<and> finite (dom cl0)"
proof -
  let ?ps = "flatten (ord1 (group_by_shard (co_router c) (tx_Writes txn)))"
  obtain e cl0 where loop: "prepare_loop (cluster_net B P sched) t ?ps cl = (e, cl0)" by fastforce
  have "set ?ps = set (located (co_router c) (tx_Writes txn))" using mset_visited [OF assms(9)] by (metis mset_eq_setD)
  then have "\<forall>p \<in> set ?ps. good_addr (fst p) \<and> cluster_state B P cl (fst p) \<noteq> None \<and> 32 \<notin> set (wi_Key (snd p)) \<and> 32 \<notin> set (wi_Value (snd p))"
    using assms(8) fst_located unfolding placed_def by (metis option.distinct(1))
  from txn_network.prepare_loop_effect [OF shard_cluster.is_txn_network [OF assms(1)] assms(2,4) this loop] have "e = None" by blast
  with loop have "coord_Commit (cluster_net B P sched) ord1 id 0 t c cl =
      (set_state t StateCommitted c, map (\<lambda>p. commit_call (fst p) (wi_Key (snd p)) t 0) (flatten (id (group_by_shard (co_router c) (tx_Writes txn)))), cl0, None)"
    by (intro coord_Commit_prepared [OF assms(5-7)]) simp
  from coord_Commit_keeps [where I = "\<lambda>cl. finite (dom cl)", OF _ assms(3) this] cluster_net_dom [OF assms(1)] have "finite (dom cl0)" by metis
  with loop \<open>e = None\<close> show ?thesis by blast
qed

section \<open>Properties\<close>

text \<open>
  (C4) Transactions that are committed at the same time do not disturb each other: clients
  call \<open>Commit\<close> once for each of any number of active, non-empty transactions.  All their
  writes are to different keys, which are UTF-8 text without blanks like their values, live
  on shards of the cluster and are held by no other transaction at the start.  The calls, the
  requests they send and the work of the shards interleave in any way.  When all calls have
  returned and everything has arrived and is applied, every call has returned success, and
  for every transaction there is one timestamp at which each of its writes is stored on the
  shard of its key, with no intent left; every other key of every shard is as it was.
  Each shard address is a server of its own that applies every accepted proposal once and in
  order, and every call is answered.
\<close>

theorem concurrent_commits:
  assumes "shard_cluster B tinv P sched" and "cluster_inv B tinv cl"
    and "conc_run (cluster_net B P sched) (cluster_step B P) ord1 ord2 \<lparr>cc_coord = c, cc_commits = [], cc_calls = [], cc_net = cl\<rparr> es s"
    and "only_commits es" and "distinct (commits es)" and com: "committable c (cluster_state B P cl) (set (commits es)) W"
    and "\<forall>g. mset (ord1 g) = mset g" and "\<forall>g. mset (ord2 g) = mset g"
    and "\<forall>pc \<in> set (cc_commits s). finished pc" and "cc_calls s = []" and "all_applied (cc_net s)"
  shows "cc_commits s = map (\<lambda>t. Returned t None) (commits es) \<and>
    (\<forall>t \<in> set (commits es). \<exists>ts. \<forall>x \<in> set (W t). \<exists>srv. cc_net s (Locate (co_router c) (wi_Key x)) = Some srv \<and>
      versions (view B (sn_engine (srv_node srv))) (wi_Key x) ts = Some (Some (wi_Value x)) \<and>
      intents (view B (sn_engine (srv_node srv))) (wi_Key x) = None) \<and>
    (\<forall>a k. (\<forall>t \<in> set (commits es). \<forall>x \<in> set (W t). (Locate (co_router c) (wi_Key x), wi_Key x) \<noteq> (a, k)) \<longrightarrow>
      cell_of (cluster_state B P (cc_net s)) a k = cell_of (cluster_state B P cl) a k)"
proof -
  let ?loc = "\<lambda>x. Locate (co_router c) (wi_Key x)"
  note res = shard_cluster.concurrent_result [OF assms(1,3,2,4-10)]
  have "\<exists>ts. \<forall>x \<in> set (W t). \<exists>srv. cc_net s (?loc x) = Some srv \<and>
      versions (view B (sn_engine (srv_node srv))) (wi_Key x) ts = Some (Some (wi_Value x)) \<and>
      intents (view B (sn_engine (srv_node srv))) (wi_Key x) = None" if t: "t \<in> set (commits es)" for t
  proof -
    obtain ts where ts: "\<forall>x \<in> set (W t). cell_of (cluster_state B P (cc_net s)) (?loc x) (wi_Key x) =
        map_option (cell_write t (wi_Value x) ts) (cell_of (cluster_state B P cl) (?loc x) (wi_Key x))" using res t by blast
    have "\<exists>srv. cc_net s (?loc x) = Some srv \<and> versions (view B (sn_engine (srv_node srv))) (wi_Key x) ts = Some (Some (wi_Value x)) \<and>
        intents (view B (sn_engine (srv_node srv))) (wi_Key x) = None" if x: "x \<in> set (W t)" for x
    proof -
      obtain m where "cluster_state B P cl (?loc x) = Some m" "available m (wi_Key x) t"
        using com t x unfolding committable_def placed_def by blast
      then show ?thesis using ts x by (intro written_cell [OF assms(11)]) auto
    qed
    then show ?thesis by blast
  qed
  with res show ?thesis by blast
qed

text \<open>
  (C5) An accepted rollback can still be committed: \<open>Commit\<close> does not look at the state of the
  transaction again after its prepares.  For every transaction on several shards of a healthy
  cluster there is a run in which the client's \<open>Abort\<close> is accepted while \<open>Commit\<close> waits for
  a shard; \<open>Commit\<close> then returns success, the transaction is marked committed, and when all
  is quiet every write of the rolled back transaction is stored.  The writes are as for a
  distributed commit: to different keys, UTF-8 text without blanks, held by no other
  transaction.
  Each shard address is a server of its own that applies every accepted proposal once and in
  order, and every call is answered.
\<close>

theorem rollback_during_commit:
  assumes "shard_cluster B tinv P sched" and "cluster_inv B tinv cl" and "finite (dom cl)" and "\<forall>c \<in> set t. unreserved c"
    and txn: "co_transactions c t = Some txn" "tx_State txn = StateActive"
    and several: "\<not> (\<exists>shard. \<forall>x \<in> set (tx_Writes txn). Locate (co_router c) (wi_Key x) = shard)"
    and "distinct (map wi_Key (tx_Writes txn))" and ready: "\<forall>x \<in> set (tx_Writes txn). placed (co_router c) (cluster_state B P cl) t x"
    and "\<forall>g. mset (ord1 g) = mset g" and "\<forall>g. mset (ord2 g) = mset g"
  shows "\<exists>es s. conc_run (cluster_net B P sched) (cluster_step B P) ord1 ord2 \<lparr>cc_coord = c, cc_commits = [], cc_calls = [], cc_net = cl\<rparr> es s \<and>
    DoAbort t \<in> set es \<and> cc_commits s = [Returned t None] \<and> txn_state (cc_coord s) t = Some StateCommitted \<and>
    cc_calls s = [] \<and> all_applied (cc_net s) \<and>
    (\<forall>x \<in> set (tx_Writes txn). \<exists>srv. cc_net s (Locate (co_router c) (wi_Key x)) = Some srv \<and>
      versions (view B (sn_engine (srv_node srv))) (wi_Key x) now = Some (Some (wi_Value x)))"
proof -
  let ?net = "cluster_net B P sched" and ?tau = "cluster_step B P" and ?r = "co_router c" and ?ws = "tx_Writes txn"
  let ?loc = "\<lambda>x. Locate ?r (wi_Key x)"
  define g where "g = group_by_shard ?r ?ws"
  let ?aborts = "map (\<lambda>p. abort_call (fst p) (wi_Key (snd p)) t) (located ?r ?ws)"
  obtain cl0 where loop: "prepare_loop ?net t (flatten (ord1 g)) cl = (None, cl0)" and fin: "finite (dom cl0)"
    using prepared_net [OF assms(1-4) txn several ready assms(10)] unfolding g_def by blast
  obtain cl2 where exec: "net_exec ?net ?tau (map (\<lambda>p. commit_call (fst p) (wi_Key (snd p)) t now) (flatten (ord2 g)) @ ?aborts) cl0 cl2"
    and applied: "all_applied cl2" using exec_drains [OF assms(1) fin] by blast
  obtain cl1 where "net_exec ?net ?tau (map (\<lambda>p. commit_call (fst p) (wi_Key (snd p)) t now) (flatten (ord2 g))) cl0 cl1"
    "net_exec ?net ?tau ?aborts cl1 cl2" using net_exec_appendD [OF exec] by blast
  note ex = this
  have step: "conc_step ?net ?tau ord1 ord2 (DoAbort t) \<lparr>cc_coord = c, cc_commits = [Preparing t g []], cc_calls = [], cc_net = cl0\<rparr>
      \<lparr>cc_coord = set_state t StateAborted c, cc_commits = [Preparing t g []], cc_calls = ?aborts, cc_net = cl0\<rparr>"
    using do_abort [of t "\<lparr>cc_coord = c, cc_commits = [Preparing t g []], cc_calls = [], cc_net = cl0\<rparr>"] coord_Abort_Some [OF txn(1)]
    by (simp add: located_def comp_def)
  from race_run [where http = ?net and tau = ?tau, OF txn several g_def loop step exec] obtain es where
    es: "DoAbort t \<in> set es" "conc_run ?net ?tau ord1 ord2 \<lparr>cc_coord = c, cc_commits = [], cc_calls = [], cc_net = cl\<rparr> es
      \<lparr>cc_coord = set_state t StateCommitted (set_state t StateAborted c), cc_commits = [Returned t None], cc_calls = [], cc_net = cl2\<rparr>" by blast
  have "\<exists>srv. cl2 (?loc x) = Some srv \<and> versions (view B (sn_engine (srv_node srv))) (wi_Key x) now = Some (Some (wi_Value x))"
    if x: "x \<in> set ?ws" for x
  proof -
    have ok: "\<forall>p \<in> set (located ?r ?ws). good_addr (fst p) \<and> cluster_state B P cl (fst p) \<noteq> None \<and>
        32 \<notin> set (wi_Key (snd p)) \<and> 32 \<notin> set (wi_Value (snd p))" using ready by (auto simp: located_def placed_def)
    note eff = txn_network.late_abort_effect [OF shard_cluster.is_txn_network [OF assms(1)] assms(2,4,8) ok
        mset_visited [OF assms(10)] mset_visited [OF assms(11)] loop [unfolded g_def] ex [unfolded g_def] x]
    obtain m where m: "cluster_state B P cl (?loc x) = Some m" "available m (wi_Key x) t" using ready x by (auto simp: placed_def)
    then have "may_take t (intents m (wi_Key x))" by (simp add: may_take_def available_def)
    then have "cell_of (cluster_state B P cl2) (?loc x) (wi_Key x) =
        map_option (cell_write t (wi_Value x) now) (cell_of (cluster_state B P cl) (?loc x) (wi_Key x))"
      using eff m(1) by (simp add: cell_of_def abort_after_write del: cell_cmd.simps)
    from written_cell [OF applied m this] show ?thesis by blast
  qed
  moreover have "txn_state (set_state t StateCommitted (set_state t StateAborted c)) t = Some StateCommitted"
    using txn(1) by (simp add: txn_state_def set_state_def)
  ultimately show ?thesis using es applied by (intro exI conjI) (assumption | simp)+
qed

text \<open>
  An accepted write can miss the commit: \<open>Commit\<close> works on the copy of the writes it took at
  its start, and the transaction stays open until its prepares are answered.  For every
  transaction on several shards of a healthy cluster and every further key there is a run in
  which the client's write is accepted while \<open>Commit\<close> waits for a shard; the transaction is
  then committed with that write among its writes, and when all is quiet the key is, on every
  shard, as it was before.
\<close>

theorem write_during_commit:
  assumes "shard_cluster B tinv P sched" and "cluster_inv B tinv cl" and "finite (dom cl)" and "\<forall>c \<in> set t. unreserved c"
    and txn: "co_transactions c t = Some txn" "tx_State txn = StateActive"
    and several: "\<not> (\<exists>shard. \<forall>x \<in> set (tx_Writes txn). Locate (co_router c) (wi_Key x) = shard)"
    and "distinct (map wi_Key (tx_Writes txn))" and ready: "\<forall>x \<in> set (tx_Writes txn). placed (co_router c) (cluster_state B P cl) t x"
    and "\<forall>g. mset (ord1 g) = mset g" and "\<forall>g. mset (ord2 g) = mset g" and k: "\<forall>x \<in> set (tx_Writes txn). wi_Key x \<noteq> k"
  shows "\<exists>es s txn'. conc_run (cluster_net B P sched) (cluster_step B P) ord1 ord2 \<lparr>cc_coord = c, cc_commits = [], cc_calls = [], cc_net = cl\<rparr> es s \<and>
    DoAddWrite t k v \<in> set es \<and> cc_commits s = [Returned t None] \<and>
    co_transactions (cc_coord s) t = Some txn' \<and> tx_State txn' = StateCommitted \<and> \<lparr>wi_Key = k, wi_Value = v\<rparr> \<in> set (tx_Writes txn') \<and>
    cc_calls s = [] \<and> all_applied (cc_net s) \<and>
    (\<forall>a. cell_of (cluster_state B P (cc_net s)) a k = cell_of (cluster_state B P cl) a k)"
proof -
  let ?net = "cluster_net B P sched" and ?tau = "cluster_step B P" and ?r = "co_router c" and ?ws = "tx_Writes txn"
  let ?txn = "txn\<lparr>tx_Writes := tx_Writes txn @ [\<lparr>wi_Key = k, wi_Value = v\<rparr>]\<rparr>"
  let ?c1 = "c\<lparr>co_transactions := (co_transactions c)(t \<mapsto> ?txn)\<rparr>"
  define g where "g = group_by_shard ?r ?ws"
  let ?calls = "map (\<lambda>p. commit_call (fst p) (wi_Key (snd p)) t 0) (flatten (ord2 g))"
  obtain cl0 where loop: "prepare_loop ?net t (flatten (ord1 g)) cl = (None, cl0)" and fin: "finite (dom cl0)"
    using prepared_net [OF assms(1-4) txn several ready assms(10)] unfolding g_def by blast
  obtain cl2 where exec: "net_exec ?net ?tau (?calls @ []) cl0 cl2" and applied: "all_applied cl2"
    using exec_drains [OF assms(1) fin] by blast
  have step: "conc_step ?net ?tau ord1 ord2 (DoAddWrite t k v) \<lparr>cc_coord = c, cc_commits = [Preparing t g []], cc_calls = [], cc_net = cl0\<rparr>
      \<lparr>cc_coord = ?c1, cc_commits = [Preparing t g []], cc_calls = [], cc_net = cl0\<rparr>"
    using do_add_write [of t k v "\<lparr>cc_coord = c, cc_commits = [Preparing t g []], cc_calls = [], cc_net = cl0\<rparr>" ?c1] txn
    by (simp add: AddWrite_def)
  from race_run [where http = ?net and tau = ?tau, OF txn several g_def loop step exec] obtain es where
    es: "DoAddWrite t k v \<in> set es" "conc_run ?net ?tau ord1 ord2 \<lparr>cc_coord = c, cc_commits = [], cc_calls = [], cc_net = cl\<rparr> es
      \<lparr>cc_coord = set_state t StateCommitted ?c1, cc_commits = [Returned t None], cc_calls = [], cc_net = cl2\<rparr>" by blast
  have com: "coord_Commit ?net ord1 ord2 0 t c cl = (set_state t StateCommitted c, ?calls, cl0, None)"
    unfolding g_def by (rule coord_Commit_prepared [OF txn several]) (use loop in \<open>simp add: g_def\<close>)
  have rdy: "\<forall>x \<in> set ?ws. good_addr (Locate ?r (wi_Key x)) \<and> cluster_state B P cl (Locate ?r (wi_Key x)) \<noteq> None \<and>
      32 \<notin> set (wi_Key x) \<and> 32 \<notin> set (wi_Value x)" using ready by (auto simp: placed_def)
  have "cell_of (cluster_state B P cl2) a k = cell_of (cluster_state B P cl) a k" for a
    using txn_network.commit_effect [OF shard_cluster.is_txn_network [OF assms(1)] assms(2,4) txn several assms(8) rdy assms(10,11) com refl]
      exec k by auto
  moreover have "co_transactions (set_state t StateCommitted ?c1) t = Some (?txn\<lparr>tx_State := StateCommitted\<rparr>)"
    by (simp add: set_state_def)
  ultimately show ?thesis using es applied
    by (intro exI [of _ es] exI [of _ "\<lparr>cc_coord = set_state t StateCommitted ?c1, cc_commits = [Returned t None], cc_calls = [], cc_net = cl2\<rparr>"]
        exI [of _ "?txn\<lparr>tx_State := StateCommitted\<rparr>"]) simp
qed

section \<open>Sample runs\<close>

text \<open>Two transactions without a common key, one on two shards and one on one.\<close>

definition two_txns :: Coordinator where
  "two_txns = fst (AddWrite (lit ''txn-8'') (lit ''b'') (lit ''3'') (fst (Begin 8 two_coordinator)))"

fun two_writes :: "bytes \<Rightarrow> WriteIntent list" where
  "two_writes t = (if t = lit ''txn-7'' then [\<lparr>wi_Key = lit ''a'', wi_Value = lit ''1''\<rparr>, \<lparr>wi_Key = lit ''z'', wi_Value = lit ''2''\<rparr>]
     else [\<lparr>wi_Key = lit ''b'', wi_Value = lit ''3''\<rparr>])"

lemma two_txns_facts:
  "co_transactions two_txns (lit ''txn-7'') = Some \<lparr>tx_ID = lit ''txn-7'', tx_State = StateActive, tx_StartTime = 7,
     tx_Writes = two_writes (lit ''txn-7'')\<rparr>"
  "co_transactions two_txns (lit ''txn-8'') = Some \<lparr>tx_ID = lit ''txn-8'', tx_State = StateActive, tx_StartTime = 8,
     tx_Writes = two_writes (lit ''txn-8'')\<rparr>"
  "Locate (co_router two_txns) (lit ''a'') = lit ''http://s1''" "Locate (co_router two_txns) (lit ''z'') = lit ''http://s2''"
  "Locate (co_router two_txns) (lit ''b'') = lit ''http://s1''"
  by code_simp+

lemma two_texts:
  "lit ''txn-7'' \<noteq> lit ''txn-8''" "lit ''a'' \<noteq> lit ''b''" "lit ''z'' \<noteq> lit ''b''" "\<forall>c \<in> set (lit ''txn-8''). unreserved c"
  "32 \<notin> set (lit ''b'')" "32 \<notin> set (lit ''3'')"
  by (simp_all add: lit_def unreserved_def)

lemma two_utf8:
  "utf8_valid (lit ''txn-7'')" "utf8_valid (lit ''txn-8'')" "utf8_valid (lit ''a'')" "utf8_valid (lit ''b'')" "utf8_valid (lit ''z'')"
  "utf8_valid (lit ''1'')" "utf8_valid (lit ''2'')" "utf8_valid (lit ''3'')"
  unfolding utf8_valid_def by code_simp+

lemma two_state:
  "cluster_state sl_btree P two_shards (lit ''http://s1'') = Some (view sl_btree (NewMemoryStore sl_btree))"
  "cluster_state sl_btree P two_shards (lit ''http://s2'') = Some (view sl_btree (NewMemoryStore sl_btree))"
  using two_facts(3) by (simp_all add: cluster_state_def two_shards_def new_server_def settled_def shard_run_def)

lemma two_committable:
  "committable two_txns (cluster_state sl_btree P two_shards) {lit ''txn-7'', lit ''txn-8''} two_writes"
proof -
  have av: "available (view sl_btree (NewMemoryStore sl_btree)) k t" for k t
    by (simp add: available_def NewMemoryStore_def)
  have "separate {lit ''txn-7'', lit ''txn-8''} two_writes" using two_texts two_facts(4) by (simp add: separate_def)
  then show ?thesis
    using two_txns_facts two_texts two_utf8 two_facts av
    by (simp add: committable_def placed_def two_state)
qed

theorem concurrent_commits_witness:
  "\<exists>es s. conc_run (cluster_net sl_btree any_parser id) (cluster_step sl_btree any_parser) id id
       \<lparr>cc_coord = two_txns, cc_commits = [], cc_calls = [], cc_net = two_shards\<rparr> es s \<and>
     cc_commits s = [Returned (lit ''txn-7'') None, Returned (lit ''txn-8'') None] \<and>
     (\<exists>ts srv. cc_net s (lit ''http://s1'') = Some srv \<and>
       versions (view sl_btree (sn_engine (srv_node srv))) (lit ''b'') ts = Some (Some (lit ''3'')))"
proof -
  let ?s = "\<lparr>cc_coord = two_txns, cc_commits = [], cc_calls = [], cc_net = two_shards\<rparr>"
  have "finite (dom (cc_net ?s))" by (simp add: two_shards_def)
  from commit_all_run [OF lazy.shard_cluster_axioms this, where ts = "[lit ''txn-7'', lit ''txn-8'']"]
  obtain es s where es: "conc_run (cluster_net sl_btree any_parser id) (cluster_step sl_btree any_parser) id id ?s es s" "only_commits es"
    "commits es = [lit ''txn-7'', lit ''txn-8'']" "\<forall>pc \<in> set (cc_commits s). finished pc" "cc_calls s = []" "all_applied (cc_net s)" by blast
  have "distinct (commits es)" "set (commits es) = {lit ''txn-7'', lit ''txn-8''}" using es(3) two_texts(1) by auto
  with concurrent_commits [OF lazy.shard_cluster_axioms two_shards_inv es(1,2) _ _ _ _ es(4-6), of two_writes] two_committable es(3)
  have "cc_commits s = [Returned (lit ''txn-7'') None, Returned (lit ''txn-8'') None] \<and> (\<exists>ts srv. cc_net s (lit ''http://s1'') = Some srv \<and>
       versions (view sl_btree (sn_engine (srv_node srv))) (lit ''b'') ts = Some (Some (lit ''3'')))"
    using two_txns_facts(5) two_texts(1) by (auto simp del: view_sel)
  with es(1) show ?thesis by blast
qed

text \<open>The transaction on two shards meets a rollback, and a write.\<close>

lemma two_race:
  "\<forall>x \<in> set [\<lparr>wi_Key = lit ''a'', wi_Value = lit ''1''\<rparr>, \<lparr>wi_Key = lit ''z'', wi_Value = lit ''2''\<rparr>].
     placed (co_router two_coordinator) (cluster_state sl_btree P two_shards) (lit ''txn-7'') x"
  "\<not> (\<exists>shard. \<forall>x \<in> set [\<lparr>wi_Key = lit ''a'', wi_Value = lit ''1''\<rparr>, \<lparr>wi_Key = lit ''z'', wi_Value = lit ''2''\<rparr>].
     Locate (co_router two_coordinator) (wi_Key x) = shard)"
proof -
  have "available (view sl_btree (NewMemoryStore sl_btree)) k t" for k t by (simp add: available_def NewMemoryStore_def)
  then show "\<forall>x \<in> set [\<lparr>wi_Key = lit ''a'', wi_Value = lit ''1''\<rparr>, \<lparr>wi_Key = lit ''z'', wi_Value = lit ''2''\<rparr>].
     placed (co_router two_coordinator) (cluster_state sl_btree P two_shards) (lit ''txn-7'') x"
    using two_locate two_utf8 two_facts by (simp add: placed_def two_state)
  show "\<not> (\<exists>shard. \<forall>x \<in> set [\<lparr>wi_Key = lit ''a'', wi_Value = lit ''1''\<rparr>, \<lparr>wi_Key = lit ''z'', wi_Value = lit ''2''\<rparr>].
     Locate (co_router two_coordinator) (wi_Key x) = shard)" using two_locate two_facts(3) by auto
qed

theorem rollback_during_commit_witness:
  "\<exists>es s srv. conc_run (cluster_net sl_btree any_parser id) (cluster_step sl_btree any_parser) id id
       \<lparr>cc_coord = two_coordinator, cc_commits = [], cc_calls = [], cc_net = two_shards\<rparr> es s \<and>
     DoAbort (lit ''txn-7'') \<in> set es \<and> cc_commits s = [Returned (lit ''txn-7'') None] \<and>
     cc_net s (lit ''http://s2'') = Some srv \<and>
     versions (view sl_btree (sn_engine (srv_node srv))) (lit ''z'') 9 = Some (Some (lit ''2''))"
proof -
  have fin: "finite (dom two_shards)" by (simp add: two_shards_def)
  show ?thesis
    using rollback_during_commit [OF lazy.shard_cluster_axioms two_shards_inv fin two_facts(5) two_txn, where ?ord1.0 = id and ?ord2.0 = id and now = 9
        and P = any_parser] two_race(1) [of any_parser] two_race(2) two_facts(4) two_locate
    by (auto simp del: view_sel)
qed

theorem write_during_commit_witness:
  "\<exists>es s. conc_run (cluster_net sl_btree any_parser id) (cluster_step sl_btree any_parser) id id
       \<lparr>cc_coord = two_coordinator, cc_commits = [], cc_calls = [], cc_net = two_shards\<rparr> es s \<and>
     DoAddWrite (lit ''txn-7'') (lit ''b'') (lit ''3'') \<in> set es \<and> cc_commits s = [Returned (lit ''txn-7'') None] \<and>
     cell_of (cluster_state sl_btree any_parser (cc_net s)) (lit ''http://s1'') (lit ''b'') =
     cell_of (cluster_state sl_btree any_parser two_shards) (lit ''http://s1'') (lit ''b'')"
proof -
  have fin: "finite (dom two_shards)" by (simp add: two_shards_def)
  show ?thesis
    using write_during_commit [OF lazy.shard_cluster_axioms two_shards_inv fin two_facts(5) two_txn, where ?ord1.0 = id and ?ord2.0 = id
        and P = any_parser and k = "lit ''b''" and v = "lit ''3''"] two_race(1) [of any_parser] two_race(2) two_facts(4) two_texts(2,3)
    by auto
qed

end
