(* ===== verification/Spec2Isabelle.thy ===== *)
theory Spec2Isabelle
  imports Store_Machine Memory_GC Range_Scan Snapshot Meta_Node Raft_Node Proxy Cluster_Txn Json_Bytes Tools_Proxy Cluster_Steps
begin

text \<open>
  ShardDB, a sharded key-value store with a small SQL front end: a verification development
  beside its Go sources.

  \<^bold>\<open>The program.\<close>  A proxy (\<^verbatim>\<open>cmd/proxy\<close>) takes SQL statements over HTTP.  It parses them
  (\<^verbatim>\<open>internal/sql\<close>), plans where they go (\<^verbatim>\<open>internal/planner\<close>), finds the shard of a key
  (\<^verbatim>\<open>internal/router\<close>) and forwards the statement to one shard or to all; transactions are
  buffered and committed by a coordinator (\<^verbatim>\<open>internal/txn\<close>) in one or in two phases.  A shard
  server (\<^verbatim>\<open>cmd/shard-node\<close>) proposes what it is asked to raft and applies what raft commits
  to a multi-version store in memory (\<^verbatim>\<open>internal/storage\<close>).  A meta server
  (\<^verbatim>\<open>cmd/meta-node\<close>) replicates the map from key ranges to shards (\<^verbatim>\<open>internal/meta\<close>).  Both run a
  raft node (\<^verbatim>\<open>internal/raft\<close>) over a checksummed log file (\<^verbatim>\<open>internal/storage/wal\<close>).

  \<^bold>\<open>The theories, from the bottom.\<close>

  \<^item> \<^verbatim>\<open>Sharddb_Prelude\<close>: types of bytes and words, callbacks that may stop an iteration, shared
    lemmas.  \<^verbatim>\<open>Go_Lib\<close>, \<^verbatim>\<open>Go_Strings\<close>, \<^verbatim>\<open>Go_Utf8\<close>, \<^verbatim>\<open>Go_Url\<close>, \<^verbatim>\<open>Go_Base64\<close>, \<^verbatim>\<open>Go_Json\<close>, \<^verbatim>\<open>Go_Struct\<close>: what
    the sources use of Go's library, executable: byte order, searching, splitting and
    printing, query strings, and JSON from the text to struct fields, with round trips.
  \<^item> \<^verbatim>\<open>Mvcc\<close> (\<^verbatim>\<open>storage/mvcc.go\<close>): versioned keys.  \<^verbatim>\<open>Btree\<close>: the contract of \<^verbatim>\<open>google/btree\<close>, the locale
    \<^verbatim>\<open>btree_api\<close>, with a sorted list and a red-black tree as instances.  \<^verbatim>\<open>Memory_Store\<close>,
    \<^verbatim>\<open>Memory_Read\<close>, \<^verbatim>\<open>Range_Scan\<close>, \<^verbatim>\<open>Memory_GC\<close>, \<^verbatim>\<open>Snapshot\<close> (\<^verbatim>\<open>storage/memory.go\<close>): the store as a
    record of tree and lock table, one definition per method.  \<^verbatim>\<open>Store_Spec\<close>, \<^verbatim>\<open>Store_Machine\<close>: the
    abstract store (versions by key and timestamp, intents by key), and that every method
    refines it.  \<^verbatim>\<open>Tree_Refinement\<close>: any tree with the contract gives the same store, which the
    runs of the tools rest on.
    \<^verbatim>\<open>Engine\<close> (\<^verbatim>\<open>storage/engine.go\<close>): the interface the SQL executor uses, the locale \<^verbatim>\<open>mvcc_engine\<close>.
  \<^item> \<^verbatim>\<open>Wal\<close> (\<^verbatim>\<open>storage/wal/wal.go\<close>), \<^verbatim>\<open>Raft_Types\<close>, \<^verbatim>\<open>Raft_Storage\<close> (\<^verbatim>\<open>raft/storage.go\<close>), \<^verbatim>\<open>Raft_Node\<close>
    (\<^verbatim>\<open>raft/node.go\<close>, \<^verbatim>\<open>raft/transport.go\<close>), \<^verbatim>\<open>Raft_Run\<close> (the loop of \<^verbatim>\<open>node.go\<close> as a step relation with
    ticks, proposals and messages in any order).  The locale \<^verbatim>\<open>applier_inv\<close> is what a state
    machine must keep; both servers interpret it.
  \<^item> \<^verbatim>\<open>Meta_Store\<close> (\<^verbatim>\<open>meta/store.go\<close>), \<^verbatim>\<open>Router\<close> (\<^verbatim>\<open>router/router.go\<close>), \<^verbatim>\<open>Sql_Plan\<close> (\<^verbatim>\<open>sql/plan.go\<close>,
    \<^verbatim>\<open>sql/parser.go\<close>, \<^verbatim>\<open>planner/planner.go\<close>), \<^verbatim>\<open>Sql_Exec\<close> (\<^verbatim>\<open>sql/executor.go\<close>), \<^verbatim>\<open>Metrics\<close>
    (\<^verbatim>\<open>metrics/metrics.go\<close>).
  \<^item> \<^verbatim>\<open>Wire\<close>, \<^verbatim>\<open>Wire_Json\<close>, \<^verbatim>\<open>Json_Bytes\<close>: the URLs and bodies that cross the wire and the records of
    the log file.  \<^verbatim>\<open>Coordinator\<close> (\<^verbatim>\<open>txn/coordinator.go\<close>), and \<^verbatim>\<open>Txn_Network\<close>: what it needs of the
    shards, the locale \<^verbatim>\<open>txn_network\<close>, and what its commit and abort then achieve.
  \<^item> \<^verbatim>\<open>Shard_Node\<close>, \<^verbatim>\<open>Shard_Server\<close> (\<^verbatim>\<open>cmd/shard-node/main.go\<close>), \<^verbatim>\<open>Meta_Node\<close> (\<^verbatim>\<open>cmd/meta-node/main.go\<close>),
    \<^verbatim>\<open>Proxy\<close>, \<^verbatim>\<open>Proxy_Server\<close> (\<^verbatim>\<open>cmd/proxy/main.go\<close>): the processes, from the flags to the route
    tables.  \<^verbatim>\<open>Cluster\<close>, \<^verbatim>\<open>Cluster_Txn\<close>: shards behind their addresses, the locale \<^verbatim>\<open>shard_cluster\<close>,
    which is a \<^verbatim>\<open>txn_network\<close>.  \<^verbatim>\<open>Proxy_Server\<close> adds clients, the proxy and calls under way,
    \<^verbatim>\<open>Proxy_Scatter\<close> the queries that go to every shard.
  \<^item> \<^verbatim>\<open>Coordinator_Steps\<close>, \<^verbatim>\<open>Concurrent_Commit\<close>, \<^verbatim>\<open>Cluster_Steps\<close>: the coordinator with its methods running
    at once; \<^verbatim>\<open>Commit\<close> is a program counter that stops wherever it does not hold the mutex.  The
    locale \<^verbatim>\<open>batch_network\<close> extends \<^verbatim>\<open>txn_network\<close>, and shard clusters are instances of it.
  \<^item> \<^verbatim>\<open>Tools\<close>, \<^verbatim>\<open>Tools_Http\<close>, \<^verbatim>\<open>Tools_Proxy\<close> (\<^verbatim>\<open>cmd/tools\<close>): the verification programs, run against the
    models of the store, of the shard servers and of the whole system.

  \<^bold>\<open>State and operations.\<close>  A struct is a record with the fields of the source under a short
  prefix (\<^verbatim>\<open>ms_\<close> for the memory store, \<^verbatim>\<open>sn_\<close> for a shard, \<^verbatim>\<open>co_\<close> for the coordinator); an
  operation takes the state and returns the new one with its results; errors are values of
  one datatype per component; a panic is a value too.  \<^verbatim>\<open>uint64\<close> is \<^typ>\<open>64 word\<close>, and a byte
  slice that may be \<^verbatim>\<open>nil\<close> is an option.  A method that holds a mutex is one step.  Where the
  iteration order of a Go map can be observed, it is a parameter, and the theorems hold for
  every order.

  \<^bold>\<open>What is shown.\<close>  The store refines an abstract multi-version store; reads of keys that no
  longer key shadows are snapshot reads; a one-phase commit is all or nothing; intents are
  stable; collection keeps every newest visible version and, without shadowed keys, removes
  exactly the superseded ones.  Keys, log files, queries, JSON bodies, snapshots and migration
  are round trips, or the loss is stated.  A node recovers from its log and, as long as no
  snapshot is restored, gives its state machine the normal, non-empty committed entries once
  and in order; a shard replica then has what the abstract store has after the commands of
  its log.  The ranges of the meta store stay a partition, a split moves exactly the keys of
  the divided range, and \<^verbatim>\<open>/route\<close> always answers.  Point statements are routed by the key they
  use, scans of a table are exact where no stored key extends another, and a query of all shards
  returns the newest rows of each.  Two-phase commit succeeds exactly when every prepare is
  answered with 200.  For keys and values without blanks (and UTF-8 where they travel as JSON)
  and keys that nobody else holds, a commit over one or several shards, from the client's
  requests to the stores, publishes every write once the system is quiet, also when many
  commits run at once.  Where the code does less than that, a theorem says what happens
  instead: transactions on several shards torn apart by a conflict, rollbacks and writes that
  run into a commit, snapshots that lose versions and intents, restarts behind a snapshot,
  keys shadowed by longer keys, torn log records.

  \<^bold>\<open>Idealisations.\<close>  The theorems about whole clusters (theories \<^verbatim>\<open>Cluster\<close>, \<^verbatim>\<open>Cluster_Txn\<close>,
  \<^verbatim>\<open>Cluster_Steps\<close>, \<^verbatim>\<open>Proxy_Server\<close>, \<^verbatim>\<open>Proxy_Scatter\<close>, \<^verbatim>\<open>Tools_Http\<close>, \<^verbatim>\<open>Tools_Proxy\<close>) take raft behind each shard
  address as one queue that loses, repeats and reorders nothing: a proposal is accepted at once
  and applied later, at any time.  The handlers of \<^verbatim>\<open>cmd/shard-node\<close> ignore the error of
  \<^verbatim>\<open>Propose\<close>, and a real proposal may be dropped or block; neither happens here.  Every HTTP call
  returns with an answer of the server it was sent to; the sources set no timeout, and lost
  answers are covered only by the theorems about the coordinator alone, whose network is any
  function.  Each address is a raft group of its own, as the proxy assumes;
  \<^verbatim>\<open>start_cluster.ps1\<close> starts the three addresses as the members of one group.  The goroutines of
  a broadcast are run in an arbitrary order of arrival, one after the other.  The storage of
  \<^verbatim>\<open>etcd/raft\<close> panics on gaps and on indices out of range; \<^verbatim>\<open>log_store\<close> says nothing about such
  calls.  That commits come to an end is a lemma under these assumptions
  (\<^verbatim>\<open>internal_run\<close>), not a claim about the program.

  \<^bold>\<open>Parameters.\<close>  Code outside the repository is an argument of the definitions that use it:
  \<^verbatim>\<open>google/btree\<close> (\<^verbatim>\<open>btree_ops\<close>, with the laws of \<^verbatim>\<open>btree_api\<close>), the storage of \<^verbatim>\<open>etcd/raft\<close>
  (\<^verbatim>\<open>mem_ops\<close>, with \<^verbatim>\<open>log_store\<close>), its wire format (\<^verbatim>\<open>raft_codec\<close>, with \<^verbatim>\<open>wire_format\<close>) and its
  node (\<^verbatim>\<open>raft_lib\<close>, without laws), the \<^verbatim>\<open>vitess\<close> parser (\<^verbatim>\<open>sqlparser\<close>, without laws), the network
  and the disk.  Every locale is interpreted on a concrete instance.

  \<^bold>\<open>Bounds.\<close>  There is no fuel: every function is total, loops recurse on their data, and what runs
  for ever (the raft loop, the system) is a step relation.  The JSON parser stops at depth
  10000 as Go's decoder does.  Crash recovery is stated for the first fifty entries, before
  the first snapshot can be taken; what happens behind a snapshot has a theorem of its own.

  \<^bold>\<open>Not modelled.\<close>  The consensus of \<^verbatim>\<open>etcd/raft\<close> itself; listening, signals and shutdown; the
  background collection of the shard server, which only logs; the text of error messages and
  of the metrics answer; the benchmark under \<^verbatim>\<open>cmd/tools\<close>, a load generator; tests, scripts and
  deployment files.
\<close>

end
